(* ===== verification/Prelude.thy ===== *)
theory Prelude
  imports Main "HOL-Library.Multiset"
begin

text \<open>
  Shared vocabulary of the development: slices of Go values that may be nil, decimal printing,
  sums over lists, and the transition-system interface that every state machine of the
  development instantiates.
\<close>

named_theorems crit_defs \<open>definitions of the critical sections of a stopper state\<close>
named_theorems wf_intros \<open>preservation of well-formedness\<close>

section \<open>Lists of possibly-nil values\<close>

text \<open>A Go slice of interface values is a list of options; \<open>non_nil\<close> drops the nil entries.\<close>

fun non_nil :: "'a option list \<Rightarrow> 'a list" where
  "non_nil [] = []"
| "non_nil (None # xs) = non_nil xs"
| "non_nil (Some x # xs) = x # non_nil xs"

lemma non_nil_append [simp]: "non_nil (xs @ ys) = non_nil xs @ non_nil ys"
  by (induction xs rule: non_nil.induct) auto

lemma non_nil_map_Some [simp]: "non_nil (map Some xs) = xs"
  by (induction xs) auto

lemma set_non_nil: "x \<in> set (non_nil xs) \<longleftrightarrow> Some x \<in> set xs"
  by (induction xs rule: non_nil.induct) auto

lemma non_nil_empty_iff: "non_nil xs = [] \<longleftrightarrow> (\<forall>x\<in>set xs. x = None)"
  by (induction xs rule: non_nil.induct) auto

section \<open>Decimal printing\<close>

fun nat_str :: "nat \<Rightarrow> string" where
  "nat_str n =
     (if n < 10 then [char_of (48 + n)] else nat_str (n div 10) @ [char_of (48 + n mod 10)])"

declare nat_str.simps [simp del]

lemma nat_str_nonempty [simp]: "nat_str n \<noteq> []"
  by (subst nat_str.simps) simp

section \<open>Sums over lists\<close>

lemma sum_list_update_int:
  fixes f :: "'a \<Rightarrow> int"
  assumes "i < length xs"
  shows "sum_list (map f (xs[i := y])) = sum_list (map f xs) - f (xs ! i) + f y"
  using assms
proof (induction xs arbitrary: i)
  case Nil
  then show ?case by simp
next
  case (Cons x xs)
  then show ?case by (cases i) auto
qed

lemma sum_list_member_le_int:
  fixes f :: "'a \<Rightarrow> int"
  assumes "x \<in> set xs" and "\<And>y. y \<in> set xs \<Longrightarrow> 0 \<le> f y"
  shows "f x \<le> sum_list (map f xs)"
  using assms
proof (induction xs)
  case Nil
  then show ?case by simp
next
  case (Cons a xs)
  have nn: "0 \<le> sum_list (map f xs)"
    using Cons.prems(2) by (auto intro!: sum_list_nonneg)
  show ?case
  proof (cases "x = a")
    case True
    with nn show ?thesis by simp
  next
    case False
    with Cons have "f x \<le> sum_list (map f xs)" by auto
    moreover have "0 \<le> f a" using Cons.prems(2) by simp
    ultimately show ?thesis by simp
  qed
qed

section \<open>Transition systems\<close>

text \<open>
  The contract of a state machine: an initial-state predicate, a step relation, and an invariant
  that the initial states satisfy and every step keeps. The client lemma is that the invariant
  holds in every state that finitely many steps reach.
\<close>

locale invariant_system =
  fixes init :: "'s \<Rightarrow> bool"
    and step :: "'s \<Rightarrow> 's \<Rightarrow> bool"
    and inv :: "'s \<Rightarrow> bool"
  assumes inv_init: "init s \<Longrightarrow> inv s"
    and inv_step: "inv s \<Longrightarrow> step s t \<Longrightarrow> inv t"
begin

lemma inv_steps: "step\<^sup>*\<^sup>* s t \<Longrightarrow> inv s \<Longrightarrow> inv t"
  by (induction rule: rtranclp_induct) (auto intro: inv_step)

lemma inv_reachable: "init s \<Longrightarrow> step\<^sup>*\<^sup>* s t \<Longrightarrow> inv t"
  by (blast intro: inv_steps inv_init)

lemma stable_from:
  assumes "inv s" and "P s" and "step\<^sup>*\<^sup>* s t"
    and "\<And>u v. inv u \<Longrightarrow> P u \<Longrightarrow> step u v \<Longrightarrow> P v"
  shows "P t"
proof -
  from assms(3) have "inv t \<and> P t"
    by (induction rule: rtranclp_induct) (use assms(1,2,4) inv_step in auto)
  then show ?thesis by simp
qed

end

text \<open>
  A state machine on top of another: seen through \<open>view\<close>, each of its steps is a run of the machine
  below. What holds of every run below then holds of the runs above.
\<close>

locale layered_system = invariant_system init step inv
  for init :: "'s \<Rightarrow> bool" and step :: "'s \<Rightarrow> 's \<Rightarrow> bool" and inv :: "'s \<Rightarrow> bool" +
  fixes low :: "'l \<Rightarrow> 'l \<Rightarrow> bool"
    and view :: "'s \<Rightarrow> 'l"
  assumes step_below: "inv s \<Longrightarrow> step s t \<Longrightarrow> low\<^sup>*\<^sup>* (view s) (view t)"
begin

lemma steps_below: "step\<^sup>*\<^sup>* s t \<Longrightarrow> inv s \<Longrightarrow> low\<^sup>*\<^sup>* (view s) (view t)"
proof (induction rule: rtranclp_induct)
  case (step u v)
  from step.IH [OF step.prems] step_below [OF inv_steps [OF step.hyps(1) step.prems] step.hyps(2)]
  show ?case by simp
qed simp

lemma reachable_below: "init s \<Longrightarrow> step\<^sup>*\<^sup>* s t \<Longrightarrow> low\<^sup>*\<^sup>* (view s) (view t)"
  by (blast intro: steps_below inv_init)

end

section \<open>Resources taken and given back\<close>

text \<open>
  The contract of a counted resource: an attempt to take a unit either fails and changes nothing or
  adds one unit to what is held; giving back removes one. The clients take a unit, run a body that
  leaves the holdings as they were, and give the unit back.
\<close>

locale counted_resource =
  fixes take_unit :: "'w \<Rightarrow> 'w \<times> bool"
    and give_back :: "'w \<Rightarrow> 'w"
    and held :: "'w \<Rightarrow> int"
    and ok :: "'w \<Rightarrow> bool"
  assumes take_refused: "take_unit w = (w', False) \<Longrightarrow> w' = w"
    and take_held: "ok w \<Longrightarrow> take_unit w = (w', True) \<Longrightarrow> ok w' \<and> held w' = held w + 1"
    and give_held: "ok w \<Longrightarrow> 0 < held w \<Longrightarrow> ok (give_back w) \<and> held (give_back w) = held w - 1"
    and held_nonneg: "ok w \<Longrightarrow> 0 \<le> held w"
begin

lemma bracket:
  assumes "ok w" and "take_unit w = (w1, True)" and "ok w2" and "held w2 = held w1 + d" and "0 \<le> d"
  shows "ok (give_back w2) \<and> held (give_back w2) = held w + d"
proof -
  have "held w1 = held w + 1" using take_held [OF assms(1,2)] by simp
  moreover have "0 < held w2" using calculation held_nonneg [OF assms(1)] assms(4,5) by linarith
  ultimately show ?thesis using give_held [OF assms(3)] assms(4) by simp
qed

end

end
