(* ===== verification/Go_Errors.thy ===== *)
theory Go_Errors
  imports Prelude
begin

text \<open>
  Go error values as the repository builds and inspects them: the sentinels of
  internal/state/state.go, adapt.go and the context package, \<open>errors.Join\<close>, \<open>fmt.Errorf\<close> with
  and without a wrapped operand, \<open>RecoveredError\<close> (internal/safe/safe.go) and
  \<open>MaxAttemptsError\<close> (retry/error.go), with \<open>errors.Is\<close> and the \<open>Error\<close> and \<open>Unwrap\<close> methods.
  A nil error is \<open>None\<close>. Pointer identity of a sentinel is equality of its constructor;
  an error made elsewhere is \<open>OpaqueError\<close> with an identity and a message.
\<close>

record rt_frame =
  fr_function :: string
  fr_file :: string
  fr_line :: nat

datatype goerr =
    ErrStopped
  | ErrGracePeriodExpired
  | ErrNoStopper
  | CtxCanceled
  | CtxDeadlineExceeded
  | OpaqueError nat string
  | FmtError string
  | WrapError string goerr
  | JoinError "goerr list"
  | RecoveredError "goerr option" "rt_frame list"
  | MaxAttemptsError "goerr option"

section \<open>Unwrap and errors.Is\<close>

fun unwrap :: "goerr \<Rightarrow> goerr list" where
  "unwrap (WrapError _ e) = [e]"
| "unwrap (JoinError es) = es"
| "unwrap (RecoveredError e _) = (case e of None \<Rightarrow> [] | Some x \<Rightarrow> [x])"
| "unwrap (MaxAttemptsError e) = (case e of None \<Rightarrow> [] | Some x \<Rightarrow> [x])"
| "unwrap _ = []"

lemma unwrap_size: "x \<in> set (unwrap e) \<Longrightarrow> size x < size e"
  by (cases e) (auto split: option.splits dest: size_list_estimation'[where f = size, OF _ order_refl])

function errors_is :: "goerr \<Rightarrow> goerr \<Rightarrow> bool" where
  "errors_is e t = (e = t \<or> list_ex (\<lambda>x. errors_is x t) (unwrap e))"
  by pat_completeness auto
termination
  by (relation "measure (\<lambda>(e, t). size e)") (auto simp: unwrap_size)

declare errors_is.simps [simp del]

text \<open>\<open>errors.Is\<close> on a possibly nil error, against a non-nil target.\<close>

definition errors_is_opt :: "goerr option \<Rightarrow> goerr \<Rightarrow> bool" where
  "errors_is_opt e t = (case e of None \<Rightarrow> False | Some x \<Rightarrow> errors_is x t)"

lemma errors_is_refl [simp]: "errors_is e e"
  by (subst errors_is.simps) simp

lemma errors_is_trans_unwrap: "x \<in> set (unwrap e) \<Longrightarrow> errors_is x t \<Longrightarrow> errors_is e t"
  by (subst errors_is.simps) (auto simp: list_ex_iff)

lemma errors_is_Join:
  "errors_is (JoinError es) t \<longleftrightarrow> JoinError es = t \<or> (\<exists>e\<in>set es. errors_is e t)"
  by (subst errors_is.simps) (auto simp: list_ex_iff)

lemma errors_is_Wrap: "errors_is (WrapError p e) t \<longleftrightarrow> WrapError p e = t \<or> errors_is e t"
  by (subst errors_is.simps) auto

lemma errors_is_Recovered:
  "errors_is (RecoveredError e s) t \<longleftrightarrow> RecoveredError e s = t \<or> errors_is_opt e t"
  by (subst errors_is.simps) (auto simp: errors_is_opt_def split: option.splits)

lemma errors_is_Max:
  "errors_is (MaxAttemptsError e) t \<longleftrightarrow> MaxAttemptsError e = t \<or> errors_is_opt e t"
  by (subst errors_is.simps) (auto simp: errors_is_opt_def split: option.splits)

lemma errors_is_leaf: "unwrap e = [] \<Longrightarrow> errors_is e t \<longleftrightarrow> e = t"
  by (subst errors_is.simps) simp

lemmas errors_is_simps =
  errors_is_Join errors_is_Wrap errors_is_Recovered errors_is_Max errors_is_leaf errors_is_opt_def

section \<open>errors.Join\<close>

definition errors_join :: "goerr option list \<Rightarrow> goerr option" where
  "errors_join es = (let xs = non_nil es in if xs = [] then None else Some (JoinError xs))"

lemma errors_join_None_iff: "errors_join es = None \<longleftrightarrow> (\<forall>e\<in>set es. e = None)"
  by (auto simp: errors_join_def Let_def non_nil_empty_iff)

lemma errors_is_join:
  assumes "\<And>es. t \<noteq> JoinError es"
  shows "errors_is_opt (errors_join es) t \<longleftrightarrow> (\<exists>e\<in>set es. errors_is_opt e t)"
proof -
  have "errors_is_opt (errors_join es) t \<longleftrightarrow> (\<exists>x\<in>set (non_nil es). errors_is x t)"
    using assms by (auto simp: errors_join_def Let_def errors_is_opt_def errors_is_Join)
  also have "\<dots> \<longleftrightarrow> (\<exists>e\<in>set es. errors_is_opt e t)"
    unfolding Bex_def set_non_nil errors_is_opt_def by (auto split: option.splits)
  finally show ?thesis .
qed

section \<open>The Error method\<close>

fun join_lines :: "string list \<Rightarrow> string" where
  "join_lines [] = []"
| "join_lines [x] = x"
| "join_lines (x # y # xs) = x @ [CHR 0x0A] @ join_lines (y # xs)"

text \<open>
  The loop over \<open>runtime.CallersFrames\<close> in \<open>RecoveredError.Error\<close> calls \<open>Next\<close> before it looks
  at \<open>more\<close>, so an empty stack prints one zero frame.
\<close>

definition frame_line :: "rt_frame \<Rightarrow> string" where
  "frame_line f =
     fr_function f @ '' ( '' @ fr_file f @ '':'' @ nat_str (fr_line f) @ '' )'' @ [CHR 0x0A]"

fun frames_string :: "rt_frame list \<Rightarrow> string" where
  "frames_string [] = frame_line \<lparr>fr_function = '''', fr_file = '''', fr_line = 0\<rparr>"
| "frames_string [f] = frame_line f"
| "frames_string (f # g # fs) = frame_line f @ frames_string (g # fs)"

definition max_attempts_text :: "string \<Rightarrow> string" where
  "max_attempts_text err = ''max attempts reached: '' @ err"

fun error_string :: "goerr \<Rightarrow> string" where
  "error_string ErrStopped = ''stopped''"
| "error_string ErrGracePeriodExpired = ''grace period expired''"
| "error_string ErrNoStopper = ''context is not a stopper''"
| "error_string CtxCanceled = ''context canceled''"
| "error_string CtxDeadlineExceeded = ''context deadline exceeded''"
| "error_string (OpaqueError _ m) = m"
| "error_string (FmtError m) = m"
| "error_string (WrapError p e) = p @ '': '' @ error_string e"
| "error_string (JoinError es) = join_lines (map error_string es)"
| "error_string (RecoveredError e st) =
     ''recovered: '' @ (case e of None \<Rightarrow> ''<nil>'' | Some x \<Rightarrow> error_string x) @ [CHR 0x0A]
       @ frames_string st"
| "error_string (MaxAttemptsError e) =
     max_attempts_text (case e of None \<Rightarrow> ''<nil>'' | Some x \<Rightarrow> error_string x)"

end
