(* ===== verification/Safe.thy ===== *)
theory Safe
  imports Go_Errors
begin

text \<open>
  internal/safe/safe.go: running user code with a panic handler. User code is a state transformer
  that ends by returning a value or by panicking; the state is whatever the caller threads through.
  A nil panic does not occur: the module's language version makes \<open>panic(nil)\<close> a runtime error
  value. \<open>pcs\<close> is the call stack \<open>runtime.Callers\<close> sees at the panic.
\<close>

datatype panic_value = PanicError goerr | PanicOther string

datatype 'a outcome = Return 'a | Panic panic_value

definition capture_depth :: nat where
  "capture_depth = 32"

text \<open>The value of a recovered panic as an error.\<close>

fun panic_error :: "panic_value \<Rightarrow> goerr" where
  "panic_error (PanicError e) = e"
| "panic_error (PanicOther r) = FmtError (''panic: '' @ r)"

text \<open>
  \<open>Call\<close>: the named result \<open>err\<close> is the panic's error, unjoined.
\<close>

definition safe_call ::
  "rt_frame list \<Rightarrow> ('s \<Rightarrow> 's \<times> unit outcome) \<Rightarrow> 's \<Rightarrow> 's \<times> goerr option" where
  "safe_call pcs fn s =
     (case fn s of
        (s', Return _) \<Rightarrow> (s', None)
      | (s', Panic r) \<Rightarrow>
          (s', Some (RecoveredError (Some (panic_error r)) (take capture_depth pcs))))"

text \<open>
  The deferred closure of \<open>CallE\<close> and \<open>CallRE\<close> joins the panic's error to the named result, which
  is still nil when \<open>fn\<close> panics: the assignment \<open>err = fn()\<close> has not happened.
\<close>

definition recover_e :: "rt_frame list \<Rightarrow> goerr option \<Rightarrow> panic_value \<Rightarrow> goerr" where
  "recover_e pcs err r =
     RecoveredError (errors_join [err, Some (panic_error r)]) (take capture_depth pcs)"

definition call_e ::
  "rt_frame list \<Rightarrow> ('s \<Rightarrow> 's \<times> goerr option outcome) \<Rightarrow> 's \<Rightarrow> 's \<times> goerr option" where
  "call_e pcs fn s =
     (case fn s of
        (s', Return err) \<Rightarrow> (s', err)
      | (s', Panic r) \<Rightarrow> (s', Some (recover_e pcs None r)))"

definition call_re ::
  "rt_frame list \<Rightarrow> 'r \<Rightarrow> ('s \<Rightarrow> 's \<times> ('r \<times> goerr option) outcome) \<Rightarrow> 's
     \<Rightarrow> 's \<times> 'r \<times> goerr option" where
  "call_re pcs zero fn s =
     (case fn s of
        (s', Return (ret, err)) \<Rightarrow> (s', ret, err)
      | (s', Panic r) \<Rightarrow> (s', zero, Some (recover_e pcs None r)))"

section \<open>What the panic handlers promise\<close>

lemma panic_error_is:
  "errors_is (recover_e pcs err r) (panic_error r)"
  by (cases err)
    (simp_all add: recover_e_def errors_join_def errors_is_Recovered errors_is_Join errors_is_opt_def)

lemma call_e_return: "fn s = (s', Return err) \<Longrightarrow> call_e pcs fn s = (s', err)"
  by (simp add: call_e_def)

lemma call_e_panic: "fn s = (s', Panic r) \<Longrightarrow> call_e pcs fn s = (s', Some (recover_e pcs None r))"
  by (simp add: call_e_def)

text \<open>
  \<open>CallE\<close> always runs the function exactly once, keeps its effects, hands a returned error
  through unchanged, and turns a panic into a \<open>RecoveredError\<close> that \<open>errors.Is\<close> recognises as the
  panic's error and whose stack is at most \<open>captureDepth\<close> deep.
\<close>

theorem call_e_spec:
  "fst (call_e pcs fn s) = fst (fn s)
   \<and> (\<forall>e. snd (fn s) = Return e \<longrightarrow> snd (call_e pcs fn s) = e)
   \<and> (\<forall>r. snd (fn s) = Panic r \<longrightarrow>
        (\<exists>e st. snd (call_e pcs fn s) = Some (RecoveredError e st) \<and> length st \<le> 32
           \<and> errors_is (RecoveredError e st) (panic_error r)))"
proof (cases "fn s")
  case (Pair s' out)
  have "errors_is (recover_e pcs None r) (panic_error r)" for r
    by (rule panic_error_is)
  with Pair show ?thesis
    by (cases out) (auto simp: call_e_def recover_e_def capture_depth_def)
qed

theorem call_e_spec_witness:
  "\<exists>e st. snd (call_e [] (\<lambda>n::nat. (Suc n, Panic (PanicOther ''boom''))) 0) = Some (RecoveredError e st)
     \<and> length st \<le> 32 \<and> errors_is (RecoveredError e st) (FmtError ''panic: boom'')"
  using call_e_spec [of "[]" "\<lambda>n::nat. (Suc n, Panic (PanicOther ''boom''))" 0] by simp

end
