(* ===== verification/State.thy ===== *)
theory State
  imports Safe "HOL-Library.AList"
begin

text \<open>
  internal/state/state.go: the state of one stopper and its critical sections. A state lives at an
  address (\<open>sid\<close>, the Go pointer); closures that the state stores are defunctionalised:
  the cancel function is the \<open>cleanup\<close> closure of \<open>newContext\<close> (stopper.go), a stop hook is its
  \<open>func() { s.Stop() }\<close> with the grace period of the child's configuration, which never changes
  after construction, and a deferred callback is a user function named by a \<open>fid\<close>.
  Each \<open>_locked\<close> definition is the code between \<open>Lock\<close> and \<open>Unlock\<close>; it returns the new state and
  the callbacks to run outside the mutex. Durations and instants are nanoseconds (\<open>int\<close>);
  \<open>now\<close> is what \<open>time.Now\<close> returns. A Go panic inside a critical section is a \<open>crash\<close>.
\<close>

type_synonym sid = nat
type_synonym fid = nat

datatype cancelfn = Cleanup sid
datatype hook = StopImpl sid int

datatype callback =
    CbUser fid
  | CbCancel cancelfn goerr
  | CbHooks "(sid \<times> hook) list"
  | CbParentApply sid int

datatype crash = OverReleased | CloseOfClosedChannel

text \<open>A runtime timer made by \<open>time.AfterFunc\<close>; it is active until it fires or is stopped.\<close>

record rt_timer =
  tm_deadline :: int
  tm_active :: bool

record 'cfg gostate =
  st_config :: 'cfg
  st_parent :: "sid option"
  stopping_closed :: bool
  mu_cancel :: "cancelfn option"
  mu_count :: int
  mu_deferred :: "fid list"
  mu_errs :: "goerr list"
  mu_graceTimer :: "nat option"
  mu_stopAt :: "int option"
  mu_stopHooks :: "(sid \<times> hook) list option"
  mu_stopOnIdle :: "int option"
  mu_stopping :: bool
  rt_timers :: "rt_timer list"

definition new_state :: "cancelfn \<Rightarrow> 'cfg \<Rightarrow> sid option \<Rightarrow> 'cfg gostate" where
  "new_state cancel cfg par =
     \<lparr>st_config = cfg, st_parent = par, stopping_closed = False, mu_cancel = Some cancel,
      mu_count = 0, mu_deferred = [], mu_errs = [], mu_graceTimer = None, mu_stopAt = None,
      mu_stopHooks = None, mu_stopOnIdle = None, mu_stopping = False, rt_timers = []\<rparr>"

section \<open>Accessors\<close>

definition errors_of :: "'cfg gostate \<Rightarrow> goerr list" where
  "errors_of s = mu_errs s"

definition is_stopping :: "'cfg gostate \<Rightarrow> bool" where
  "is_stopping s = mu_stopping s"

definition is_stop_on_idle :: "'cfg gostate \<Rightarrow> bool" where
  "is_stop_on_idle s = (mu_stopOnIdle s \<noteq> None)"

definition len_of :: "'cfg gostate \<Rightarrow> int" where
  "len_of s = mu_count s"

definition parent_of :: "'cfg gostate \<Rightarrow> sid option" where
  "parent_of s = st_parent s"

definition config_of :: "'cfg gostate \<Rightarrow> 'cfg" where
  "config_of s = st_config s"

section \<open>Timers\<close>

text \<open>\<open>timer.Stop()\<close> and \<open>time.AfterFunc(d, \<dots>)\<close>; a stopped or fired timer stays inactive.\<close>

definition timer_stop :: "nat \<Rightarrow> rt_timer list \<Rightarrow> rt_timer list" where
  "timer_stop i ts = (if i < length ts then ts[i := (ts ! i)\<lparr>tm_active := False\<rparr>] else ts)"

definition after_func :: "int \<Rightarrow> rt_timer list \<Rightarrow> nat \<times> rt_timer list" where
  "after_func deadline ts = (length ts, ts @ [\<lparr>tm_deadline = deadline, tm_active = True\<rparr>])"

section \<open>Critical sections\<close>

definition add_deferred :: "fid \<Rightarrow> 'cfg gostate \<Rightarrow> bool \<times> 'cfg gostate" where
  "add_deferred fn s =
     (if mu_stopping s \<and> mu_count s = 0 then (False, s)
      else (True, s\<lparr>mu_deferred := mu_deferred s @ [fn]\<rparr>))"

definition add_errors :: "goerr option list \<Rightarrow> 'cfg gostate \<Rightarrow> 'cfg gostate" where
  "add_errors es s =
     (if es = [] \<or> (length es = 1 \<and> es ! 0 = None) then s
      else if \<not> list_ex (\<lambda>e. e \<noteq> None) es then s
      else s\<lparr>mu_errs := mu_errs s @ non_nil es\<rparr>)"

definition hard_stop_locked ::
  "goerr \<Rightarrow> 'cfg gostate \<Rightarrow> 'cfg gostate \<times> callback list" where
  "hard_stop_locked err s =
     (case mu_cancel s of
        None \<Rightarrow> (s, [])
      | Some cancelFn \<Rightarrow>
          let s1 = s\<lparr>mu_cancel := None\<rparr>;
              s2 = (case mu_graceTimer s1 of
                      None \<Rightarrow> s1
                    | Some t \<Rightarrow> s1\<lparr>rt_timers := timer_stop t (rt_timers s1),
                                    mu_graceTimer := None, mu_stopAt := None\<rparr>)
          in (s2\<lparr>mu_deferred := []\<rparr>, CbCancel cancelFn err # map CbUser (mu_deferred s2)))"

definition update_grace_timer_locked :: "int \<Rightarrow> int \<Rightarrow> 'cfg gostate \<Rightarrow> 'cfg gostate" where
  "update_grace_timer_locked now gracePeriod s =
     (let newStopAt = now + gracePeriod in
      if (case mu_stopAt s of None \<Rightarrow> False | Some a \<Rightarrow> a \<le> newStopAt) then s
      else
        let s1 = (case mu_graceTimer s of
                    None \<Rightarrow> s
                  | Some t \<Rightarrow> s\<lparr>rt_timers := timer_stop t (rt_timers s)\<rparr>);
            (t, ts) = after_func (now + gracePeriod) (rt_timers s1)
        in s1\<lparr>mu_stopAt := Some newStopAt, mu_graceTimer := Some t, rt_timers := ts\<rparr>)"

text \<open>\<open>close(s.stopping)\<close> panics on a closed channel.\<close>

definition close_stopping :: "'cfg gostate \<Rightarrow> crash + 'cfg gostate" where
  "close_stopping s =
     (if stopping_closed s then Inl CloseOfClosedChannel else Inr (s\<lparr>stopping_closed := True\<rparr>))"

definition soft_stop_locked ::
  "int \<Rightarrow> int \<Rightarrow> 'cfg gostate \<Rightarrow> crash + ('cfg gostate \<times> callback list)" where
  "soft_stop_locked now gracePeriod s =
     (case (if mu_stopping s then Inr s else close_stopping (s\<lparr>mu_stopping := True\<rparr>)) of
        Inl c \<Rightarrow> Inl c
      | Inr s1 \<Rightarrow>
          let (s2, d1) =
                (case mu_stopHooks s1 of
                   Some (h # hs) \<Rightarrow> (s1\<lparr>mu_stopHooks := None\<rparr>, [CbHooks (h # hs)])
                 | _ \<Rightarrow> (s1, []))
          in if mu_count s2 = 0 then
               (let (s3, d2) = hard_stop_locked ErrStopped s2 in Inr (s3, d1 @ d2))
             else if gracePeriod \<le> 0 then
               (let (s3, d2) = hard_stop_locked ErrGracePeriodExpired s2 in Inr (s3, d1 @ d2))
             else Inr (update_grace_timer_locked now gracePeriod s2, d1))"

text \<open>The critical section of \<open>Apply\<close>, from \<open>s.mu.Lock()\<close> on.\<close>

definition apply_locked ::
  "int \<Rightarrow> int \<Rightarrow> 'cfg gostate \<Rightarrow> crash + ('cfg gostate \<times> callback list \<times> bool)" where
  "apply_locked now delta s =
     (if mu_stopping s \<and> 0 < delta then
        Inr (s, (case st_parent s of None \<Rightarrow> [] | Some p \<Rightarrow> [CbParentApply p (- delta)]), False)
      else
        let s1 = s\<lparr>mu_count := mu_count s + delta\<rparr> in
        if mu_count s1 < 0 then Inl OverReleased
        else if mu_count s1 = 0 then
          (case mu_stopOnIdle s1 of
             Some g \<Rightarrow>
               (case soft_stop_locked now g s1 of
                  Inl c \<Rightarrow> Inl c
                | Inr (s2, d) \<Rightarrow> Inr (s2, d, True))
           | None \<Rightarrow>
               if mu_stopping s1 then
                 (let (s2, d) = hard_stop_locked ErrStopped s1 in Inr (s2, d, True))
               else Inr (s1, [], True))
        else Inr (s1, [], True))"

definition stop_locked ::
  "int \<Rightarrow> int \<Rightarrow> 'cfg gostate \<Rightarrow> crash + ('cfg gostate \<times> callback list)" where
  "stop_locked now gracePeriod s = soft_stop_locked now gracePeriod s"

definition stop_on_idle_locked ::
  "int \<Rightarrow> int \<Rightarrow> 'cfg gostate \<Rightarrow> crash + ('cfg gostate \<times> callback list)" where
  "stop_on_idle_locked now gracePeriod s =
     (let s1 = s\<lparr>mu_stopOnIdle := Some gracePeriod\<rparr> in
      if mu_count s1 = 0 then soft_stop_locked now gracePeriod s1 else Inr (s1, []))"

text \<open>
  \<open>AddStopHook\<close>: \<open>True\<close> when the hook is registered, \<open>False\<close> when the caller must run it at once.
  The closure it returns removes the hook, unless the stopping channel is already closed.
\<close>

definition add_stop_hook_locked :: "sid \<Rightarrow> hook \<Rightarrow> 'cfg gostate \<Rightarrow> bool \<times> 'cfg gostate" where
  "add_stop_hook_locked child fn s =
     (if mu_stopping s then (False, s)
      else
        let hooks = (case mu_stopHooks s of None \<Rightarrow> [] | Some h \<Rightarrow> h)
        in (True, s\<lparr>mu_stopHooks := Some (AList.update child fn hooks)\<rparr>))"

definition unhook_disarmed :: "'cfg gostate \<Rightarrow> bool" where
  "unhook_disarmed s = stopping_closed s"

definition unhook_locked :: "sid \<Rightarrow> 'cfg gostate \<Rightarrow> 'cfg gostate" where
  "unhook_locked child s =
     (case mu_stopHooks s of
        None \<Rightarrow> s
      | Some hooks \<Rightarrow> s\<lparr>mu_stopHooks := Some (AList.delete child hooks)\<rparr>)"

text \<open>The body of the grace timer's goroutine.\<close>

definition grace_timer_locked :: "'cfg gostate \<Rightarrow> 'cfg gostate \<times> callback list" where
  "grace_timer_locked s = hard_stop_locked ErrGracePeriodExpired s"

end
