(* ===== verification/State_Inv.thy ===== *)
theory State_Inv
  imports State
begin

text \<open>
  The well-formedness invariant of one state and its preservation by every critical section, the
  behaviour of each critical section on its branches, and runs of critical sections on one state:
  what any interleaving of callers can do to it between lock acquisitions.
\<close>

section \<open>Well-formed states\<close>

definition wf_timers :: "'cfg gostate \<Rightarrow> bool" where
  "wf_timers s \<longleftrightarrow> (rt_timers s \<noteq> [] \<longrightarrow> mu_stopping s) \<and>
     (case mu_graceTimer s of
        None \<Rightarrow> mu_stopAt s = None \<and> (\<forall>i<length (rt_timers s). \<not> tm_active (rt_timers s ! i))
      | Some t \<Rightarrow> t < length (rt_timers s)
          \<and> mu_stopAt s = Some (tm_deadline (rt_timers s ! t)) \<and> mu_stopping s
          \<and> (\<forall>i<length (rt_timers s). tm_active (rt_timers s ! i) \<longrightarrow> i = t))"

definition wf_core :: "'cfg gostate \<Rightarrow> bool" where
  "wf_core s \<longleftrightarrow>
     (stopping_closed s \<longleftrightarrow> mu_stopping s)
     \<and> 0 \<le> mu_count s
     \<and> (mu_stopping s \<longrightarrow> mu_stopHooks s = None \<or> mu_stopHooks s = Some [])
     \<and> (mu_cancel s = None \<longrightarrow> mu_stopping s)
     \<and> (case mu_stopHooks s of None \<Rightarrow> True | Some h \<Rightarrow> distinct (map fst h))
     \<and> wf_timers s"

definition wf_state :: "'cfg gostate \<Rightarrow> bool" where
  "wf_state s \<longleftrightarrow> wf_core s
     \<and> (mu_stopping s \<and> mu_count s = 0 \<longrightarrow> mu_cancel s = None)
     \<and> (mu_stopping s \<and> 0 < mu_count s \<and> mu_cancel s \<noteq> None \<longrightarrow> mu_graceTimer s \<noteq> None)
     \<and> (mu_stopOnIdle s \<noteq> None \<and> mu_count s = 0 \<longrightarrow> mu_stopping s)"

lemma wf_new_state [wf_intros]: "wf_state (new_state c cfg p)"
  by (simp add: wf_state_def wf_core_def wf_timers_def new_state_def)

lemma new_state_fields [simp]:
  "st_parent (new_state c cfg p) = p" "mu_count (new_state c cfg p) = 0"
  "mu_cancel (new_state c cfg p) = Some c" "mu_deferred (new_state c cfg p) = []"
  "mu_stopHooks (new_state c cfg p) = None" "mu_stopping (new_state c cfg p) = False"
  "rt_timers (new_state c cfg p) = []" "mu_errs (new_state c cfg p) = []"
  by (simp_all add: new_state_def)

lemma wf_state_core: "wf_state s \<Longrightarrow> wf_core s"
  by (simp add: wf_state_def)

section \<open>Timers\<close>

lemma wf_timers_stop:
  "wf_timers s \<Longrightarrow> mu_graceTimer s = Some t \<Longrightarrow>
     wf_timers (s\<lparr>rt_timers := timer_stop t (rt_timers s), mu_graceTimer := None, mu_stopAt := None\<rparr>)"
  by (auto simp: wf_timers_def timer_stop_def nth_list_update)

lemma update_grace_timer_fields [simp]:
  "mu_stopping (update_grace_timer_locked now g s) = mu_stopping s"
  "stopping_closed (update_grace_timer_locked now g s) = stopping_closed s"
  "mu_count (update_grace_timer_locked now g s) = mu_count s"
  "mu_cancel (update_grace_timer_locked now g s) = mu_cancel s"
  "mu_deferred (update_grace_timer_locked now g s) = mu_deferred s"
  "mu_stopHooks (update_grace_timer_locked now g s) = mu_stopHooks s"
  "mu_stopOnIdle (update_grace_timer_locked now g s) = mu_stopOnIdle s"
  "st_parent (update_grace_timer_locked now g s) = st_parent s"
  "mu_errs (update_grace_timer_locked now g s) = mu_errs s"
  "st_config (update_grace_timer_locked now g s) = st_config s"
  by (auto simp: update_grace_timer_locked_def Let_def after_func_def split: option.splits)

lemma update_grace_timer_armed:
  "wf_timers s \<Longrightarrow> mu_graceTimer (update_grace_timer_locked now g s) \<noteq> None"
  by (auto simp: update_grace_timer_locked_def wf_timers_def Let_def after_func_def
      split: option.splits)

lemma update_grace_timer_wf:
  assumes "wf_timers s" and "mu_stopping s"
  shows "wf_timers (update_grace_timer_locked now g s)"
proof (cases "mu_graceTimer s")
  case None
  with assms show ?thesis
    by (auto simp: update_grace_timer_locked_def wf_timers_def Let_def after_func_def nth_append
        less_Suc_eq)
next
  case (Some t)
  with assms show ?thesis
    by (auto simp: update_grace_timer_locked_def wf_timers_def Let_def after_func_def timer_stop_def
        nth_append nth_list_update less_Suc_eq split: if_splits)
qed

lemma update_grace_timer_stopAt:
  "mu_stopAt (update_grace_timer_locked now g s) =
     Some (case mu_stopAt s of None \<Rightarrow> now + g | Some a \<Rightarrow> min a (now + g))"
  by (auto simp: update_grace_timer_locked_def Let_def after_func_def split: option.splits)

section \<open>Hard stop\<close>

lemma hard_stop_fields:
  assumes "hard_stop_locked e s = (s', cbs)"
  shows "mu_stopping s' = mu_stopping s" "stopping_closed s' = stopping_closed s"
    "mu_count s' = mu_count s" "mu_cancel s' = None" "mu_stopHooks s' = mu_stopHooks s"
    "mu_stopOnIdle s' = mu_stopOnIdle s" "st_parent s' = st_parent s" "mu_errs s' = mu_errs s"
    "st_config s' = st_config s"
    "mu_deferred s' = (if mu_cancel s = None then mu_deferred s else [])"
    "cbs = (case mu_cancel s of None \<Rightarrow> [] | Some c \<Rightarrow> CbCancel c e # map CbUser (mu_deferred s))"
  using assms by (auto simp: hard_stop_locked_def Let_def split: option.splits)

lemma hard_stop_wf_timers:
  assumes "hard_stop_locked e s = (s', cbs)" and "wf_timers s"
  shows "wf_timers s'"
proof (cases "mu_cancel s")
  case None
  with assms show ?thesis by (simp add: hard_stop_locked_def)
next
  case (Some c)
  show ?thesis
  proof (cases "mu_graceTimer s")
    case None
    with assms Some show ?thesis by (auto simp: hard_stop_locked_def Let_def wf_timers_def)
  next
    case (Some t)
    from wf_timers_stop [OF assms(2) this] assms Some \<open>mu_cancel s = _\<close> show ?thesis
      by (auto simp: hard_stop_locked_def Let_def wf_timers_def)
  qed
qed

lemma hard_stop_wf_core:
  assumes "hard_stop_locked e s = (s', cbs)" and "wf_core s" and "mu_stopping s"
  shows "wf_core s'"
  using assms hard_stop_fields [OF assms(1)] hard_stop_wf_timers [OF assms(1)]
  by (auto simp: wf_core_def)

text \<open>The one-shot: a second hard stop does nothing.\<close>

lemma hard_stop_again:
  "hard_stop_locked e s = (s', cbs) \<Longrightarrow> hard_stop_locked e' s' = (s', [])"
  by (auto dest: hard_stop_fields(4) simp: hard_stop_locked_def [of e'])

section \<open>Soft stop\<close>

text \<open>The part of \<open>softStopLocked\<close> before the hard stop: flag, channel and hooks.\<close>

definition soft_prepared :: "'cfg gostate \<Rightarrow> 'cfg gostate" where
  "soft_prepared s =
     s\<lparr>mu_stopping := True, stopping_closed := True,
       mu_stopHooks := (case mu_stopHooks s of Some (h # hs) \<Rightarrow> None | x \<Rightarrow> x)\<rparr>"

definition soft_hooks :: "'cfg gostate \<Rightarrow> callback list" where
  "soft_hooks s = (case mu_stopHooks s of Some (h # hs) \<Rightarrow> [CbHooks (h # hs)] | _ \<Rightarrow> [])"

lemma soft_stop_eq:
  assumes "stopping_closed s = mu_stopping s"
  shows "soft_stop_locked now g s =
    (let s2 = soft_prepared s in
     if mu_count s = 0 then
       (let (s3, d) = hard_stop_locked ErrStopped s2 in Inr (s3, soft_hooks s @ d))
     else if g \<le> 0 then
       (let (s3, d) = hard_stop_locked ErrGracePeriodExpired s2 in Inr (s3, soft_hooks s @ d))
     else Inr (update_grace_timer_locked now g s2, soft_hooks s))"
proof -
  define s1 where "s1 = s\<lparr>mu_stopping := True, stopping_closed := True\<rparr>"
  have same: "mu_stopping s \<Longrightarrow> s1 = s"
    using assms by (cases s) (simp add: s1_def)
  have first: "(if mu_stopping s then Inr s else close_stopping (s\<lparr>mu_stopping := True\<rparr>)) = Inr s1"
    using assms same by (auto simp: close_stopping_def s1_def)
  have second: "(case mu_stopHooks s1 of
       Some (h # hs) \<Rightarrow> (s1\<lparr>mu_stopHooks := None\<rparr>, [CbHooks (h # hs)])
     | _ \<Rightarrow> (s1, [])) = (soft_prepared s, soft_hooks s)"
    by (cases s) (auto simp: s1_def soft_prepared_def soft_hooks_def split: option.splits list.splits)
  show ?thesis
    unfolding soft_stop_locked_def first sum.case Let_def second prod.case
    by (simp add: soft_prepared_def)
qed

lemma soft_prepared_fields [simp]:
  "mu_stopping (soft_prepared s)" "stopping_closed (soft_prepared s)"
  "mu_count (soft_prepared s) = mu_count s" "mu_cancel (soft_prepared s) = mu_cancel s"
  "mu_deferred (soft_prepared s) = mu_deferred s"
  "mu_stopOnIdle (soft_prepared s) = mu_stopOnIdle s" "st_parent (soft_prepared s) = st_parent s"
  "mu_errs (soft_prepared s) = mu_errs s" "st_config (soft_prepared s) = st_config s"
  "mu_stopAt (soft_prepared s) = mu_stopAt s" "mu_graceTimer (soft_prepared s) = mu_graceTimer s"
  by (simp_all add: soft_prepared_def)

lemma soft_prepared_wf:
  "wf_core s \<Longrightarrow> wf_core (soft_prepared s)"
  by (auto simp: wf_core_def wf_timers_def soft_prepared_def split: option.splits list.splits)

lemma soft_stop_cases:
  assumes "wf_core s"
  obtains (hard) e s' d where "soft_stop_locked now g s = Inr (s', soft_hooks s @ d)"
      "hard_stop_locked e (soft_prepared s) = (s', d)" "mu_count s = 0 \<or> g \<le> 0"
      "e = (if mu_count s = 0 then ErrStopped else ErrGracePeriodExpired)"
  | (timer) "soft_stop_locked now g s
               = Inr (update_grace_timer_locked now g (soft_prepared s), soft_hooks s)"
      "0 < mu_count s" "0 < g"
proof -
  have c: "stopping_closed s = mu_stopping s" "0 \<le> mu_count s"
    using assms by (auto simp: wf_core_def)
  show thesis
  proof (cases "mu_count s = 0")
    case True
    obtain s' d where "hard_stop_locked ErrStopped (soft_prepared s) = (s', d)" by fastforce
    with True soft_stop_eq [OF c(1)] show ?thesis by (intro hard) auto
  next
    case False
    show ?thesis
    proof (cases "g \<le> 0")
      case True
      obtain s' d where "hard_stop_locked ErrGracePeriodExpired (soft_prepared s) = (s', d)"
        by fastforce
      with True False soft_stop_eq [OF c(1)] show ?thesis by (intro hard) auto
    next
      case gpos: False
      with False c soft_stop_eq [OF c(1)] show ?thesis by (intro timer) auto
    qed
  qed
qed

lemma soft_stop_no_crash: "wf_core s \<Longrightarrow> \<exists>s' cbs. soft_stop_locked now g s = Inr (s', cbs)"
  by (rule soft_stop_cases [of s now g]) auto

lemma soft_stop_wf:
  assumes "wf_core s" and "soft_stop_locked now g s = Inr (s', cbs)"
  shows "wf_state s'"
  using assms(1)
proof (cases rule: soft_stop_cases [of _ now g])
  case (hard e t d)
  then have "s' = t" using assms(2) by simp
  with hard(2) soft_prepared_wf [OF assms(1)] show ?thesis
    using hard_stop_wf_core [OF hard(2)] hard_stop_fields [OF hard(2)] hard(3)
    by (auto simp: wf_state_def)
next
  case timer
  then have s': "s' = update_grace_timer_locked now g (soft_prepared s)" using assms(2) by simp
  have "wf_timers (soft_prepared s)" using soft_prepared_wf [OF assms(1)] by (simp add: wf_core_def)
  then have "wf_timers s'" and "mu_graceTimer s' \<noteq> None"
    unfolding s' by (simp_all only: update_grace_timer_wf update_grace_timer_armed
        soft_prepared_fields not_False_eq_True)
  with soft_prepared_wf [OF assms(1)] timer
  show ?thesis unfolding s' by (simp add: wf_state_def wf_core_def)
qed

lemma soft_stop_fields:
  assumes "wf_core s" and "soft_stop_locked now g s = Inr (s', cbs)"
  shows "mu_stopping s'" "stopping_closed s'" "mu_count s' = mu_count s" "st_parent s' = st_parent s"
    "mu_errs s' = mu_errs s" "st_config s' = st_config s" "mu_stopOnIdle s' = mu_stopOnIdle s"
    "mu_stopHooks s' = mu_stopHooks (soft_prepared s)"
proof -
  have "mu_stopping s' \<and> stopping_closed s' \<and> mu_count s' = mu_count s \<and> st_parent s' = st_parent s
    \<and> mu_errs s' = mu_errs s \<and> st_config s' = st_config s \<and> mu_stopOnIdle s' = mu_stopOnIdle s
    \<and> mu_stopHooks s' = mu_stopHooks (soft_prepared s)"
    using assms(1)
  proof (cases rule: soft_stop_cases [of _ now g])
    case (hard e t d)
    then have "s' = t" using assms(2) by simp
    with hard_stop_fields [OF hard(2)] show ?thesis by simp
  next
    case timer
    then have "s' = update_grace_timer_locked now g (soft_prepared s)" using assms(2) by simp
    then show ?thesis by simp
  qed
  then show "mu_stopping s'" "stopping_closed s'" "mu_count s' = mu_count s"
    "st_parent s' = st_parent s" "mu_errs s' = mu_errs s" "st_config s' = st_config s"
    "mu_stopOnIdle s' = mu_stopOnIdle s" "mu_stopHooks s' = mu_stopHooks (soft_prepared s)"
    by simp_all
qed

section \<open>Apply\<close>

lemma wf_core_count: "wf_core s \<Longrightarrow> 0 \<le> c \<Longrightarrow> wf_core (s\<lparr>mu_count := c\<rparr>)"
  by (simp add: wf_core_def wf_timers_def cong: option.case_cong)

lemma apply_locked_cases:
  assumes "wf_core s"
  obtains (refused) "mu_stopping s" "0 < d" "apply_locked now d s =
      Inr (s, (case st_parent s of None \<Rightarrow> [] | Some p \<Rightarrow> [CbParentApply p (- d)]), False)"
  | (over) "\<not> (mu_stopping s \<and> 0 < d)" "mu_count s + d < 0" "apply_locked now d s = Inl OverReleased"
  | (plain) "\<not> (mu_stopping s \<and> 0 < d)" "0 \<le> mu_count s + d"
      "mu_count s + d = 0 \<Longrightarrow> \<not> mu_stopping s \<and> mu_stopOnIdle s = None"
      "apply_locked now d s = Inr (s\<lparr>mu_count := mu_count s + d\<rparr>, [], True)"
  | (idle) g s' cbs where "\<not> (mu_stopping s \<and> 0 < d)" "mu_count s + d = 0" "mu_stopOnIdle s = Some g"
      "soft_stop_locked now g (s\<lparr>mu_count := 0\<rparr>) = Inr (s', cbs)"
      "apply_locked now d s = Inr (s', cbs, True)"
  | (last) s' cbs where "\<not> (mu_stopping s \<and> 0 < d)" "mu_count s + d = 0" "mu_stopOnIdle s = None"
      "mu_stopping s" "hard_stop_locked ErrStopped (s\<lparr>mu_count := 0\<rparr>) = (s', cbs)"
      "apply_locked now d s = Inr (s', cbs, True)"
proof -
  consider (r) "mu_stopping s \<and> 0 < d" | (o) "\<not> (mu_stopping s \<and> 0 < d)" "mu_count s + d < 0"
    | (p) "\<not> (mu_stopping s \<and> 0 < d)" "0 < mu_count s + d"
    | (i) g where "\<not> (mu_stopping s \<and> 0 < d)" "mu_count s + d = 0" "mu_stopOnIdle s = Some g"
    | (l) "\<not> (mu_stopping s \<and> 0 < d)" "mu_count s + d = 0" "mu_stopOnIdle s = None" "mu_stopping s"
    | (n) "\<not> (mu_stopping s \<and> 0 < d)" "mu_count s + d = 0" "mu_stopOnIdle s = None" "\<not> mu_stopping s"
    by fastforce
  then show thesis
  proof cases
    case r then show ?thesis by (intro refused) (auto simp: apply_locked_def)
  next
    case o then show ?thesis by (intro over) (auto simp: apply_locked_def Let_def)
  next
    case p then show ?thesis by (intro plain) (auto simp: apply_locked_def Let_def)
  next
    case i
    obtain s' cbs where "soft_stop_locked now g (s\<lparr>mu_count := 0\<rparr>) = Inr (s', cbs)"
      using soft_stop_no_crash wf_core_count [OF assms, of 0] by blast
    with i show ?thesis by (intro idle) (auto simp: apply_locked_def Let_def)
  next
    case l
    obtain s' cbs where "hard_stop_locked ErrStopped (s\<lparr>mu_count := 0\<rparr>) = (s', cbs)" by fastforce
    with l show ?thesis by (intro last) (auto simp: apply_locked_def Let_def)
  next
    case n then show ?thesis by (intro plain) (auto simp: apply_locked_def Let_def)
  qed
qed

text \<open>Once a parent accepted the delta, only an over-release makes the critical section panic.\<close>

lemma apply_locked_crash_iff:
  assumes "wf_core s"
  shows "(\<exists>c. apply_locked now d s = Inl c) \<longleftrightarrow> \<not> (mu_stopping s \<and> 0 < d) \<and> mu_count s + d < 0"
  using assms by (cases rule: apply_locked_cases [of _ d now]) auto

lemma apply_locked_wf:
  assumes "wf_state s" and "apply_locked now d s = Inr (s', cbs, r)"
  shows "wf_state s'"
  using wf_state_core [OF assms(1)]
proof (cases rule: apply_locked_cases [of _ d now])
  case refused with assms show ?thesis by simp
next
  case over with assms show ?thesis by simp
next
  case plain
  with assms have s': "s' = s\<lparr>mu_count := mu_count s + d\<rparr>" by simp
  have "wf_core s'" using wf_core_count [OF wf_state_core [OF assms(1)] plain(2)] s' by simp
  with plain assms(1) s' show ?thesis by (auto simp: wf_state_def)
next
  case (idle g t c)
  have "wf_core (s\<lparr>mu_count := 0\<rparr>)" using wf_core_count [OF wf_state_core [OF assms(1)]] by simp
  then show ?thesis using soft_stop_wf idle assms(2) by auto
next
  case (last t c)
  have w: "wf_core (s\<lparr>mu_count := 0\<rparr>)" using wf_core_count [OF wf_state_core [OF assms(1)]] by simp
  have "s' = t" using last(6) assms(2) by simp
  with hard_stop_wf_core [OF last(5) w] last(4) hard_stop_fields [OF last(5)] show ?thesis
    by (auto simp: wf_state_def)
qed

lemma apply_locked_result:
  assumes "wf_core s" and "apply_locked now d s = Inr (s', cbs, r)"
  shows "r \<longleftrightarrow> \<not> (mu_stopping s \<and> 0 < d)"
    and "\<not> r \<Longrightarrow> s' = s \<and> cbs = (case st_parent s of None \<Rightarrow> [] | Some p \<Rightarrow> [CbParentApply p (- d)])"
    and "r \<Longrightarrow> mu_count s' = mu_count s + d \<and> (\<forall>p e. CbParentApply p e \<notin> set cbs)"
    and "st_parent s' = st_parent s \<and> mu_errs s' = mu_errs s \<and> st_config s' = st_config s"
    and "mu_stopping s \<Longrightarrow> mu_stopping s'"
proof -
  have "(r \<longleftrightarrow> \<not> (mu_stopping s \<and> 0 < d))
    \<and> (\<not> r \<longrightarrow> s' = s \<and> cbs = (case st_parent s of None \<Rightarrow> [] | Some p \<Rightarrow> [CbParentApply p (- d)]))
    \<and> (r \<longrightarrow> mu_count s' = mu_count s + d \<and> (\<forall>p e. CbParentApply p e \<notin> set cbs))
    \<and> (st_parent s' = st_parent s \<and> mu_errs s' = mu_errs s \<and> st_config s' = st_config s)
    \<and> (mu_stopping s \<longrightarrow> mu_stopping s')"
    using assms(1)
  proof (cases rule: apply_locked_cases [of _ d now])
    case refused
    then have "s' = s" "r = False"
      "cbs = (case st_parent s of None \<Rightarrow> [] | Some p \<Rightarrow> [CbParentApply p (- d)])"
      using assms(2) by simp_all
    with refused show ?thesis by simp
  next
    case over with assms show ?thesis by simp
  next
    case plain
    then have "s' = s\<lparr>mu_count := mu_count s + d\<rparr>" "r = True" "cbs = []"
      using assms(2) by simp_all
    with plain show ?thesis by simp
  next
    case (idle g t c)
    have w: "wf_core (s\<lparr>mu_count := 0\<rparr>)" using wf_core_count [OF assms(1)] by simp
    have "soft_hooks (s\<lparr>mu_count := 0\<rparr>) = soft_hooks s" by (simp add: soft_hooks_def)
    moreover have "CbParentApply p e \<notin> set c" for p e
      using w
    proof (cases rule: soft_stop_cases [of _ now g])
      case (hard er u v)
      with idle hard_stop_fields(11) [OF hard(2)] show ?thesis
        by (auto simp: soft_hooks_def split: option.splits list.splits)
    next
      case timer with idle show ?thesis by simp
    qed
    ultimately show ?thesis using soft_stop_fields [OF w idle(4)] idle assms(2) by auto
  next
    case (last t c)
    with hard_stop_fields [OF last(5)] assms(2) show ?thesis by (auto split: option.splits)
  qed
  then show "r \<longleftrightarrow> \<not> (mu_stopping s \<and> 0 < d)"
    and "\<not> r \<Longrightarrow> s' = s \<and> cbs = (case st_parent s of None \<Rightarrow> [] | Some p \<Rightarrow> [CbParentApply p (- d)])"
    and "r \<Longrightarrow> mu_count s' = mu_count s + d \<and> (\<forall>p e. CbParentApply p e \<notin> set cbs)"
    and "st_parent s' = st_parent s \<and> mu_errs s' = mu_errs s \<and> st_config s' = st_config s"
    and "mu_stopping s \<Longrightarrow> mu_stopping s'"
    by blast+
qed

section \<open>The other critical sections\<close>

lemma stop_locked_wf [wf_intros]:
  "wf_state s \<Longrightarrow> stop_locked now g s = Inr (s', cbs) \<Longrightarrow> wf_state s'"
  unfolding stop_locked_def by (rule soft_stop_wf [OF wf_state_core])

lemma wf_core_idle: "wf_core s \<Longrightarrow> wf_core (s\<lparr>mu_stopOnIdle := x\<rparr>)"
  by (simp add: wf_core_def wf_timers_def cong: option.case_cong)

lemma stop_on_idle_wf [wf_intros]:
  "wf_state s \<Longrightarrow> stop_on_idle_locked now g s = Inr (s', cbs) \<Longrightarrow> wf_state s'"
proof (cases "mu_count s = 0")
  case True
  assume "wf_state s" "stop_on_idle_locked now g s = Inr (s', cbs)"
  with True show ?thesis
    by (auto simp: stop_on_idle_locked_def intro: soft_stop_wf [OF wf_core_idle [OF wf_state_core]])
next
  case False
  assume "wf_state s" "stop_on_idle_locked now g s = Inr (s', cbs)"
  with False have s': "s' = s\<lparr>mu_stopOnIdle := Some g\<rparr>" by (simp add: stop_on_idle_locked_def)
  from \<open>wf_state s\<close> have "wf_core s'" unfolding s' by (intro wf_core_idle wf_state_core)
  with \<open>wf_state s\<close> False show ?thesis unfolding s' by (simp add: wf_state_def)
qed

lemma wf_timers_frame [simp]:
  "wf_timers (s\<lparr>mu_deferred := x\<rparr>) = wf_timers s" "wf_timers (s\<lparr>mu_errs := y\<rparr>) = wf_timers s"
  "wf_timers (s\<lparr>mu_stopHooks := z\<rparr>) = wf_timers s"
  by (simp_all add: wf_timers_def cong: option.case_cong)

lemma wf_state_frame [simp]:
  "wf_state (s\<lparr>mu_deferred := x\<rparr>) = wf_state s" "wf_state (s\<lparr>mu_errs := y\<rparr>) = wf_state s"
  by (simp_all add: wf_state_def wf_core_def)

lemma add_deferred_wf [wf_intros]:
  "wf_state s \<Longrightarrow> add_deferred f s = (b, s') \<Longrightarrow> wf_state s'"
  by (auto simp: add_deferred_def split: if_splits)

lemma add_errors_wf [wf_intros]: "wf_state s \<Longrightarrow> wf_state (add_errors es s)"
  by (simp add: add_errors_def)

text \<open>\<open>AddErrors\<close> without its early returns.\<close>

lemma add_errors_eq: "add_errors es s = s\<lparr>mu_errs := mu_errs s @ non_nil es\<rparr>"
proof -
  have "non_nil es = []" if "\<not> list_ex (\<lambda>e. e \<noteq> None) es"
    using that by (auto simp: non_nil_empty_iff list_ex_iff)
  moreover have "non_nil es = []" if "es = [] \<or> (length es = 1 \<and> es ! 0 = None)"
    using that by (cases es) auto
  ultimately show ?thesis by (auto simp: add_errors_def)
qed

lemma add_stop_hook_wf [wf_intros]:
  "wf_state s \<Longrightarrow> add_stop_hook_locked c h s = (b, s') \<Longrightarrow> wf_state s'"
  by (auto simp: add_stop_hook_locked_def wf_state_def wf_core_def Let_def
      distinct_update split: if_splits option.splits)

lemma unhook_wf [wf_intros]: "wf_state s \<Longrightarrow> wf_state (unhook_locked c s)"
  by (auto simp: unhook_locked_def wf_state_def wf_core_def distinct_delete split: option.splits)

lemma grace_timer_wf [wf_intros]:
  assumes "wf_state s" and "grace_timer_locked s = (s', cbs)" and "mu_stopping s"
  shows "wf_state s'"
  using assms hard_stop_wf_core [OF assms(2) [unfolded grace_timer_locked_def]]
    hard_stop_fields [OF assms(2) [unfolded grace_timer_locked_def]]
  by (auto simp: wf_state_def)

text \<open>The runtime takes a due timer off its heap before it starts the timer's goroutine.\<close>

definition fire_timer :: "nat \<Rightarrow> 'cfg gostate \<Rightarrow> 'cfg gostate" where
  "fire_timer i s = s\<lparr>rt_timers := timer_stop i (rt_timers s)\<rparr>"

lemma fire_timer_wf_timers: "wf_timers s \<Longrightarrow> wf_timers (fire_timer i s)"
  by (cases "mu_graceTimer s")
    (auto simp: fire_timer_def wf_timers_def timer_stop_def nth_list_update)

lemma fire_timer_fields [simp]:
  "mu_stopping (fire_timer i s) = mu_stopping s" "stopping_closed (fire_timer i s) = stopping_closed s"
  "mu_count (fire_timer i s) = mu_count s" "mu_cancel (fire_timer i s) = mu_cancel s"
  "mu_deferred (fire_timer i s) = mu_deferred s" "mu_stopHooks (fire_timer i s) = mu_stopHooks s"
  "mu_stopOnIdle (fire_timer i s) = mu_stopOnIdle s" "st_parent (fire_timer i s) = st_parent s"
  "mu_graceTimer (fire_timer i s) = mu_graceTimer s" "mu_errs (fire_timer i s) = mu_errs s"
  "st_config (fire_timer i s) = st_config s"
  by (simp_all add: fire_timer_def)

lemma fire_timer_wf [wf_intros]: "wf_state s \<Longrightarrow> wf_state (fire_timer i s)"
  using fire_timer_wf_timers by (auto simp: wf_state_def wf_core_def)

end
