(* ===== verification/State_Runs.thy ===== *)
theory State_Runs
  imports State_Inv
begin

text \<open>
  Runs of critical sections on one state, in any order: the trace semantics of a single \<open>State\<close>
  as its mutex serialises it. The lemmas say where every callback goes.
\<close>

section \<open>Steps of one state\<close>

text \<open>
  \<open>crit_step s ops t cbs\<close>: one lock acquisition turns \<open>s\<close> into \<open>t\<close>, registers the deferred functions
  \<open>ops\<close> and hands \<open>cbs\<close> to its caller. A grace timer exists only once the state is stopping.
\<close>

inductive crit_step :: "'cfg gostate \<Rightarrow> fid list \<Rightarrow> 'cfg gostate \<Rightarrow> callback list \<Rightarrow> bool" where
  defer_kept: "add_deferred f s = (True, t) \<Longrightarrow> crit_step s [f] t []"
| defer_now: "add_deferred f s = (False, t) \<Longrightarrow> crit_step s [f] t [CbUser f]"
| errors: "crit_step s [] (add_errors es s) []"
| applied: "apply_locked now d s = Inr (t, cbs, r) \<Longrightarrow> crit_step s [] t cbs"
| stop: "stop_locked now g s = Inr (t, cbs) \<Longrightarrow> crit_step s [] t cbs"
| stop_on_idle: "stop_on_idle_locked now g s = Inr (t, cbs) \<Longrightarrow> crit_step s [] t cbs"
| hooked: "add_stop_hook_locked c h s = (b, t) \<Longrightarrow> crit_step s [] t []"
| unhooked: "crit_step s [] (unhook_locked c s) []"
| fired: "crit_step s [] (fire_timer i s) []"
| grace: "mu_stopping s \<Longrightarrow> grace_timer_locked s = (t, cbs) \<Longrightarrow> crit_step s [] t cbs"

inductive crit_run :: "'cfg gostate \<Rightarrow> fid list \<Rightarrow> 'cfg gostate \<Rightarrow> callback list \<Rightarrow> bool" where
  run_nil: "crit_run s [] s []"
| run_step: "crit_run s fs t cbs \<Longrightarrow> crit_step t fs' u cbs' \<Longrightarrow> crit_run s (fs @ fs') u (cbs @ cbs')"

lemma grace_timer_stopping: "wf_core s \<Longrightarrow> i < length (rt_timers s) \<Longrightarrow> mu_stopping s"
  by (auto simp: wf_core_def wf_timers_def)

lemma crit_step_wf: "crit_step s fs t cbs \<Longrightarrow> wf_state s \<Longrightarrow> wf_state t"
  by (induction rule: crit_step.induct)
    (auto intro: wf_intros apply_locked_wf grace_timer_wf)

interpretation crit: invariant_system
  "\<lambda>s. \<exists>c cfg p. s = new_state c cfg p" "\<lambda>s t. \<exists>fs cbs. crit_step s fs t cbs" wf_state
  by unfold_locales (auto intro: wf_new_state crit_step_wf)

lemma crit_run_steps: "crit_run s fs t cbs \<Longrightarrow> (\<lambda>s t. \<exists>fs cbs. crit_step s fs t cbs)\<^sup>*\<^sup>* s t"
  by (induction rule: crit_run.induct) (auto intro: rtranclp.rtrancl_into_rtrancl)

lemma crit_run_wf: "crit_run s fs t cbs \<Longrightarrow> wf_state s \<Longrightarrow> wf_state t"
  by (auto dest: crit_run_steps crit.inv_steps)

section \<open>Where the callbacks go\<close>

fun user_cbs :: "callback list \<Rightarrow> fid list" where
  "user_cbs [] = []"
| "user_cbs (CbUser f # cs) = f # user_cbs cs"
| "user_cbs (_ # cs) = user_cbs cs"

fun cancels_in :: "callback list \<Rightarrow> nat" where
  "cancels_in [] = 0"
| "cancels_in (CbCancel c e # cs) = Suc (cancels_in cs)"
| "cancels_in (_ # cs) = cancels_in cs"

lemma user_cbs_append [simp]: "user_cbs (xs @ ys) = user_cbs xs @ user_cbs ys"
  by (induction xs rule: user_cbs.induct) auto

lemma user_cbs_map_user [simp]: "user_cbs (map CbUser fs) = fs"
  by (induction fs) auto

lemma cancels_in_append [simp]: "cancels_in (xs @ ys) = cancels_in xs + cancels_in ys"
  by (induction xs rule: cancels_in.induct) auto

lemma cancels_in_map_user [simp]: "cancels_in (map CbUser fs) = 0"
  by (induction fs) auto

lemma soft_hooks_cbs [simp]: "user_cbs (soft_hooks s) = []" "cancels_in (soft_hooks s) = 0"
  by (auto simp: soft_hooks_def split: option.splits list.splits)

text \<open>
  What a critical section moves: the pending cancel function and the pending deferred functions
  leave the state exactly when they are handed to the caller.
\<close>

definition moves ::
  "'cfg gostate \<Rightarrow> fid list \<Rightarrow> 'cfg gostate \<Rightarrow> callback list \<Rightarrow> bool" where
  "moves s fs t cbs \<longleftrightarrow>
     mset (mu_deferred s) + mset fs = mset (mu_deferred t) + mset (user_cbs cbs)
     \<and> (if mu_cancel s = None then 0 else 1) = (if mu_cancel t = None then 0 else 1) + cancels_in cbs"

lemma moves_trans: "moves s fs t cbs \<Longrightarrow> moves t fs' u cbs' \<Longrightarrow> moves s (fs @ fs') u (cbs @ cbs')"
  unfolding moves_def by (auto simp: ac_simps) (metis union_commute union_lcomm)

lemma hard_stop_moves:
  "hard_stop_locked e s = (t, cbs) \<Longrightarrow> moves s [] t cbs"
  using hard_stop_fields(4,10,11) [of e s t cbs] by (auto simp: moves_def split: option.splits)

lemma soft_stop_moves:
  assumes "wf_core s" and "soft_stop_locked now g s = Inr (t, cbs)"
  shows "moves s [] t cbs"
  using assms(1)
proof (cases rule: soft_stop_cases [of _ now g])
  case (hard e u d)
  with hard_stop_moves [OF hard(2)] assms(2) show ?thesis by (auto simp: moves_def)
next
  case timer with assms(2) show ?thesis by (auto simp: moves_def)
qed

lemma apply_locked_moves:
  assumes "wf_core s" and "apply_locked now d s = Inr (t, cbs, r)"
  shows "moves s [] t cbs"
  using assms(1)
proof (cases rule: apply_locked_cases [of _ d now])
  case refused with assms(2) show ?thesis by (auto simp: moves_def split: option.splits)
next
  case over with assms(2) show ?thesis by simp
next
  case plain with assms(2) show ?thesis by (auto simp: moves_def)
next
  case (idle g u c)
  with soft_stop_moves [OF wf_core_count [OF assms(1) order_refl] idle(4)] assms(2)
  show ?thesis by (auto simp: moves_def)
next
  case (last u c)
  with hard_stop_moves [OF last(5)] assms(2) show ?thesis by (auto simp: moves_def)
qed

lemma crit_step_moves: "crit_step s fs t cbs \<Longrightarrow> wf_core s \<Longrightarrow> moves s fs t cbs"
proof (induction rule: crit_step.induct)
  case (applied now d s t cbs r)
  then show ?case by (blast intro: apply_locked_moves)
next
  case (stop now g s t cbs)
  then show ?case unfolding stop_locked_def by (blast intro: soft_stop_moves)
next
  case (stop_on_idle now g s t cbs)
  show ?case
  proof (cases "mu_count s = 0")
    case True
    with stop_on_idle have "soft_stop_locked now g (s\<lparr>mu_stopOnIdle := Some g\<rparr>) = Inr (t, cbs)"
      by (simp add: stop_on_idle_locked_def)
    from soft_stop_moves [OF wf_core_idle [OF stop_on_idle(2)] this] show ?thesis
      by (simp add: moves_def)
  next
    case False
    with stop_on_idle show ?thesis by (auto simp: stop_on_idle_locked_def moves_def)
  qed
next
  case (grace s t cbs)
  then show ?case unfolding grace_timer_locked_def by (blast intro: hard_stop_moves)
qed (auto simp: moves_def add_deferred_def add_errors_def add_stop_hook_locked_def unhook_locked_def
    Let_def split: if_splits option.splits)

lemma crit_run_moves: "crit_run s fs t cbs \<Longrightarrow> wf_state s \<Longrightarrow> moves s fs t cbs"
proof (induction rule: crit_run.induct)
  case (run_nil s)
  then show ?case by (simp add: moves_def)
next
  case (run_step s fs t cbs fs' u cbs')
  then show ?case
    using crit_step_moves [OF run_step(2)] crit_run_wf [OF run_step(1)] wf_state_core moves_trans
    by blast
qed

section \<open>Properties of one state\<close>

text \<open>
  C14: whatever the order in which callers take the mutex, every function given to \<open>AddDeferred\<close> is
  either still pending or was handed out for execution, each one exactly once, and the cancel
  function of \<open>New\<close> is handed out at most once: exactly when the state has hard-stopped.
\<close>

theorem deferred_exactly_once:
  assumes "crit_run (new_state c cfg p) fs t cbs"
  shows "mset fs = mset (mu_deferred t) + mset (user_cbs cbs)
    \<and> cancels_in cbs \<le> 1 \<and> (cancels_in cbs = 1 \<longleftrightarrow> mu_cancel t = None)"
proof -
  have "moves (new_state c cfg p) fs t cbs" using assms by (rule crit_run_moves) (rule wf_new_state)
  then show ?thesis
    unfolding moves_def by (cases "mu_cancel t") (simp_all add: new_state_def)
qed

definition sample_state :: "nat gostate" where
  "sample_state = new_state (Cleanup 0) 7 None"

lemma sample_run:
  "crit_run sample_state [1, 2]
     (sample_state\<lparr>mu_stopping := True, stopping_closed := True, mu_cancel := None\<rparr>)
     [CbCancel (Cleanup 0) ErrStopped, CbUser 1, CbUser 2]"
proof -
  let ?t = "sample_state\<lparr>mu_stopping := True, stopping_closed := True, mu_cancel := None\<rparr>"
  have 1: "crit_step sample_state [1] (sample_state\<lparr>mu_deferred := [1]\<rparr>) []"
    by (rule defer_kept) (simp add: add_deferred_def sample_state_def new_state_def)
  have 2: "crit_step (sample_state\<lparr>mu_deferred := [1]\<rparr>) [2] (sample_state\<lparr>mu_deferred := [1, 2]\<rparr>) []"
    by (rule defer_kept) (simp add: add_deferred_def sample_state_def new_state_def)
  have 3: "crit_step (sample_state\<lparr>mu_deferred := [1, 2]\<rparr>) [] ?t
      [CbCancel (Cleanup 0) ErrStopped, CbUser 1, CbUser 2]"
    by (rule crit_step.stop [of 0 5])
      (simp add: stop_locked_def soft_stop_locked_def hard_stop_locked_def close_stopping_def
        sample_state_def new_state_def)
  show ?thesis
    using run_step [OF run_step [OF run_step [OF run_nil 1] 2] 3] by simp
qed

theorem deferred_exactly_once_witness:
  "mset [1, 2] = mset (mu_deferred (sample_state\<lparr>mu_stopping := True, stopping_closed := True,
       mu_cancel := None\<rparr>)) + mset (user_cbs [CbCancel (Cleanup 0) ErrStopped, CbUser 1, CbUser 2])"
  unfolding sample_state_def
  by (rule conjunct1 [OF deferred_exactly_once [OF sample_run [unfolded sample_state_def]]])

text \<open>
  C15: \<open>Stop\<close>, on every branch. It never panics; it always leaves the state stopping with a closed
  channel and hands out the registered stop hooks; an idle state is cancelled with
  \<open>ErrStopped\<close>, a busy one with \<open>ErrGracePeriodExpired\<close> when the grace period is not positive, and the
  deferred functions go out with the cancel function; otherwise nothing is cancelled and the
  deadline becomes the earlier of the old one and \<open>now + g\<close>, with a grace timer armed.
  \<open>callDeferred\<close> goes through the list from its end, so the deferred functions run first, last
  registered first, then the cancel function, and the stop hooks of the children last, although the
  comment of \<open>AddStopHook\<close> says that they are called immediately after the channel is closed.
\<close>

theorem stop_spec:
  assumes "wf_state s"
  shows "\<exists>t cbs. stop_locked now g s = Inr (t, cbs) \<and> mu_stopping t \<and> stopping_closed t
    \<and> mu_count t = mu_count s
    \<and> (if mu_count s = 0 \<or> g \<le> 0 then
          mu_cancel t = None
          \<and> cbs = soft_hooks s @
              (case mu_cancel s of None \<Rightarrow> []
               | Some c \<Rightarrow> CbCancel c (if mu_count s = 0 then ErrStopped else ErrGracePeriodExpired)
                           # map CbUser (mu_deferred s))
        else mu_cancel t = mu_cancel s \<and> mu_deferred t = mu_deferred s \<and> cbs = soft_hooks s
          \<and> mu_stopAt t = Some (case mu_stopAt s of None \<Rightarrow> now + g | Some a \<Rightarrow> min a (now + g))
          \<and> mu_graceTimer t \<noteq> None)"
  using wf_state_core [OF assms]
proof (cases rule: soft_stop_cases [of _ now g])
  case (hard e t d)
  with hard_stop_fields [OF hard(2)] show ?thesis
    unfolding stop_locked_def by (cases "mu_cancel s") auto
next
  case timer
  have "wf_timers (soft_prepared s)"
    using soft_prepared_wf [OF wf_state_core [OF assms]] by (simp add: wf_core_def)
  then obtain i where "mu_graceTimer (update_grace_timer_locked now g (soft_prepared s)) = Some i"
    using update_grace_timer_armed by blast
  with timer show ?thesis
    unfolding stop_locked_def by (simp add: update_grace_timer_stopAt)
qed

theorem stop_spec_witness:
  "\<exists>t cbs. stop_locked 100 5 (sample_state\<lparr>mu_count := 1\<rparr>) = Inr (t, cbs) \<and> mu_stopping t
     \<and> mu_stopAt t = Some 105"
proof -
  have "wf_state (sample_state\<lparr>mu_count := 1\<rparr>)"
    by (simp add: sample_state_def new_state_def wf_state_def wf_core_def wf_timers_def)
  from stop_spec [OF this, of 100 5] show ?thesis
    by (auto simp: sample_state_def new_state_def)
qed

text \<open>
  \<open>Apply\<close>'s critical section, on every branch: a positive delta on a stopping state is
  refused and the parent's increment is unwound; otherwise the count moves by the delta, a count
  below zero is the over-release panic, and a state that becomes idle is soft-stopped when
  \<open>StopOnIdle\<close> was called, hard-stopped with \<open>ErrStopped\<close> when it was stopping, and left alone otherwise.
\<close>

theorem apply_locked_spec:
  assumes "wf_state s"
  shows "apply_locked now d s =
    (if mu_stopping s \<and> 0 < d then
       Inr (s, (case st_parent s of None \<Rightarrow> [] | Some p \<Rightarrow> [CbParentApply p (- d)]), False)
     else if mu_count s + d < 0 then Inl OverReleased
     else let s1 = s\<lparr>mu_count := mu_count s + d\<rparr> in
       if 0 < mu_count s + d \<or> (mu_stopOnIdle s = None \<and> \<not> mu_stopping s) then Inr (s1, [], True)
       else if mu_stopOnIdle s = None then
         (case hard_stop_locked ErrStopped s1 of (t, cbs) \<Rightarrow> Inr (t, cbs, True))
       else
         (case hard_stop_locked ErrStopped (soft_prepared s1) of
            (t, cbs) \<Rightarrow> Inr (t, soft_hooks s @ cbs, True)))"
proof -
  have w: "wf_core (s\<lparr>mu_count := 0\<rparr>)" using wf_core_count [OF wf_state_core [OF assms]] by simp
  then have e: "stopping_closed (s\<lparr>mu_count := 0\<rparr>) = mu_stopping (s\<lparr>mu_count := 0\<rparr>)"
    by (simp add: wf_core_def)
  have h: "soft_hooks (s\<lparr>mu_count := 0\<rparr>) = soft_hooks s" by (simp add: soft_hooks_def)
  show ?thesis
    using wf_state_core [OF assms]
  proof (cases rule: apply_locked_cases [of _ d now])
    case (idle g t c)
    with soft_stop_eq [OF e, of now g] h show ?thesis by (auto split: prod.splits)
  next
    case (last t c)
    then show ?thesis by (auto split: prod.splits)
  qed (auto simp: Let_def)
qed

theorem apply_locked_spec_witness:
  "apply_locked 0 (-1) sample_state = Inl OverReleased"
proof -
  have w: "wf_state sample_state" unfolding sample_state_def by (rule wf_new_state)
  show ?thesis using apply_locked_spec [OF w, of 0 "-1"]
    by (simp add: sample_state_def new_state_def)
qed

text \<open>
  \<open>AddErrors\<close>, with its early returns, is "append the non-nil errors in order".
\<close>

theorem add_errors_spec:
  "errors_of (add_errors es s) = errors_of s @ non_nil es
   \<and> add_errors es s = s\<lparr>mu_errs := errors_of s @ non_nil es\<rparr>"
  by (simp add: add_errors_eq errors_of_def)

section \<open>A deferred function that is never run\<close>

lemma soft_stop_spent:
  assumes "wf_core s" and "soft_stop_locked now g s = Inr (t, cbs)" and "mu_cancel s = None"
  shows "mu_cancel t = None \<and> mu_deferred t = mu_deferred s \<and> user_cbs cbs = []"
  using assms(1)
proof (cases rule: soft_stop_cases [of _ now g])
  case (hard e u d)
  with hard_stop_fields [OF hard(2)] assms(2,3) show ?thesis by auto
next
  case timer with assms(2,3) show ?thesis by auto
qed

lemma crit_step_spent:
  assumes "crit_step s fs t cbs" and "wf_core s" and "mu_cancel s = None"
  shows "mu_cancel t = None \<and> set (mu_deferred s) \<subseteq> set (mu_deferred t) \<and> set (user_cbs cbs) \<subseteq> set fs"
  using assms
proof (induction rule: crit_step.induct)
  case (applied now d s t cbs r)
  from applied(2) show ?case
  proof (cases rule: apply_locked_cases [of _ d now])
    case (idle g u c)
    with soft_stop_spent [OF wf_core_count [OF applied(2) order_refl] idle(4)] applied show ?thesis
      by simp
  next
    case (last u c)
    with hard_stop_fields [OF last(5)] applied show ?thesis by simp
  qed (use applied in \<open>auto split: option.splits\<close>)
next
  case (stop now g s t cbs)
  then show ?case using soft_stop_spent unfolding stop_locked_def by fastforce
next
  case (stop_on_idle now g s t cbs)
  show ?case
  proof (cases "mu_count s = 0")
    case True
    with stop_on_idle have "soft_stop_locked now g (s\<lparr>mu_stopOnIdle := Some g\<rparr>) = Inr (t, cbs)"
      by (simp add: stop_on_idle_locked_def)
    from soft_stop_spent [OF wf_core_idle [OF stop_on_idle(2)] this] stop_on_idle show ?thesis by simp
  next
    case False
    with stop_on_idle show ?thesis by (auto simp: stop_on_idle_locked_def)
  qed
next
  case (grace s t cbs)
  then show ?case using hard_stop_fields [of ErrGracePeriodExpired s t cbs]
    by (simp add: grace_timer_locked_def)
qed (auto simp: add_deferred_def add_errors_def add_stop_hook_locked_def unhook_locked_def
    Let_def split: if_splits option.splits)

lemma crit_run_spent:
  "crit_run s fs t cbs \<Longrightarrow> wf_state s \<Longrightarrow> mu_cancel s = None \<Longrightarrow>
     mu_cancel t = None \<and> set (mu_deferred s) \<subseteq> set (mu_deferred t) \<and> set (user_cbs cbs) \<subseteq> set fs"
proof (induction rule: crit_run.induct)
  case (run_step s fs t cbs fs' u cbs')
  then show ?case
    using crit_step_spent [OF run_step(2)] crit_run_wf [OF run_step(1)] wf_state_core by fastforce
qed simp

text \<open>
  C38: a function registered after the grace period expired while a task is still running is
  accepted (\<open>AddDeferred\<close> returns true, "retained for later execution") and then never handed out,
  whatever happens to the state afterwards: \<open>hardStopLocked\<close> is a one-shot that has been used up.
\<close>

theorem deferred_lost_after_grace_period:
  assumes "wf_state s" and "mu_cancel s = None" and "0 < mu_count s"
  shows "\<exists>t. add_deferred f s = (True, t)
    \<and> (\<forall>fs u cbs. crit_run t fs u cbs \<and> f \<notin> set fs \<longrightarrow> f \<in> set (mu_deferred u) \<and> f \<notin> set (user_cbs cbs))"
proof -
  let ?t = "s\<lparr>mu_deferred := mu_deferred s @ [f]\<rparr>"
  have a: "add_deferred f s = (True, ?t)" using assms(3) by (simp add: add_deferred_def)
  have w: "wf_state ?t" using assms(1) by simp
  have "f \<in> set (mu_deferred u) \<and> f \<notin> set (user_cbs cbs)"
    if "crit_run ?t fs u cbs" "f \<notin> set fs" for fs u cbs
    using crit_run_spent [OF that(1) w] that(2) assms(2) by auto
  with a show ?thesis by blast
qed

definition expired_state :: "nat gostate" where
  "expired_state = sample_state\<lparr>mu_count := 1, mu_stopping := True, stopping_closed := True,
     mu_cancel := None\<rparr>"

lemma expired_state_reached:
  "stop_locked 0 0 (sample_state\<lparr>mu_count := 1\<rparr>)
     = Inr (expired_state, [CbCancel (Cleanup 0) ErrGracePeriodExpired])"
  by (simp add: expired_state_def sample_state_def new_state_def stop_locked_def
      soft_stop_locked_def hard_stop_locked_def close_stopping_def)

theorem deferred_lost_after_grace_period_witness:
  "\<exists>t u cbs. add_deferred 9 expired_state = (True, t) \<and> stop_locked 1 0 t = Inr (u, cbs)
     \<and> 9 \<in> set (mu_deferred u) \<and> 9 \<notin> set (user_cbs cbs)"
proof -
  have "wf_state (sample_state\<lparr>mu_count := 1\<rparr>)"
    by (simp add: sample_state_def new_state_def wf_state_def wf_core_def wf_timers_def)
  then have "wf_state expired_state" using expired_state_reached by (rule stop_locked_wf)
  then obtain t where t: "add_deferred 9 expired_state = (True, t)"
    and all: "crit_run t fs u cbs \<Longrightarrow> 9 \<notin> set fs \<Longrightarrow> 9 \<in> set (mu_deferred u) \<and> 9 \<notin> set (user_cbs cbs)"
    for fs u cbs
    using deferred_lost_after_grace_period [of expired_state 9]
    by (auto simp: expired_state_def sample_state_def new_state_def)
  have "\<exists>u cbs. stop_locked 1 0 t = Inr (u, cbs)"
    using t by (auto simp: add_deferred_def expired_state_def sample_state_def new_state_def
        stop_locked_def soft_stop_locked_def hard_stop_locked_def)
  then obtain u cbs where u: "stop_locked 1 0 t = Inr (u, cbs)" by blast
  from run_step [OF run_nil crit_step.stop [OF u]] all [of "[]" u cbs] t u show ?thesis by auto
qed

end
