(* ===== verification/Machine.thy ===== *)
theory Machine
  imports State_Runs
begin

text \<open>
  The operations of internal/state/state.go as goroutines run them. A goroutine is a stack of
  frames; the top frame is what it does next, and each frame is one atomic action: a critical
  section, a channel check, one iteration of a loop or a return. \<open>Apply\<close> takes the parent's lock
  before its own and drops it in between, so it is several frames: \<open>FApply\<close> (the fast check and the
  recursive call) and \<open>FApplyLock\<close> (its own critical section, which waits for the parent's result).
  A boolean result is \<open>FRet b\<close> on top of the frame that consumes it.

  Frames beyond the package: \<open>FTask\<close>/\<open>FGo\<close> are the use that \<open>impl.Call\<close>/\<open>impl.Go\<close> (stopper.go) make
  of \<open>Apply\<close>, \<open>FCleanup\<close> is the cancel closure of \<open>newContext\<close>, \<open>FHooks\<close> a range over stop hooks,
  each of which is \<open>func() { s.Stop() }\<close>. User code (\<open>FUser\<close>, \<open>FUserCb\<close>) may do any sequence of API
  calls. The setup phase of middleware counts as user code of the task; in \<open>Go\<close> it runs in the caller, and if
  it panics there the unit is never given back (Stopper, \<open>go_setup_panic_leaks\<close>): here, a task that
  never returns. States live in a heap indexed by \<open>sid\<close>; their contexts' cancellation causes lie beside it.
\<close>

datatype frame =
    FApply sid int
  | FApplyLock sid int
  | FRet bool
  | FIgnore
  | FTask sid
  | FGo sid
  | FRun sid "callback list"
  | FUser
  | FUserCb sid fid
  | FAddErrors sid "goerr option list"
  | FStop sid int
  | FStopOnIdle sid int
  | FDefer sid fid
  | FHooks "(sid \<times> hook) list"
  | FHook sid sid hook
  | FUnhook sid sid
  | FUnhookLock sid sid
  | FCleanup sid goerr
  | FCancelCtx sid goerr
  | FTimer sid
  | FPanic crash

datatype event = EvRan sid fid | EvCancel sid goerr

record 'cfg shared =
  sh_heap :: "'cfg gostate list"
  sh_cause :: "goerr option list"
  sh_now :: int
  sh_trace :: "event list"

abbreviation st_at :: "'cfg shared \<Rightarrow> sid \<Rightarrow> 'cfg gostate" where
  "st_at w s \<equiv> sh_heap w ! s"

definition put_st :: "'cfg shared \<Rightarrow> sid \<Rightarrow> 'cfg gostate \<Rightarrow> 'cfg shared" where
  "put_st w s x = w\<lparr>sh_heap := (sh_heap w)[s := x]\<rparr>"

abbreviation parents :: "'cfg shared \<Rightarrow> sid option list" where
  "parents w \<equiv> map st_parent (sh_heap w)"

section \<open>The tree of states and their contexts\<close>

text \<open>The ancestors of a state, itself first; a parent is always older than its children.\<close>

function ancs :: "sid option list \<Rightarrow> sid \<Rightarrow> sid list" where
  "ancs ps s =
     (if s < length ps then
        s # (case ps ! s of None \<Rightarrow> [] | Some p \<Rightarrow> if p < s then ancs ps p else [])
      else [])"
  by pat_completeness auto
termination
  by (relation "measure (\<lambda>(ps, s). s)") auto

declare ancs.simps [simp del]

text \<open>
  \<open>context.Cause\<close>: a context's own cause, else its parent context's. \<open>cancel(err)\<close> of
  \<open>context.WithCancelCause\<close> has no effect on a context that is already canceled.
\<close>

function eff_cause :: "sid option list \<Rightarrow> goerr option list \<Rightarrow> sid \<Rightarrow> goerr option" where
  "eff_cause ps cs s =
     (if s < length cs \<and> s < length ps then
        (case cs ! s of
           Some e \<Rightarrow> Some e
         | None \<Rightarrow> (case ps ! s of
                     None \<Rightarrow> None
                   | Some p \<Rightarrow> if p < s then eff_cause ps cs p else None))
      else None)"
  by pat_completeness auto
termination
  by (relation "measure (\<lambda>(ps, cs, s). s)") auto

declare eff_cause.simps [simp del]

definition context_cause :: "'cfg shared \<Rightarrow> sid \<Rightarrow> goerr option" where
  "context_cause w s = eff_cause (parents w) (sh_cause w) s"

definition cancel_ctx :: "sid \<Rightarrow> goerr \<Rightarrow> 'cfg shared \<Rightarrow> 'cfg shared" where
  "cancel_ctx s e w =
     (if context_cause w s = None then w\<lparr>sh_cause := (sh_cause w)[s := Some e]\<rparr> else w)"

section \<open>One action of a goroutine\<close>

definition after_lock ::
  "'cfg shared \<Rightarrow> sid \<Rightarrow> crash + ('cfg gostate \<times> callback list) \<Rightarrow> frame list
     \<Rightarrow> 'cfg shared \<times> frame list" where
  "after_lock w s r k =
     (case r of
        Inl c \<Rightarrow> (w, FPanic c # k)
      | Inr (s', cbs) \<Rightarrow> (put_st w s s', FRun s (rev cbs) # k))"

text \<open>\<open>Apply\<close>: the early returns, then the parent's \<open>Apply\<close> before the own critical section.\<close>

definition apply_enter :: "'cfg shared \<Rightarrow> sid \<Rightarrow> int \<Rightarrow> frame list \<Rightarrow> frame list" where
  "apply_enter w s delta k =
     (if delta = 0 then FRet False # k
      else if is_stopping (st_at w s) \<and> 0 < delta then FRet False # k
      else case parent_of (st_at w s) of
             Some p \<Rightarrow> FApply p delta # FApplyLock s delta # k
           | None \<Rightarrow> FRet True # FApplyLock s delta # k)"

definition apply_resume ::
  "'cfg shared \<Rightarrow> bool \<Rightarrow> sid \<Rightarrow> int \<Rightarrow> frame list \<Rightarrow> 'cfg shared \<times> frame list" where
  "apply_resume w accepted s delta k =
     (if \<not> accepted then (w, FRet False # k)
      else case apply_locked (sh_now w) delta (st_at w s) of
             Inl c \<Rightarrow> (w, FPanic c # k)
           | Inr (s', deferred, r) \<Rightarrow> (put_st w s s', FRun s (rev deferred) # FRet r # k))"

text \<open>\<open>callDeferred\<close>: the callbacks in execution order, each in a panic handler.\<close>

fun run_callback ::
  "'cfg shared \<Rightarrow> sid \<Rightarrow> callback \<Rightarrow> frame list \<Rightarrow> 'cfg shared \<times> frame list" where
  "run_callback w s (CbUser f) k = (w\<lparr>sh_trace := sh_trace w @ [EvRan s f]\<rparr>, FUserCb s f # k)"
| "run_callback w s (CbCancel (Cleanup t) e) k = (w, FCleanup t e # k)"
| "run_callback w s (CbHooks hs) k = (w, FHooks hs # k)"
| "run_callback w s (CbParentApply p d) k = (w, FApply p d # FIgnore # k)"

definition run_deferred ::
  "'cfg shared \<Rightarrow> sid \<Rightarrow> callback list \<Rightarrow> frame list \<Rightarrow> 'cfg shared \<times> frame list" where
  "run_deferred w s cbs k =
     (case cbs of [] \<Rightarrow> (w, k) | cb # cs \<Rightarrow> run_callback w s cb (FRun s cs # k))"

text \<open>What follows a boolean result: \<open>impl.Call\<close> runs its task in place, \<open>impl.Go\<close> in a goroutine.\<close>

fun exec_ret ::
  "'cfg shared \<Rightarrow> bool \<Rightarrow> frame list \<Rightarrow> ('cfg shared \<times> frame list \<times> frame list list) option" where
  "exec_ret w b (FApplyLock s d # k) =
     (case apply_resume w b s d k of (w', k') \<Rightarrow> Some (w', k', []))"
| "exec_ret w b (FIgnore # k) = Some (w, k, [])"
| "exec_ret w b (FTask s # k) =
     (if b then Some (w, FUser # FApply s (- 1) # FIgnore # k, []) else Some (w, k, []))"
| "exec_ret w b (FGo s # k) =
     (if b then Some (w, k, [[FUser, FApply s (- 1), FIgnore]]) else Some (w, k, []))"
| "exec_ret w b _ = None"

definition add_deferred_frames ::
  "'cfg shared \<Rightarrow> sid \<Rightarrow> fid \<Rightarrow> frame list \<Rightarrow> 'cfg shared \<times> frame list" where
  "add_deferred_frames w s f k =
     (case add_deferred f (st_at w s) of
        (True, s') \<Rightarrow> (put_st w s s', k)
      | (False, s') \<Rightarrow>
          ((put_st w s s')\<lparr>sh_trace := sh_trace w @ [EvRan s f]\<rparr>, FUserCb s f # k))"

definition run_hooks :: "(sid \<times> hook) list \<Rightarrow> frame list \<Rightarrow> frame list" where
  "run_hooks hs k =
     (case hs of [] \<Rightarrow> k | (c, StopImpl t g) # hs' \<Rightarrow> FStop t g # FHooks hs' # k)"

definition add_stop_hook_frames ::
  "'cfg shared \<Rightarrow> sid \<Rightarrow> sid \<Rightarrow> hook \<Rightarrow> frame list \<Rightarrow> 'cfg shared \<times> frame list" where
  "add_stop_hook_frames w s child fn k =
     (case add_stop_hook_locked child fn (st_at w s) of
        (True, s') \<Rightarrow> (put_st w s s', k)
      | (False, s') \<Rightarrow> (put_st w s s', FHooks [(child, fn)] # k))"

text \<open>
  \<open>cleanup\<close> of \<open>newContext\<close>: cancel the hook at the parent, then the context. The pointer to the hook's
  cancel function is stored after \<open>AddStopHook\<close>; before that only the parent's own stop gets here, and
  with the parent stopping the hook's cancel function does nothing. Disarming the watcher, which comes
  first, is in Machine\_Watch.
\<close>

definition cleanup_frames :: "'cfg shared \<Rightarrow> sid \<Rightarrow> goerr \<Rightarrow> frame list \<Rightarrow> frame list" where
  "cleanup_frames w s e k =
     (case parent_of (st_at w s) of
        None \<Rightarrow> FCancelCtx s e # k
      | Some p \<Rightarrow> FUnhook p s # FCancelCtx s e # k)"

fun exec_frame ::
  "'cfg shared \<Rightarrow> frame \<Rightarrow> frame list
     \<Rightarrow> ('cfg shared \<times> frame list \<times> frame list list) option" where
  "exec_frame w (FApply s d) k = Some (w, apply_enter w s d k, [])"
| "exec_frame w (FRet b) k = exec_ret w b k"
| "exec_frame w (FRun s cbs) k =
     (case run_deferred w s cbs k of (w', k') \<Rightarrow> Some (w', k', []))"
| "exec_frame w (FAddErrors s es) k = Some (put_st w s (add_errors es (st_at w s)), k, [])"
| "exec_frame w (FStop s g) k =
     (case after_lock w s (stop_locked (sh_now w) g (st_at w s)) k of (w', k') \<Rightarrow> Some (w', k', []))"
| "exec_frame w (FStopOnIdle s g) k =
     (case after_lock w s (stop_on_idle_locked (sh_now w) g (st_at w s)) k of
        (w', k') \<Rightarrow> Some (w', k', []))"
| "exec_frame w (FDefer s f) k =
     (case add_deferred_frames w s f k of (w', k') \<Rightarrow> Some (w', k', []))"
| "exec_frame w (FHooks hs) k = Some (w, run_hooks hs k, [])"
| "exec_frame w (FHook s c h) k =
     (case add_stop_hook_frames w s c h k of (w', k') \<Rightarrow> Some (w', k', []))"
| "exec_frame w (FUnhook s c) k =
     Some (w, if unhook_disarmed (st_at w s) then k else FUnhookLock s c # k, [])"
| "exec_frame w (FUnhookLock s c) k = Some (put_st w s (unhook_locked c (st_at w s)), k, [])"
| "exec_frame w (FCleanup s e) k = Some (w, cleanup_frames w s e k, [])"
| "exec_frame w (FCancelCtx s e) k =
     Some ((cancel_ctx s e w)\<lparr>sh_trace := sh_trace w @ [EvCancel s e]\<rparr>, k, [])"
| "exec_frame w (FTimer s) k =
     (case after_lock w s (Inr (grace_timer_locked (st_at w s))) k of (w', k') \<Rightarrow> Some (w', k', []))"
| "exec_frame w _ k = None"

definition micro ::
  "'cfg shared \<Rightarrow> frame list \<Rightarrow> ('cfg shared \<times> frame list \<times> frame list list) option" where
  "micro w stack = (case stack of [] \<Rightarrow> None | f # k \<Rightarrow> exec_frame w f k)"

section \<open>Interleaving\<close>

text \<open>The calls user code can make, as the frames they push.\<close>

inductive api_call :: "'cfg shared \<Rightarrow> frame list \<Rightarrow> bool" where
  "s < length (sh_heap w) \<Longrightarrow> api_call w [FApply s 1, FTask s]"
| "s < length (sh_heap w) \<Longrightarrow> api_call w [FApply s 1, FGo s]"
| "s < length (sh_heap w) \<Longrightarrow> api_call w [FStop s g]"
| "s < length (sh_heap w) \<Longrightarrow> api_call w [FStopOnIdle s g]"
| "s < length (sh_heap w) \<Longrightarrow> api_call w [FDefer s f]"
| "s < length (sh_heap w) \<Longrightarrow> api_call w [FAddErrors s es]"

fun is_user :: "frame \<Rightarrow> bool" where
  "is_user FUser = True"
| "is_user (FUserCb _ _) = True"
| "is_user _ = False"

type_synonym 'cfg conf = "'cfg shared \<times> frame list list"

definition init_conf :: "'cfg conf" where
  "init_conf = (\<lparr>sh_heap = [], sh_cause = [], sh_now = 0, sh_trace = []\<rparr>, [])"

definition alloc_state :: "'cfg \<Rightarrow> sid option \<Rightarrow> 'cfg shared \<Rightarrow> 'cfg shared" where
  "alloc_state cfg p w =
     w\<lparr>sh_heap := sh_heap w @ [new_state (Cleanup (length (sh_heap w))) cfg p],
       sh_cause := sh_cause w @ [None]\<rparr>"

text \<open>
  One step of the program: a goroutine takes one action (\<open>act\<close>); a range over hooks continues in any
  order (\<open>reorder\<close>); user code calls the API, starts a root or a child context, or ends with any
  outcome; a goroutine starts; a due timer fires; time passes; a context outside the stopper's
  control is canceled.
\<close>

inductive gstep :: "'cfg conf \<Rightarrow> 'cfg conf \<Rightarrow> bool" where
  act: "i < length P \<Longrightarrow> micro w (P ! i) = Some (w', k', sp) \<Longrightarrow> gstep (w, P) (w', P[i := k'] @ sp)"
| reorder: "i < length P \<Longrightarrow> P ! i = FHooks hs # k \<Longrightarrow> mset hs' = mset hs \<Longrightarrow>
     gstep (w, P) (w, P[i := FHooks hs' # k])"
| user_call: "i < length P \<Longrightarrow> P ! i = f # k \<Longrightarrow> is_user f \<Longrightarrow> api_call w fs \<Longrightarrow>
     gstep (w, P) (w, P[i := fs @ f # k])"
| user_root: "i < length P \<Longrightarrow> P ! i = f # k \<Longrightarrow> is_user f \<Longrightarrow>
     gstep (w, P) (alloc_state cfg None w, P)"
| user_child: "i < length P \<Longrightarrow> P ! i = f # k \<Longrightarrow> is_user f \<Longrightarrow> p < length (sh_heap w) \<Longrightarrow>
     gstep (w, P) (alloc_state cfg (Some p) w,
       P[i := FHook p (length (sh_heap w)) (StopImpl (length (sh_heap w)) g) # f # k])"
| user_done: "i < length P \<Longrightarrow> P ! i = FUser # k \<Longrightarrow> gstep (w, P) (w, P[i := k])"
| callback_done: "i < length P \<Longrightarrow> P ! i = FUserCb s f # k \<Longrightarrow>
     snd (call_e pcs (\<lambda>u. (u, out)) ()) = e \<Longrightarrow>
     gstep (w, P) (w, P[i := (if e = None then k else FAddErrors s [e] # k)])"
| spawn: "gstep (w, P) (w, P @ [[FUser]])"
| timer: "s < length (sh_heap w) \<Longrightarrow> i < length (rt_timers (st_at w s)) \<Longrightarrow>
     tm_active (rt_timers (st_at w s) ! i) \<Longrightarrow> tm_deadline (rt_timers (st_at w s) ! i) \<le> sh_now w \<Longrightarrow>
     gstep (w, P) (put_st w s (fire_timer i (st_at w s)), P @ [[FTimer s]])"
| tick: "sh_now w \<le> t \<Longrightarrow> gstep (w, P) (w\<lparr>sh_now := t\<rparr>, P)"
| outside_cancel: "s < length (sh_heap w) \<Longrightarrow> gstep (w, P) (cancel_ctx s e w, P)"

end
