(* ===== verification/Machine_Inv.thy ===== *)
theory Machine_Inv
  imports Machine
begin

text \<open>
  The accounting invariant of the interleaved machine. Every goroutine owes each state some part of
  its task count, readable off the goroutine's stack: a task still running owes one unit to its
  state and to every ancestor, an increment in flight owes the ancestors it has already passed, a
  decrement in flight the states it has still to pass. The invariant says that each count is the
  sum of what the goroutines owe; that no goroutine has panicked follows.
\<close>

section \<open>Ancestors\<close>

lemma ancs_out [simp]: "length ps \<le> s \<Longrightarrow> ancs ps s = []"
  by (subst ancs.simps) simp

lemma ancs_root: "s < length ps \<Longrightarrow> ps ! s = None \<Longrightarrow> ancs ps s = [s]"
  by (subst ancs.simps) simp

lemma ancs_child: "s < length ps \<Longrightarrow> ps ! s = Some p \<Longrightarrow> p < s \<Longrightarrow> ancs ps s = s # ancs ps p"
  by (subst ancs.simps) simp

lemma ancs_self: "s < length ps \<Longrightarrow> s \<in> set (ancs ps s)"
  by (subst ancs.simps) simp

lemma mem_ancs:
  "a \<in> set (ancs ps s) \<longleftrightarrow>
     s < length ps \<and> (a = s \<or> (\<exists>p. ps ! s = Some p \<and> p < s \<and> a \<in> set (ancs ps p)))"
  by (cases "s < length ps"; cases "ps ! s") (auto simp: ancs.simps [of ps s])

lemma ancs_le: "a \<in> set (ancs ps s) \<Longrightarrow> a \<le> s"
proof (induction ps s arbitrary: a rule: ancs.induct)
  case (1 ps s)
  from 1(2) [unfolded mem_ancs [of a ps s]] show ?case
    using 1(1) by fastforce
qed

lemma ancs_append [simp]: "s < length ps \<Longrightarrow> ancs (ps @ qs) s = ancs ps s"
proof (induction ps s rule: ancs.induct)
  case (1 ps s)
  then show ?case
    by (subst (1 2) ancs.simps) (auto simp: nth_append split: option.splits)
qed

lemma ancs_trans: "a \<in> set (ancs ps b) \<Longrightarrow> b \<in> set (ancs ps s) \<Longrightarrow> a \<in> set (ancs ps s)"
proof (induction ps s arbitrary: a b rule: ancs.induct)
  case (1 ps s)
  show ?case
  proof (cases "b = s")
    case True
    with 1 show ?thesis by simp
  next
    case False
    from 1(3) [unfolded mem_ancs [of b ps s]] False
    obtain p where p: "s < length ps" "ps ! s = Some p" "p < s" "b \<in> set (ancs ps p)" by blast
    with 1(1) [OF p(1,2,3) 1(2) p(4)] show ?thesis by (simp add: ancs_child)
  qed
qed

definition sancs :: "sid option list \<Rightarrow> sid \<Rightarrow> sid list" where
  "sancs ps s = tl (ancs ps s)"

lemma sancs_root [simp]: "s < length ps \<Longrightarrow> ps ! s = None \<Longrightarrow> sancs ps s = []"
  by (simp add: sancs_def ancs_root)

lemma sancs_child: "s < length ps \<Longrightarrow> ps ! s = Some p \<Longrightarrow> p < s \<Longrightarrow> sancs ps s = ancs ps p"
  by (simp add: sancs_def ancs_child)

lemma sancs_append [simp]: "s < length ps \<Longrightarrow> sancs (ps @ qs) s = sancs ps s"
  by (simp add: sancs_def)

lemma ancs_sancs: "s < length ps \<Longrightarrow> set (ancs ps s) = insert s (set (sancs ps s))"
  by (subst ancs.simps) (auto simp: sancs_def ancs.simps [of ps s])

lemma sancs_le: "a \<in> set (sancs ps s) \<Longrightarrow> a \<le> s"
  using ancs_le [of a ps s] by (cases "ancs ps s") (auto simp: sancs_def)

definition wf_parents :: "sid option list \<Rightarrow> bool" where
  "wf_parents ps \<longleftrightarrow> (\<forall>s<length ps. \<forall>p. ps ! s = Some p \<longrightarrow> p < s)"

lemma wf_parentsD: "wf_parents ps \<Longrightarrow> s < length ps \<Longrightarrow> ps ! s = Some p \<Longrightarrow> p < s \<and> p < length ps"
  unfolding wf_parents_def using less_trans by blast

lemma sancs_not_self: "wf_parents ps \<Longrightarrow> s \<notin> set (sancs ps s)"
proof (cases "s < length ps")
  case True
  assume w: "wf_parents ps"
  show ?thesis
  proof (cases "ps ! s")
    case None
    with True show ?thesis by simp
  next
    case (Some p)
    with True w have "p < s" by (blast dest: wf_parentsD)
    with True Some show ?thesis by (auto simp: sancs_child dest: ancs_le)
  qed
qed (simp add: sancs_def)

section \<open>What a goroutine owes\<close>

fun cb_owes :: "sid option list \<Rightarrow> sid \<Rightarrow> callback \<Rightarrow> int" where
  "cb_owes ps a (CbParentApply p d) = (if d < 0 \<and> a \<in> set (ancs ps p) then - d else 0)"
| "cb_owes ps a _ = 0"

fun ret_owes :: "sid option list \<Rightarrow> sid \<Rightarrow> bool \<Rightarrow> frame list \<Rightarrow> int" where
  "ret_owes ps a b (FApplyLock t d # k) = (if b \<and> 0 < d \<and> a \<in> set (sancs ps t) then d else 0)"
| "ret_owes ps a b (FTask t # k) = (if b \<and> a \<in> set (ancs ps t) then 1 else 0)"
| "ret_owes ps a b (FGo t # k) = (if b \<and> a \<in> set (ancs ps t) then 1 else 0)"
| "ret_owes ps a b _ = 0"

fun frame_owes :: "sid option list \<Rightarrow> sid \<Rightarrow> frame \<Rightarrow> frame list \<Rightarrow> int" where
  "frame_owes ps a (FApply t d) k = (if d < 0 \<and> a \<in> set (ancs ps t) then - d else 0)"
| "frame_owes ps a (FApplyLock t d) k = (if d < 0 \<and> a = t then - d else 0)"
| "frame_owes ps a (FRet b) k = ret_owes ps a b k"
| "frame_owes ps a (FRun t cbs) k = sum_list (map (cb_owes ps a) cbs)"
| "frame_owes ps a _ k = 0"

fun owes :: "sid option list \<Rightarrow> sid \<Rightarrow> frame list \<Rightarrow> int" where
  "owes ps a [] = 0"
| "owes ps a (f # k) = frame_owes ps a f k + owes ps a k"

lemma cb_owes_nonneg [simp]: "0 \<le> cb_owes ps a cb"
  by (cases cb) auto

lemma ret_owes_nonneg [simp]: "0 \<le> ret_owes ps a b k"
  by (cases "(ps, a, b, k)" rule: ret_owes.cases) auto

lemma frame_owes_nonneg [simp]: "0 \<le> frame_owes ps a f k"
  by (cases f) (auto intro!: sum_list_nonneg)

lemma owes_nonneg [simp]: "0 \<le> owes ps a k"
  by (induction k) (auto intro: add_nonneg_nonneg)

section \<open>Well-formed stacks\<close>

text \<open>The frame under a call of \<open>Apply(t, d)\<close> is one that expects its result.\<close>

fun ok_ret :: "sid option list \<Rightarrow> sid \<Rightarrow> int \<Rightarrow> frame list \<Rightarrow> bool" where
  "ok_ret ps t d (FApplyLock u e # k) \<longleftrightarrow> e = d \<and> u < length ps \<and> ps ! u = Some t"
| "ok_ret ps t d (FTask u # k) \<longleftrightarrow> u = t \<and> d = 1"
| "ok_ret ps t d (FGo u # k) \<longleftrightarrow> u = t \<and> d = 1"
| "ok_ret ps t d (FIgnore # k) \<longleftrightarrow> d < 0"
| "ok_ret ps t d _ \<longleftrightarrow> False"

fun ok_result :: "bool \<Rightarrow> frame list \<Rightarrow> bool" where
  "ok_result b (FApplyLock u d # k) \<longleftrightarrow> b \<or> 0 < d"
| "ok_result b (FTask u # k) \<longleftrightarrow> True"
| "ok_result b (FGo u # k) \<longleftrightarrow> True"
| "ok_result b (FIgnore # k) \<longleftrightarrow> True"
| "ok_result b _ \<longleftrightarrow> False"

fun ok_hook :: "nat \<Rightarrow> sid \<times> hook \<Rightarrow> bool" where
  "ok_hook n (c, StopImpl t g) \<longleftrightarrow> c < n \<and> t = c"

fun ok_cb :: "nat \<Rightarrow> callback \<Rightarrow> bool" where
  "ok_cb n (CbUser f) \<longleftrightarrow> True"
| "ok_cb n (CbCancel (Cleanup t) e) \<longleftrightarrow> t < n"
| "ok_cb n (CbHooks hs) \<longleftrightarrow> (\<forall>h\<in>set hs. ok_hook n h)"
| "ok_cb n (CbParentApply p d) \<longleftrightarrow> p < n \<and> d = - 1"

fun ok_frame :: "sid option list \<Rightarrow> frame \<Rightarrow> frame list \<Rightarrow> bool" where
  "ok_frame ps (FApply t d) k \<longleftrightarrow> t < length ps \<and> (d = 1 \<or> d = - 1) \<and> ok_ret ps t d k"
| "ok_frame ps (FApplyLock t d) k \<longleftrightarrow> t < length ps \<and> (d = 1 \<or> d = - 1) \<and> ok_ret ps t d k"
| "ok_frame ps (FRet b) k \<longleftrightarrow> ok_result b k"
| "ok_frame ps FIgnore k \<longleftrightarrow> True"
| "ok_frame ps (FTask t) k \<longleftrightarrow> t < length ps"
| "ok_frame ps (FGo t) k \<longleftrightarrow> t < length ps"
| "ok_frame ps (FRun t cbs) k \<longleftrightarrow> t < length ps \<and> (\<forall>cb\<in>set cbs. ok_cb (length ps) cb)"
| "ok_frame ps FUser k \<longleftrightarrow> True"
| "ok_frame ps (FUserCb t f) k \<longleftrightarrow> t < length ps"
| "ok_frame ps (FAddErrors t es) k \<longleftrightarrow> t < length ps"
| "ok_frame ps (FStop t g) k \<longleftrightarrow> t < length ps"
| "ok_frame ps (FStopOnIdle t g) k \<longleftrightarrow> t < length ps"
| "ok_frame ps (FDefer t f) k \<longleftrightarrow> t < length ps"
| "ok_frame ps (FHooks hs) k \<longleftrightarrow> (\<forall>h\<in>set hs. ok_hook (length ps) h)"
| "ok_frame ps (FHook p c h) k \<longleftrightarrow> p < length ps \<and> ok_hook (length ps) (c, h)"
| "ok_frame ps (FUnhook p c) k \<longleftrightarrow> p < length ps"
| "ok_frame ps (FUnhookLock p c) k \<longleftrightarrow> p < length ps"
| "ok_frame ps (FCleanup t e) k \<longleftrightarrow> t < length ps"
| "ok_frame ps (FCancelCtx t e) k \<longleftrightarrow> t < length ps"
| "ok_frame ps (FTimer t) k \<longleftrightarrow> t < length ps"
| "ok_frame ps (FPanic c) k \<longleftrightarrow> False"

fun wf_stack :: "sid option list \<Rightarrow> frame list \<Rightarrow> bool" where
  "wf_stack ps [] \<longleftrightarrow> True"
| "wf_stack ps (f # k) \<longleftrightarrow> ok_frame ps f k \<and> wf_stack ps k"

lemma ok_ret_result: "ok_ret ps t d k \<Longrightarrow> b \<or> 0 < d \<Longrightarrow> ok_result b k"
  by (cases "(ps, t, d, k)" rule: ok_ret.cases) auto

text \<open>Growing the heap disturbs nothing that is already there.\<close>

lemma ok_hook_mono: "ok_hook n h \<Longrightarrow> n \<le> m \<Longrightarrow> ok_hook m h"
  by (cases "(n, h)" rule: ok_hook.cases) auto

lemma ok_cb_mono: "ok_cb n cb \<Longrightarrow> n \<le> m \<Longrightarrow> ok_cb m cb"
  by (cases "(n, cb)" rule: ok_cb.cases) (auto intro: ok_hook_mono)

lemma ok_ret_append: "ok_ret ps t d k \<Longrightarrow> ok_ret (ps @ qs) t d k"
  by (cases "(ps, t, d, k)" rule: ok_ret.cases) (auto simp: nth_append)

lemma ok_frame_append: "ok_frame ps f k \<Longrightarrow> ok_frame (ps @ qs) f k"
  by (cases f) (auto intro: ok_ret_append ok_hook_mono ok_cb_mono)

lemma wf_stack_append: "wf_stack ps k \<Longrightarrow> wf_stack (ps @ qs) k"
  by (induction k) (auto intro: ok_frame_append)

lemma cb_owes_append: "ok_cb (length ps) cb \<Longrightarrow> cb_owes (ps @ qs) a cb = cb_owes ps a cb"
  by (cases cb) auto

lemma frame_owes_append:
  "wf_stack ps (f # k) \<Longrightarrow> frame_owes (ps @ qs) a f k = frame_owes ps a f k"
proof (cases f)
  case (FRet b)
  assume "wf_stack ps (f # k)"
  with FRet show ?thesis by (cases "(ps, a, b, k)" rule: ret_owes.cases) auto
next
  case (FRun t cbs)
  assume "wf_stack ps (f # k)"
  with FRun have "map (cb_owes (ps @ qs) a) cbs = map (cb_owes ps a) cbs"
    by (intro map_cong) (auto intro: cb_owes_append)
  with FRun show ?thesis by (simp only: frame_owes.simps)
qed auto

lemma owes_append: "wf_stack ps k \<Longrightarrow> owes (ps @ qs) a k = owes ps a k"
  by (induction k) (use frame_owes_append in auto)

lemma cb_owes_old: "ok_cb (length ps) cb \<Longrightarrow> length ps \<le> a \<Longrightarrow> cb_owes ps a cb = 0"
  by (cases cb) (auto dest: ancs_le)

lemma frame_owes_old: "wf_stack ps (f # k) \<Longrightarrow> length ps \<le> a \<Longrightarrow> frame_owes ps a f k = 0"
proof (cases f)
  case (FRet b)
  assume "wf_stack ps (f # k)" "length ps \<le> a"
  with FRet show ?thesis
    by (cases "(ps, a, b, k)" rule: ret_owes.cases)
      (auto dest!: ancs_le sancs_le)
next
  case (FRun t cbs)
  assume "wf_stack ps (f # k)" "length ps \<le> a"
  with FRun have "\<forall>cb\<in>set cbs. cb_owes ps a cb = 0" by (auto intro: cb_owes_old)
  with FRun show ?thesis by (simp cong: map_cong)
qed (auto dest: ancs_le)

lemma owes_old: "wf_stack ps k \<Longrightarrow> length ps \<le> a \<Longrightarrow> owes ps a k = 0"
  by (induction k) (use frame_owes_old in auto)

section \<open>Well-formed heaps\<close>

definition hooks_of :: "'cfg gostate \<Rightarrow> (sid \<times> hook) list" where
  "hooks_of st = (case mu_stopHooks st of None \<Rightarrow> [] | Some h \<Rightarrow> h)"

definition ok_state :: "nat \<Rightarrow> sid \<Rightarrow> 'cfg gostate \<Rightarrow> bool" where
  "ok_state n s st \<longleftrightarrow> wf_state st \<and> (\<forall>c. mu_cancel st = Some c \<longrightarrow> c = Cleanup s)
     \<and> (\<forall>h\<in>set (hooks_of st). ok_hook n h)"

definition wf_heap :: "'cfg shared \<Rightarrow> bool" where
  "wf_heap w \<longleftrightarrow> length (sh_cause w) = length (sh_heap w) \<and> wf_parents (parents w)
     \<and> (\<forall>s<length (sh_heap w). ok_state (length (sh_heap w)) s (st_at w s))"

text \<open>What every critical section guarantees to the machine.\<close>

definition section_ok ::
  "nat \<Rightarrow> sid \<Rightarrow> 'cfg gostate \<Rightarrow> 'cfg gostate \<Rightarrow> callback list \<Rightarrow> bool" where
  "section_ok n s st st' cbs \<longleftrightarrow> ok_state n s st' \<and> st_parent st' = st_parent st
     \<and> (mu_stopping st \<longrightarrow> mu_stopping st')
     \<and> (\<forall>cb\<in>set cbs. ok_cb n cb \<and> (\<forall>p d. cb \<noteq> CbParentApply p d))"

lemma hooks_of_prepared: "hooks_of (soft_prepared st) = []"
  by (auto simp: hooks_of_def soft_prepared_def split: option.splits list.splits)

lemma ok_soft_hooks: "\<forall>h\<in>set (hooks_of st). ok_hook n h \<Longrightarrow> cb \<in> set (soft_hooks st) \<Longrightarrow>
    ok_cb n cb \<and> (\<forall>p d. cb \<noteq> CbParentApply p d)"
  by (cases "mu_stopHooks st"; cases "hooks_of st") (auto simp: soft_hooks_def hooks_of_def)

lemma hard_stop_cbs:
  assumes "hard_stop_locked e st = (t, cbs)" and "\<forall>c. mu_cancel st = Some c \<longrightarrow> c = Cleanup s" and "s < n"
  shows "\<forall>cb\<in>set cbs. ok_cb n cb \<and> (\<forall>p d. cb \<noteq> CbParentApply p d)"
  using hard_stop_fields(11) [OF assms(1)] assms(2,3) by (auto split: option.splits)

lemma soft_stop_section:
  assumes "wf_core st" and "soft_stop_locked now g st = Inr (t, cbs)" and "s < n"
    and "\<forall>c. mu_cancel st = Some c \<longrightarrow> c = Cleanup s" and "\<forall>h\<in>set (hooks_of st). ok_hook n h"
  shows "section_ok n s st t cbs"
proof -
  have w: "wf_state t" using soft_stop_wf [OF assms(1,2)] .
  have f: "mu_stopping t" "st_parent t = st_parent st" "mu_stopHooks t = mu_stopHooks (soft_prepared st)"
    using soft_stop_fields [OF assms(1,2)] by simp_all
  then have h: "hooks_of t = []" using hooks_of_prepared [of st] by (simp add: hooks_of_def)
  have "(\<forall>c. mu_cancel t = Some c \<longrightarrow> c = Cleanup s)
      \<and> (\<forall>cb\<in>set cbs. ok_cb n cb \<and> (\<forall>p d. cb \<noteq> CbParentApply p d))"
    using assms(1)
  proof (cases rule: soft_stop_cases [of _ now g])
    case (hard e u d)
    have "\<forall>c. mu_cancel (soft_prepared st) = Some c \<longrightarrow> c = Cleanup s" using assms(4) by simp
    from hard_stop_cbs [OF hard(2) this assms(3)] hard hard_stop_fields(4) [OF hard(2)]
      ok_soft_hooks [OF assms(5)] assms(2) show ?thesis by auto
  next
    case timer
    with ok_soft_hooks [OF assms(5)] assms(2,4) show ?thesis by auto
  qed
  with w f h show ?thesis by (simp add: section_ok_def ok_state_def)
qed

lemma ok_stateD:
  assumes "ok_state n s st"
  shows "wf_state st" "wf_core st" "\<forall>c. mu_cancel st = Some c \<longrightarrow> c = Cleanup s"
    "\<forall>h\<in>set (hooks_of st). ok_hook n h"
  using assms wf_state_core by (auto simp: ok_state_def)

lemma hooks_of_frame [simp]:
  "hooks_of (st\<lparr>mu_count := c\<rparr>) = hooks_of st" "hooks_of (st\<lparr>mu_deferred := fs\<rparr>) = hooks_of st"
  "hooks_of (st\<lparr>mu_stopOnIdle := g\<rparr>) = hooks_of st"
  by (simp_all add: hooks_of_def)

lemma stop_section:
  "ok_state n s st \<Longrightarrow> stop_locked now g st = Inr (t, cbs) \<Longrightarrow> s < n \<Longrightarrow> section_ok n s st t cbs"
  unfolding stop_locked_def by (rule soft_stop_section) (auto dest: ok_stateD)

lemma stop_on_idle_section:
  assumes "ok_state n s st" and "stop_on_idle_locked now g st = Inr (t, cbs)" and "s < n"
  shows "section_ok n s st t cbs"
proof (cases "mu_count st = 0")
  case True
  with assms(2) have "soft_stop_locked now g (st\<lparr>mu_stopOnIdle := Some g\<rparr>) = Inr (t, cbs)"
    by (simp add: stop_on_idle_locked_def)
  from soft_stop_section [OF wf_core_idle [OF ok_stateD(2) [OF assms(1)]] this assms(3)]
    ok_stateD [OF assms(1)] show ?thesis by (simp add: section_ok_def)
next
  case False
  with assms(2) have "t = st\<lparr>mu_stopOnIdle := Some g\<rparr>" "cbs = []"
    by (auto simp: stop_on_idle_locked_def)
  moreover have "wf_state t"
    using stop_on_idle_wf [OF ok_stateD(1) [OF assms(1)] assms(2)] .
  ultimately show ?thesis using assms(1) by (simp add: section_ok_def ok_state_def)
qed

lemma apply_section:
  assumes "ok_state n s st" and "apply_locked now d st = Inr (t, cbs, True)" and "s < n"
  shows "section_ok n s st t cbs"
proof -
  have w: "wf_state t" using apply_locked_wf [OF ok_stateD(1) [OF assms(1)] assms(2)] .
  have w0: "wf_core (st\<lparr>mu_count := 0\<rparr>)" using wf_core_count [OF ok_stateD(2) [OF assms(1)]] by simp
  from ok_stateD(2) [OF assms(1)] show ?thesis
  proof (cases rule: apply_locked_cases [of _ d now])
    case plain
    with assms(2) have "t = st\<lparr>mu_count := mu_count st + d\<rparr>" "cbs = []" by auto
    with w assms(1) show ?thesis by (simp add: section_ok_def ok_state_def)
  next
    case (idle g u c)
    with soft_stop_section [OF w0 idle(4) assms(3)] ok_stateD [OF assms(1)] assms(2)
    show ?thesis by (simp add: section_ok_def)
  next
    case (last u c)
    have tc: "t = u" "cbs = c" using last(6) assms(2) by simp_all
    have "\<forall>x. mu_cancel (st\<lparr>mu_count := 0\<rparr>) = Some x \<longrightarrow> x = Cleanup s"
      using ok_stateD(3) [OF assms(1)] by simp
    from hard_stop_cbs [OF last(5) this assms(3)] hard_stop_fields [OF last(5)] w last(4)
      ok_stateD(4) [OF assms(1)]
    show ?thesis unfolding tc by (simp add: section_ok_def ok_state_def hooks_of_def)
  qed (use assms(2) in auto)
qed

lemma grace_section:
  assumes "ok_state n s st" and "grace_timer_locked st = (t, cbs)" and "mu_stopping st" and "s < n"
  shows "section_ok n s st t cbs"
proof -
  note g = assms(2) [unfolded grace_timer_locked_def]
  have "wf_state t" using grace_timer_wf [OF ok_stateD(1) [OF assms(1)] assms(2,3)] .
  with hard_stop_fields [OF g] hard_stop_cbs [OF g ok_stateD(3) [OF assms(1)] assms(4)]
    ok_stateD(4) [OF assms(1)] show ?thesis by (simp add: section_ok_def ok_state_def hooks_of_def)
qed

lemma set_update_subset: "set (AList.update k v al) \<subseteq> insert (k, v) (set al)"
  by (induction al) auto

lemma set_delete_subset: "set (AList.delete k al) \<subseteq> set al"
  by (auto simp: AList.delete_eq)

lemma small_sections:
  assumes "ok_state n s st"
  shows "add_deferred f st = (b, t) \<Longrightarrow> section_ok n s st t []"
    and "section_ok n s st (add_errors es st) []"
    and "add_stop_hook_locked c h st = (b, t) \<Longrightarrow> ok_hook n (c, h) \<Longrightarrow> section_ok n s st t []"
    and "section_ok n s st (unhook_locked c st) []"
    and "section_ok n s st (fire_timer i st) []"
proof -
  note w = ok_stateD(1) [OF assms]
  show "add_deferred f st = (b, t) \<Longrightarrow> section_ok n s st t []"
    using assms add_deferred_wf [OF w]
    by (auto simp: section_ok_def ok_state_def add_deferred_def split: if_splits)
  show "section_ok n s st (add_errors es st) []"
    using assms by (simp add: section_ok_def ok_state_def add_errors_eq hooks_of_def)
  show "section_ok n s st (unhook_locked c st) []"
    using assms unhook_wf [OF w, of c]
    by (auto simp: section_ok_def ok_state_def unhook_locked_def hooks_of_def split: option.splits
        dest!: subsetD [OF set_delete_subset])
  show "section_ok n s st (fire_timer i st) []"
    using assms fire_timer_wf [OF w, of i] by (simp add: section_ok_def ok_state_def hooks_of_def)
  assume a: "add_stop_hook_locked c h st = (b, t)" "ok_hook n (c, h)"
  have "hooks_of t = hooks_of st \<or> hooks_of t = AList.update c h (hooks_of st)"
    using a(1) by (auto simp: add_stop_hook_locked_def hooks_of_def split: if_splits option.splits)
  then have "set (hooks_of t) \<subseteq> insert (c, h) (set (hooks_of st))"
    using set_update_subset by (metis subset_insertI)
  moreover have "mu_cancel t = mu_cancel st" "st_parent t = st_parent st" "mu_stopping t = mu_stopping st"
    using a(1) by (auto simp: add_stop_hook_locked_def Let_def split: if_splits)
  ultimately show "section_ok n s st t []"
    using assms add_stop_hook_wf [OF w a(1)] a(2) by (auto simp: section_ok_def ok_state_def)
qed

end
