(* ===== verification/Machine_Step.thy ===== *)
theory Machine_Step
  imports Machine_Inv
begin

text \<open>
  Every action of a goroutine keeps the heap and the stacks well formed and moves each task count by
  exactly the change in what the goroutine owes; every step of the interleaved machine keeps the
  accounting invariant.
\<close>

section \<open>Actions\<close>

definition good_action ::
  "'cfg shared \<Rightarrow> frame list \<Rightarrow> 'cfg shared \<Rightarrow> frame list \<Rightarrow> frame list list \<Rightarrow> bool" where
  "good_action w k w' k' sp \<longleftrightarrow>
     wf_heap w' \<and> parents w' = parents w
     \<and> wf_stack (parents w) k' \<and> (\<forall>j\<in>set sp. wf_stack (parents w) j)
     \<and> (\<forall>j\<in>set (k' # sp). \<forall>s. FTimer s \<in> set j \<longrightarrow> FTimer s \<in> set k)
     \<and> (\<forall>a<length (sh_heap w). mu_stopping (st_at w a) \<longrightarrow> mu_stopping (st_at w' a))
     \<and> (\<forall>a<length (sh_heap w). mu_count (st_at w' a) - mu_count (st_at w a)
          = owes (parents w) a k' + sum_list (map (owes (parents w) a) sp) - owes (parents w) a k)"

lemma parents_length: "parents w' = parents w \<Longrightarrow> length (sh_heap w') = length (sh_heap w)"
  by (metis length_map)

lemma put_st_fields [simp]:
  "sh_heap (put_st w s x) = (sh_heap w)[s := x]" "sh_cause (put_st w s x) = sh_cause w"
  "sh_now (put_st w s x) = sh_now w" "sh_trace (put_st w s x) = sh_trace w"
  by (simp_all add: put_st_def)

lemma put_st_parents:
  "st_parent x = st_parent (st_at w s) \<Longrightarrow> parents (put_st w s x) = parents w"
  by (cases "s < length (sh_heap w)") (auto simp: map_update list_update_same_conv list_update_beyond)

lemma put_st_wf:
  assumes "wf_heap w" and "s < length (sh_heap w)"
    and "section_ok (length (sh_heap w)) s (st_at w s) x cbs"
  shows "wf_heap (put_st w s x)"
proof -
  have p: "parents (put_st w s x) = parents w"
    using assms(3) by (intro put_st_parents) (simp add: section_ok_def)
  show ?thesis
    using assms p by (auto simp: wf_heap_def section_ok_def nth_list_update)
qed

lemma wf_heapD:
  assumes "wf_heap w" and "s < length (sh_heap w)"
  shows "ok_state (length (sh_heap w)) s (st_at w s)" "wf_state (st_at w s)" "wf_core (st_at w s)"
  using assms by (auto simp: wf_heap_def ok_state_def wf_state_core)

lemma section_no_owes: "section_ok n s st x cbs \<Longrightarrow> sum_list (map (cb_owes ps a) cbs) = 0"
proof -
  assume "section_ok n s st x cbs"
  then have "\<forall>cb\<in>set cbs. cb_owes ps a cb = 0"
    unfolding section_ok_def by (metis cb_owes.elims)
  then show ?thesis by (induction cbs) auto
qed

lemma sum_list_rev_int: "sum_list (rev (xs :: int list)) = sum_list xs"
  by (induction xs) auto

lemma section_no_owes_rev:
  "section_ok n s st x cbs \<Longrightarrow> sum_list (map (cb_owes ps a) (rev cbs)) = 0"
  by (simp add: rev_map [symmetric] sum_list_rev_int section_no_owes)

text \<open>An action that only changes the stack.\<close>

lemma good_stack_only:
  assumes "wf_heap w" and "wf_stack (parents w) k'" and "\<And>s. FTimer s \<in> set k' \<Longrightarrow> FTimer s \<in> set k"
    and "\<And>a. a < length (sh_heap w) \<Longrightarrow> owes (parents w) a k' = owes (parents w) a k"
  shows "good_action w k w k' []"
  using assms by (auto simp: good_action_def)

text \<open>Actions on fields other than the heap.\<close>

lemma good_same_heap:
  assumes "good_action w k w k' sp" and "sh_heap w' = sh_heap w"
    and "length (sh_cause w') = length (sh_cause w)"
  shows "good_action w k w' k' sp"
  using assms by (simp add: good_action_def wf_heap_def)

text \<open>A critical section that leaves the count alone and hands out callbacks to run.\<close>

lemma good_section:
  assumes "wf_heap w" and "wf_stack (parents w) (f # k)" and "s < length (sh_heap w)"
    and "section_ok (length (sh_heap w)) s (st_at w s) x cbs" and "mu_count x = mu_count (st_at w s)"
    and "\<And>a. frame_owes (parents w) a f k = 0"
  shows "good_action w (f # k) (put_st w s x) (FRun s (rev cbs) # k) []"
proof -
  have ok: "\<forall>cb\<in>set cbs. ok_cb (length (sh_heap w)) cb" and p: "st_parent x = st_parent (st_at w s)"
    and st: "mu_stopping (st_at w s) \<longrightarrow> mu_stopping x"
    using assms(4) by (auto simp: section_ok_def)
  show ?thesis
    unfolding good_action_def
    using put_st_wf [OF assms(1,3,4)] put_st_parents [OF p] assms(2,3,5,6) ok st
      section_no_owes_rev [OF assms(4)]
    by (auto simp: nth_list_update)
qed

text \<open>A critical section with nothing to run.\<close>

lemma good_quiet:
  assumes "wf_heap w" and "wf_stack (parents w) (f # k)" and "s < length (sh_heap w)"
    and "section_ok (length (sh_heap w)) s (st_at w s) x []" and "mu_count x = mu_count (st_at w s)"
    and "\<And>a. frame_owes (parents w) a f k = 0"
  shows "good_action w (f # k) (put_st w s x) k []"
proof -
  have p: "st_parent x = st_parent (st_at w s)" and st: "mu_stopping (st_at w s) \<longrightarrow> mu_stopping x"
    using assms(4) by (auto simp: section_ok_def)
  show ?thesis
    unfolding good_action_def
    using put_st_wf [OF assms(1,3,4)] put_st_parents [OF p] assms(2,3,5,6) st
    by (auto simp: nth_list_update)
qed

lemma good_push:
  assumes "good_action w k w' k' []" and "ok_frame (parents w) f k'"
    and "\<And>a. frame_owes (parents w) a f k' = 0" and "\<And>s. f \<noteq> FTimer s"
  shows "good_action w k w' (f # k') []"
  using assms by (auto simp: good_action_def)

section \<open>The frames of Apply\<close>

lemma good_apply_enter:
  assumes w: "wf_heap w" and k: "wf_stack (parents w) (FApply s d # k)"
  shows "good_action w (FApply s d # k) w (apply_enter w s d k) []"
proof -
  have s: "s < length (sh_heap w)" "d \<noteq> 0" and r: "ok_ret (parents w) s d k"
    and kk: "wf_stack (parents w) k"
    using k by auto
  have wp: "wf_parents (parents w)" using w by (simp add: wf_heap_def)
  consider (refuse) "mu_stopping (st_at w s)" "0 < d"
    | (root) "\<not> (mu_stopping (st_at w s) \<and> 0 < d)" "st_parent (st_at w s) = None"
    | (up) p where "\<not> (mu_stopping (st_at w s) \<and> 0 < d)" "st_parent (st_at w s) = Some p"
    by fastforce
  then show ?thesis
  proof cases
    case refuse
    then have e: "apply_enter w s d k = FRet False # k"
      using s by (simp add: apply_enter_def is_stopping_def)
    have "ret_owes (parents w) a False k = 0" for a
      by (cases "(parents w, a, False, k)" rule: ret_owes.cases) auto
    then show ?thesis
      unfolding e by (intro good_stack_only) (use w kk r refuse ok_ret_result in auto)
  next
    case root
    then have e: "apply_enter w s d k = FRet True # FApplyLock s d # k"
      using s by (simp add: apply_enter_def is_stopping_def parent_of_def)
    have "ancs (parents w) s = [s]" "sancs (parents w) s = []"
      using root s by (simp_all add: ancs_root)
    then show ?thesis
      unfolding e by (intro good_stack_only) (use w k s in auto)
  next
    case (up p)
    then have e: "apply_enter w s d k = FApply p d # FApplyLock s d # k"
      using s by (simp add: apply_enter_def is_stopping_def parent_of_def)
    have p: "p < s" "p < length (sh_heap w)"
      using wf_parentsD [OF wp, of s p] s up by auto
    have a: "ancs (parents w) s = s # ancs (parents w) p"
      using up s p by (simp add: ancs_child)
    have "s \<notin> set (ancs (parents w) p)" using p ancs_le by fastforce
    with a show ?thesis
      unfolding e by (intro good_stack_only) (use w k s p up in auto)
  qed
qed

lemma ret_owes_False [simp]: "ret_owes ps a False k = 0"
  by (cases "(ps, a, False, k)" rule: ret_owes.cases) auto

lemma good_apply_refused:
  assumes w: "wf_heap w" and k: "wf_stack (parents w) (FRet False # FApplyLock s d # k)"
  shows "good_action w (FRet False # FApplyLock s d # k) w (FRet False # k) []"
  using assms ok_ret_result [of "parents w" s d k False] by (intro good_stack_only) auto

text \<open>What a successful increment is worth to the frame below.\<close>

lemma ret_owes_lock:
  assumes "ok_ret ps t d k" and "wf_parents ps" and "t < length ps"
  shows "ret_owes ps a True k = (if 0 < d \<and> a \<in> set (ancs ps t) then d else 0)"
  using assms
proof (cases "(ps, t, d, k)" rule: ok_ret.cases)
  case (1 ps' t' d' u e k')
  with assms have "sancs ps u = ancs ps t" by (auto simp: sancs_child dest: wf_parentsD)
  with 1 assms show ?thesis by auto
qed auto

lemma good_apply_locked:
  assumes w: "wf_heap w" and k: "wf_stack (parents w) (FRet True # FApplyLock s d # k)"
    and enough: "\<forall>a<length (sh_heap w). owes (parents w) a (FRet True # FApplyLock s d # k)
      \<le> mu_count (st_at w a)"
  shows "\<exists>x cbs r. apply_locked (sh_now w) d (st_at w s) = Inr (x, cbs, r)
    \<and> good_action w (FRet True # FApplyLock s d # k) (put_st w s x) (FRun s (rev cbs) # FRet r # k) []"
proof -
  have s: "s < length (sh_heap w)" "d = 1 \<or> d = - 1" and r: "ok_ret (parents w) s d k"
    and kk: "wf_stack (parents w) k"
    using k by auto
  have wp: "wf_parents (parents w)" using w by (simp add: wf_heap_def)
  note st = wf_heapD [OF w s(1)]
  have "d < 0 \<Longrightarrow> owes (parents w) s k - d \<le> mu_count (st_at w s)"
    using enough [rule_format, OF s(1)] by simp
  then have own: "d < 0 \<Longrightarrow> - d \<le> mu_count (st_at w s)"
    using owes_nonneg [of "parents w" s k] by linarith
  have cnt: "0 \<le> mu_count (st_at w s)" using st(3) by (simp add: wf_core_def)
  have "\<not> (\<exists>c. apply_locked (sh_now w) d (st_at w s) = Inl c)"
    unfolding apply_locked_crash_iff [OF st(3)] using own cnt by linarith
  then obtain x cbs b where ap: "apply_locked (sh_now w) d (st_at w s) = Inr (x, cbs, b)"
    by (metis old.sum.exhaust prod_cases3)
  note res = apply_locked_result [OF st(3) ap]
  have ra: "ret_owes (parents w) a True k = (if 0 < d \<and> a \<in> set (ancs (parents w) s) then d else 0)"
    for a using ret_owes_lock [OF r wp] s by simp
  have as: "set (ancs (parents w) s) = insert s (set (sancs (parents w) s))"
    using ancs_sancs [of s "parents w"] s by simp
  have sn: "s \<notin> set (sancs (parents w) s)" by (rule sancs_not_self [OF wp])
  show ?thesis
  proof (cases b)
    case True
    have sec: "section_ok (length (sh_heap w)) s (st_at w s) x cbs"
      using ap True by (intro apply_section [OF st(1) _ s(1)]) simp
    have ok: "\<forall>cb\<in>set cbs. ok_cb (length (sh_heap w)) cb" and p: "st_parent x = st_parent (st_at w s)"
      and sp: "mu_stopping (st_at w s) \<longrightarrow> mu_stopping x"
      using sec by (auto simp: section_ok_def)
    have c: "mu_count x = mu_count (st_at w s) + d" using res(3) True by simp
    have "good_action w (FRet True # FApplyLock s d # k) (put_st w s x) (FRun s (rev cbs) # FRet True # k) []"
      unfolding good_action_def
      using put_st_wf [OF w s(1) sec] put_st_parents [OF p] kk s ok sp c ra as sn
        section_no_owes_rev [OF sec] ok_ret_result [OF r, of True]
      by (auto simp: nth_list_update)
    moreover have "apply_locked (sh_now w) d (st_at w s) = Inr (x, cbs, True)" using ap True by simp
    ultimately show ?thesis by blast
  next
    case False
    then have dpos: "d = 1" "mu_stopping (st_at w s)" and x: "x = st_at w s"
      and cbs: "cbs = (case st_parent (st_at w s) of None \<Rightarrow> [] | Some p \<Rightarrow> [CbParentApply p (- d)])"
      using res(1,2) s(2) by auto
    have same: "put_st w s x = w" unfolding x by (simp add: put_st_def)
    have "good_action w (FRet True # FApplyLock s d # k) w (FRun s (rev cbs) # FRet False # k) []"
    proof (cases "st_parent (st_at w s)")
      case None
      then have "sancs (parents w) s = []" using s by simp
      with None show ?thesis
        unfolding cbs by (intro good_stack_only) (use w kk s dpos ok_ret_result [OF r, of False] in auto)
    next
      case (Some p)
      have p: "p < s" "p < length (sh_heap w)"
        using wf_parentsD [OF wp, of s p] s Some by auto
      have "sancs (parents w) s = ancs (parents w) p" using Some s p by (simp add: sancs_child)
      with Some p show ?thesis
        unfolding cbs by (intro good_stack_only) (use w kk s dpos ok_ret_result [OF r, of False] in auto)
    qed
    with ap False same show ?thesis by force
  qed
qed

section \<open>The other frames\<close>

lemma good_apply_frames:
  assumes w: "wf_heap w" and k: "wf_stack (parents w) (FRet b # FApplyLock s d # k)"
    and enough: "\<forall>a<length (sh_heap w). owes (parents w) a (FRet b # FApplyLock s d # k)
      \<le> mu_count (st_at w a)"
    and "apply_resume w b s d k = (w', k')"
  shows "good_action w (FRet b # FApplyLock s d # k) w' k' []"
proof (cases b)
  case False
  with assms(4) have "w' = w" "k' = FRet False # k" by (simp_all add: apply_resume_def)
  moreover have "wf_stack (parents w) (FRet False # FApplyLock s d # k)" using k False by auto
  ultimately show ?thesis using good_apply_refused [OF w] False by simp
next
  case True
  then obtain x cbs r where e: "apply_locked (sh_now w) d (st_at w s) = Inr (x, cbs, r)"
    and g: "good_action w (FRet b # FApplyLock s d # k) (put_st w s x) (FRun s (rev cbs) # FRet r # k) []"
    using good_apply_locked [OF w, of s d k] k enough by auto
  from e True assms(4) have "w' = put_st w s x" "k' = FRun s (rev cbs) # FRet r # k"
    by (simp_all add: apply_resume_def)
  with g show ?thesis by simp
qed

lemma good_ret:
  assumes w: "wf_heap w" and k: "wf_stack (parents w) (FRet b # k)"
    and enough: "\<forall>a<length (sh_heap w). owes (parents w) a (FRet b # k) \<le> mu_count (st_at w a)"
    and ex: "exec_ret w b k = Some (w', k', sp)"
  shows "good_action w (FRet b # k) w' k' sp"
  using ex
proof (cases "(w, b, k)" rule: exec_ret.cases)
  case (1 w1 b1 s d k1)
  then have kk: "k = FApplyLock s d # k1" by simp
  obtain w2 k2 where ar: "apply_resume w b s d k1 = (w2, k2)" by fastforce
  with ex kk have e: "w' = w2" "k' = k2" "sp = []" by simp_all
  show ?thesis unfolding e kk
    by (rule good_apply_frames [OF w k [unfolded kk] enough [unfolded kk] ar])
next
  case (2 w1 b1 k1)
  with ex have "w' = w" "k' = k1" "sp = []" "k = FIgnore # k1" by auto
  with w k show ?thesis by (auto intro!: good_stack_only)
next
  case (3 w1 b1 s k1)
  with ex have e: "w' = w" "k' = (if b then FUser # FApply s (- 1) # FIgnore # k1 else k1)"
      "sp = []" "k = FTask s # k1" by (auto split: if_splits)
  show ?thesis unfolding e(1,3,4)
    by (intro good_stack_only) (use w k e in \<open>auto split: if_splits\<close>)
next
  case (4 w1 b1 s k1)
  with ex have e: "w' = w" "k' = k1" "k = FGo s # k1"
      "sp = (if b then [[FUser, FApply s (- 1), FIgnore]] else [])" by (auto split: if_splits)
  show ?thesis
  proof (cases b)
    case True
    with e w k show ?thesis by (simp add: good_action_def)
  next
    case False
    with e w k show ?thesis by (simp add: good_action_def)
  qed
qed (use ex in \<open>auto\<close>)

lemma good_run:
  assumes w: "wf_heap w" and k: "wf_stack (parents w) (FRun s cbs # k)"
    and ex: "run_deferred w s cbs k = (w', k')"
  shows "good_action w (FRun s cbs # k) w' k' []"
proof (cases cbs)
  case Nil
  with assms show ?thesis by (auto simp: run_deferred_def good_action_def)
next
  case (Cons cb cs)
  have e: "run_callback w s cb (FRun s cs # k) = (w', k')" using ex Cons by (simp add: run_deferred_def)
  have kk: "wf_stack (parents w) (FRun s cs # k)" using k Cons by auto
  show ?thesis
    using e
  proof (cases "(w, s, cb, FRun s cs # k)" rule: run_callback.cases)
    case (1 w1 s1 f k1)
    have "good_action w (FRun s cbs # k) w (FUserCb s f # FRun s cs # k) []"
      using w k Cons 1 by (intro good_stack_only) auto
    from good_same_heap [OF this, of w'] 1 e show ?thesis by auto
  next
    case (2 w1 s1 t x k1)
    have "good_action w (FRun s cbs # k) w (FCleanup t x # FRun s cs # k) []"
      using w k Cons 2 by (intro good_stack_only) auto
    with 2 e show ?thesis by auto
  next
    case (3 w1 s1 hs k1)
    have "good_action w (FRun s cbs # k) w (FHooks hs # FRun s cs # k) []"
      using w k Cons 3 by (intro good_stack_only) auto
    with 3 e show ?thesis by auto
  next
    case (4 w1 s1 p d k1)
    have "good_action w (FRun s cbs # k) w (FApply p d # FIgnore # FRun s cs # k) []"
      using w k Cons 4 by (intro good_stack_only) auto
    with 4 e show ?thesis by auto
  qed
qed

lemma good_after_lock:
  assumes "wf_heap w" and "wf_stack (parents w) (f # k)" and "s < length (sh_heap w)"
    and "section_ok (length (sh_heap w)) s (st_at w s) x cbs" and "mu_count x = mu_count (st_at w s)"
    and "\<And>a. frame_owes (parents w) a f k = 0"
    and "after_lock w s (Inr (x, cbs)) k = (w', k')"
  shows "good_action w (f # k) w' k' []"
  using good_section [OF assms(1-6)] assms(7) by (auto simp: after_lock_def)

lemma good_stop:
  assumes w: "wf_heap w" and k: "wf_stack (parents w) (FStop s g # k)"
    and ex: "after_lock w s (stop_locked (sh_now w) g (st_at w s)) k = (w', k')"
  shows "good_action w (FStop s g # k) w' k' []"
proof -
  have s: "s < length (sh_heap w)" using k by simp
  note st = wf_heapD [OF w s]
  obtain x cbs where e: "stop_locked (sh_now w) g (st_at w s) = Inr (x, cbs)"
    using soft_stop_no_crash [OF st(3)] unfolding stop_locked_def by blast
  have "mu_count x = mu_count (st_at w s)"
    using soft_stop_fields(3) [OF st(3) e [unfolded stop_locked_def]] .
  from good_after_lock [OF w k s stop_section [OF st(1) e s] this _ ex [unfolded e]]
  show ?thesis by simp
qed

lemma good_stop_on_idle:
  assumes w: "wf_heap w" and k: "wf_stack (parents w) (FStopOnIdle s g # k)"
    and ex: "after_lock w s (stop_on_idle_locked (sh_now w) g (st_at w s)) k = (w', k')"
  shows "good_action w (FStopOnIdle s g # k) w' k' []"
proof -
  have s: "s < length (sh_heap w)" using k by simp
  note st = wf_heapD [OF w s]
  let ?i = "(st_at w s)\<lparr>mu_stopOnIdle := Some g\<rparr>"
  obtain y cs where e: "soft_stop_locked (sh_now w) g ?i = Inr (y, cs)"
    using soft_stop_no_crash [OF wf_core_idle [OF st(3)]] by blast
  obtain x cbs where ex': "stop_on_idle_locked (sh_now w) g (st_at w s) = Inr (x, cbs)"
    and c: "mu_count x = mu_count (st_at w s)"
    using e soft_stop_fields(3) [OF wf_core_idle [OF st(3)] e]
    by (cases "mu_count (st_at w s) = 0") (auto simp: stop_on_idle_locked_def)
  from good_after_lock [OF w k s stop_on_idle_section [OF st(1) ex' s] c _ ex [unfolded ex']]
  show ?thesis by simp
qed

lemma good_timer:
  assumes w: "wf_heap w" and k: "wf_stack (parents w) (FTimer s # k)"
    and stp: "mu_stopping (st_at w s)"
    and ex: "after_lock w s (Inr (grace_timer_locked (st_at w s))) k = (w', k')"
  shows "good_action w (FTimer s # k) w' k' []"
proof -
  have s: "s < length (sh_heap w)" using k by simp
  note st = wf_heapD [OF w s]
  obtain x cbs where e: "grace_timer_locked (st_at w s) = (x, cbs)" by fastforce
  have c: "mu_count x = mu_count (st_at w s)"
    using hard_stop_fields(3) [OF e [unfolded grace_timer_locked_def]] .
  from good_after_lock [OF w k s grace_section [OF st(1) e stp s] c _ ex [unfolded e]]
  show ?thesis by simp
qed

lemma good_defer:
  assumes w: "wf_heap w" and k: "wf_stack (parents w) (FDefer s f # k)"
    and ex: "add_deferred_frames w s f k = (w', k')"
  shows "good_action w (FDefer s f # k) w' k' []"
proof -
  have s: "s < length (sh_heap w)" using k by simp
  note st = wf_heapD [OF w s]
  obtain b x where a: "add_deferred f (st_at w s) = (b, x)" by fastforce
  have c: "mu_count x = mu_count (st_at w s)" using a by (auto simp: add_deferred_def split: if_splits)
  have q: "good_action w (FDefer s f # k) (put_st w s x) k []"
    using good_quiet [OF w k s small_sections(1) [OF st(1) a] c] by simp
  show ?thesis
  proof (cases b)
    case True
    with q a ex show ?thesis by (simp add: add_deferred_frames_def)
  next
    case False
    from good_push [OF q, of "FUserCb s f"] s have
      "good_action w (FDefer s f # k) (put_st w s x) (FUserCb s f # k) []" by simp
    with good_same_heap a ex False show ?thesis
      by (auto simp: add_deferred_frames_def good_action_def wf_heap_def)
  qed
qed

lemma good_hook:
  assumes w: "wf_heap w" and k: "wf_stack (parents w) (FHook s c h # k)"
    and ex: "add_stop_hook_frames w s c h k = (w', k')"
  shows "good_action w (FHook s c h # k) w' k' []"
proof -
  have s: "s < length (sh_heap w)" and h: "ok_hook (length (sh_heap w)) (c, h)" using k by auto
  note st = wf_heapD [OF w s]
  obtain b x where a: "add_stop_hook_locked c h (st_at w s) = (b, x)" by fastforce
  have n: "mu_count x = mu_count (st_at w s)"
    using a by (auto simp: add_stop_hook_locked_def Let_def split: if_splits)
  have q: "good_action w (FHook s c h # k) (put_st w s x) k []"
    using good_quiet [OF w k s small_sections(3) [OF st(1) a h] n] by simp
  with good_push [OF q, of "FHooks [(c, h)]"] h a ex show ?thesis
    by (cases b) (auto simp: add_stop_hook_frames_def)
qed

text \<open>Every action is good.\<close>

lemma micro_good:
  assumes w: "wf_heap w" and k: "wf_stack (parents w) k"
    and timers: "\<And>s. FTimer s \<in> set k \<Longrightarrow> mu_stopping (st_at w s)"
    and enough: "\<forall>a<length (sh_heap w). owes (parents w) a k \<le> mu_count (st_at w a)"
    and ex: "micro w k = Some (w', k', sp)"
  shows "good_action w k w' k' sp"
proof -
  obtain f r where kf: "k = f # r" and e: "exec_frame w f r = Some (w', k', sp)"
    using ex by (auto simp: micro_def split: list.splits)
  have ks: "wf_stack (parents w) (f # r)" using k kf by simp
  show ?thesis
    unfolding kf
  proof (cases f)
    case (FApply s d)
    with e good_apply_enter [OF w] ks show "good_action w (f # r) w' k' sp" by auto
  next
    case (FRet b)
    with e good_ret [OF w] ks enough kf show "good_action w (f # r) w' k' sp" by auto
  next
    case (FRun s cbs)
    with e good_run [OF w] ks show "good_action w (f # r) w' k' sp" by (auto split: prod.splits)
  next
    case (FAddErrors s es)
    then have s: "s < length (sh_heap w)" using ks by simp
    from good_quiet [OF w ks s small_sections(2) [OF wf_heapD(1) [OF w s]], of es] FAddErrors e
    show "good_action w (f # r) w' k' sp" by (auto simp: add_errors_eq)
  next
    case (FStop s g)
    with e good_stop [OF w] ks show "good_action w (f # r) w' k' sp" by (auto split: prod.splits)
  next
    case (FStopOnIdle s g)
    with e good_stop_on_idle [OF w] ks show "good_action w (f # r) w' k' sp"
      by (auto split: prod.splits)
  next
    case (FDefer s h)
    with e good_defer [OF w] ks show "good_action w (f # r) w' k' sp" by (auto split: prod.splits)
  next
    case (FHooks hs)
    have "good_action w (f # r) w (run_hooks hs r) []"
      using w ks FHooks
      by (intro good_stack_only) (auto simp: run_hooks_def split: list.splits hook.splits)
    with e FHooks show "good_action w (f # r) w' k' sp" by auto
  next
    case (FHook s c h)
    with e good_hook [OF w] ks show "good_action w (f # r) w' k' sp" by (auto split: prod.splits)
  next
    case (FUnhook s c)
    have "good_action w (f # r) w (if unhook_disarmed (st_at w s) then r else FUnhookLock s c # r) []"
      using w ks FUnhook by (cases "unhook_disarmed (st_at w s)") (auto intro!: good_stack_only)
    with e FUnhook show "good_action w (f # r) w' k' sp" by auto
  next
    case (FUnhookLock s c)
    then have s: "s < length (sh_heap w)" using ks by simp
    have "mu_count (unhook_locked c (st_at w s)) = mu_count (st_at w s)"
      by (simp add: unhook_locked_def split: option.splits)
    from good_quiet [OF w ks s small_sections(4) [OF wf_heapD(1) [OF w s]] this] FUnhookLock e
    show "good_action w (f # r) w' k' sp" by auto
  next
    case (FCleanup s x)
    have "good_action w (f # r) w (cleanup_frames w s x r) []"
      using w ks FCleanup wf_parentsD [of "parents w" s]
      by (intro good_stack_only)
        (auto simp: cleanup_frames_def parent_of_def wf_heap_def split: option.splits)
    with e FCleanup show "good_action w (f # r) w' k' sp" by auto
  next
    case (FCancelCtx s x)
    have "good_action w (f # r) w r []" using w ks FCancelCtx by (intro good_stack_only) auto
    from good_same_heap [OF this, of w'] FCancelCtx e show "good_action w (f # r) w' k' sp"
      by (auto simp: cancel_ctx_def)
  next
    case (FTimer s)
    with e good_timer [OF w] ks timers kf show "good_action w (f # r) w' k' sp"
      by (auto split: prod.splits)
  qed (use e in auto)
qed

end
