(* ===== verification/Machine_Props.thy ===== *)
theory Machine_Props
  imports Machine_Step
begin

text \<open>
  The accounting invariant holds in every reachable configuration, and what follows from it for
  every interleaving of goroutines: no panic, counts that are the number of running tasks, and a
  context that is canceled with \<open>ErrStopped\<close> only when nothing runs below it.
\<close>

section \<open>The invariant of configurations\<close>

definition goroutine_ok :: "'cfg shared \<Rightarrow> frame list \<Rightarrow> bool" where
  "goroutine_ok w k \<longleftrightarrow> wf_stack (parents w) k \<and> (\<forall>s. FTimer s \<in> set k \<longrightarrow> mu_stopping (st_at w s))"

definition conf_inv :: "'cfg conf \<Rightarrow> bool" where
  "conf_inv c = (case c of (w, P) \<Rightarrow>
     wf_heap w \<and> (\<forall>k\<in>set P. goroutine_ok w k)
     \<and> (\<forall>a<length (sh_heap w). mu_count (st_at w a) = sum_list (map (owes (parents w) a) P)))"

lemma conf_inv_enough:
  assumes "conf_inv (w, P)" and "k \<in> set P" and "a < length (sh_heap w)"
  shows "owes (parents w) a k \<le> mu_count (st_at w a)"
  using assms sum_list_member_le_int [OF assms(2), of "owes (parents w) a"] by (simp add: conf_inv_def)

lemma conf_inv_goroutine: "conf_inv (w, P) \<Longrightarrow> i < length P \<Longrightarrow> goroutine_ok w (P ! i)"
  by (simp add: conf_inv_def)

lemma conf_inv_init: "conf_inv init_conf"
  by (simp add: conf_inv_def init_conf_def wf_heap_def wf_parents_def)

lemma goroutine_ok_mono:
  assumes "goroutine_ok w k" and "parents w' = parents w" and "wf_heap w"
    and "\<forall>a<length (sh_heap w). mu_stopping (st_at w a) \<longrightarrow> mu_stopping (st_at w' a)"
  shows "goroutine_ok w' k"
proof -
  have "s < length (sh_heap w)" if "FTimer s \<in> set k" "wf_stack (parents w) k" for s
    using that by (induction k) auto
  with assms show ?thesis by (auto simp: goroutine_ok_def)
qed

lemma conf_inv_act:
  assumes inv: "conf_inv (w, P)" and i: "i < length P" and m: "micro w (P ! i) = Some (w', k', sp)"
  shows "conf_inv (w', P[i := k'] @ sp)"
proof -
  have w: "wf_heap w" and P: "\<forall>k\<in>set P. goroutine_ok w k" using inv by (auto simp: conf_inv_def)
  have ki: "goroutine_ok w (P ! i)" using P i by simp
  have g: "good_action w (P ! i) w' k' sp"
    using micro_good [OF w _ _ _ m] ki conf_inv_enough [OF inv nth_mem [OF i]]
    by (auto simp: goroutine_ok_def)
  have par: "parents w' = parents w" and mono: "\<forall>a<length (sh_heap w). mu_stopping (st_at w a) \<longrightarrow> mu_stopping (st_at w' a)"
    and w': "wf_heap w'" using g by (auto simp: good_action_def)
  note len = parents_length [OF par]
  have "goroutine_ok w' j" if "j \<in> set (k' # sp)" for j
  proof -
    have "goroutine_ok w j"
      using g that ki by (auto simp: good_action_def goroutine_ok_def)
    then show ?thesis by (rule goroutine_ok_mono [OF _ par w mono])
  qed
  moreover have "goroutine_ok w' j" if "j \<in> set P" for j
    using P that goroutine_ok_mono [OF _ par w mono] by blast
  ultimately have "\<forall>j\<in>set (P[i := k'] @ sp). goroutine_ok w' j"
    using set_update_subset_insert [of P i k'] by fastforce
  moreover have "mu_count (st_at w' a) = sum_list (map (owes (parents w') a) (P[i := k'] @ sp))"
    if a: "a < length (sh_heap w')" for a
  proof -
    have "mu_count (st_at w' a) - mu_count (st_at w a)
        = owes (parents w) a k' + sum_list (map (owes (parents w) a) sp) - owes (parents w) a (P ! i)"
      using g a len by (simp add: good_action_def)
    moreover have "mu_count (st_at w a) = sum_list (map (owes (parents w) a) P)"
      using inv a len by (simp add: conf_inv_def)
    ultimately show ?thesis
      unfolding par map_append sum_list_append sum_list_update_int [OF i] by linarith
  qed
  ultimately show ?thesis using w' by (simp add: conf_inv_def)
qed

text \<open>A step that only changes one stack, keeping what it owes.\<close>

lemma conf_inv_stack:
  assumes inv: "conf_inv (w, P)" and i: "i < length P" and k: "goroutine_ok w k'"
    and o: "\<And>a. a < length (sh_heap w) \<Longrightarrow> owes (parents w) a k' = owes (parents w) a (P ! i)"
  shows "conf_inv (w, P[i := k'])"
  using inv k set_update_subset_insert [of P i k']
  by (auto simp: conf_inv_def sum_list_update_int [OF i] o)

lemma goroutine_ok_Cons:
  "goroutine_ok w (f # k) \<longleftrightarrow> ok_frame (parents w) f k \<and> (\<forall>s. f = FTimer s \<longrightarrow> mu_stopping (st_at w s))
     \<and> goroutine_ok w k"
  by (auto simp: goroutine_ok_def)

lemma api_call_ok:
  "api_call w fs \<Longrightarrow> goroutine_ok w k \<Longrightarrow> goroutine_ok w (fs @ k) \<and> owes (parents w) a (fs @ k) = owes (parents w) a k"
  by (induction rule: api_call.induct) (auto simp: goroutine_ok_Cons)

lemma wf_parents_snoc:
  "wf_parents ps \<Longrightarrow> (\<And>p. x = Some p \<Longrightarrow> p < length ps) \<Longrightarrow> wf_parents (ps @ [x])"
  by (auto simp: wf_parents_def nth_append less_Suc_eq)

lemma alloc_state_fields [simp]:
  "sh_heap (alloc_state cfg p w) = sh_heap w @ [new_state (Cleanup (length (sh_heap w))) cfg p]"
  "sh_cause (alloc_state cfg p w) = sh_cause w @ [None]"
  "parents (alloc_state cfg p w) = parents w @ [p]"
  by (simp_all add: alloc_state_def new_state_def)

lemma ok_state_mono: "ok_state n s st \<Longrightarrow> n \<le> m \<Longrightarrow> ok_state m s st"
  by (auto simp: ok_state_def intro: ok_hook_mono)

lemma conf_inv_alloc:
  assumes inv: "conf_inv (w, P)" and p: "\<And>q. p = Some q \<Longrightarrow> q < length (sh_heap w)"
  shows "conf_inv (alloc_state cfg p w, P)"
proof -
  let ?w = "alloc_state cfg p w" and ?n = "length (sh_heap w)"
  have w: "wf_heap w" using inv by (simp add: conf_inv_def)
  have new: "ok_state (Suc ?n) ?n (new_state (Cleanup ?n) cfg p)"
    by (simp add: ok_state_def wf_new_state) (simp add: new_state_def hooks_of_def)
  have old: "\<forall>s<?n. ok_state (Suc ?n) s (st_at w s)"
    using w by (auto simp: wf_heap_def intro: ok_state_mono)
  have "wf_parents (parents w @ [p])"
    using w p by (intro wf_parents_snoc) (auto simp: wf_heap_def)
  with w new old have w': "wf_heap ?w"
    unfolding wf_heap_def alloc_state_fields by (simp add: nth_append less_Suc_eq)
  have st: "goroutine_ok ?w k" if "k \<in> set P" for k
  proof -
    have k: "goroutine_ok w k" using inv that by (auto simp: conf_inv_def)
    have "s < ?n" if "FTimer s \<in> set k" "wf_stack (parents w) k" for s
      using that by (induction k) auto
    with k wf_stack_append [of "parents w" k "[p]"] show ?thesis
      by (auto simp: goroutine_ok_def nth_append)
  qed
  have cnt: "mu_count (st_at ?w a) = sum_list (map (owes (parents ?w) a) P)"
    if "a < length (sh_heap ?w)" for a
  proof (cases "a < ?n")
    case True
    have "map (owes (parents w @ [p]) a) P = map (owes (parents w) a) P"
      using inv by (intro map_cong) (auto simp: conf_inv_def goroutine_ok_def intro: owes_append)
    moreover have "mu_count (st_at w a) = sum_list (map (owes (parents w) a) P)"
      using inv True by (simp add: conf_inv_def)
    ultimately show ?thesis using True
      unfolding alloc_state_fields(3) by (simp only: alloc_state_fields(1) nth_append if_True)
  next
    case False
    with that have a: "a = ?n" by (simp add: less_Suc_eq)
    have "map (owes (parents w @ [p]) a) P = map (owes (parents w) a) P"
      using inv by (intro map_cong) (auto simp: conf_inv_def goroutine_ok_def intro: owes_append)
    also have "\<dots> = map (\<lambda>_. 0) P"
      using inv a by (intro map_cong) (auto simp: conf_inv_def goroutine_ok_def intro: owes_old)
    finally have z: "map (owes (parents w @ [p]) a) P = map (\<lambda>_. 0) P" .
    have "sum_list (map (owes (parents w @ [p]) a) P) = 0" unfolding z by (induction P) auto
    then show ?thesis using a by simp
  qed
  show ?thesis using w' st cnt by (simp add: conf_inv_def del: alloc_state_fields)
qed

lemma conf_inv_spawn:
  assumes "conf_inv (w, P)" and "goroutine_ok w k" and "\<And>a. owes (parents w) a k = 0"
  shows "conf_inv (w, P @ [k])"
  using assms by (auto simp: conf_inv_def)

lemma conf_inv_fire:
  assumes inv: "conf_inv (w, P)" and s: "s < length (sh_heap w)" and i: "i < length (rt_timers (st_at w s))"
  shows "conf_inv (put_st w s (fire_timer i (st_at w s)), P @ [[FTimer s]])"
proof -
  let ?x = "fire_timer i (st_at w s)" and ?w = "put_st w s (fire_timer i (st_at w s))"
  have w: "wf_heap w" using inv by (simp add: conf_inv_def)
  have par: "parents ?w = parents w" by (rule put_st_parents) simp
  have w': "wf_heap ?w"
    by (rule put_st_wf [OF w s small_sections(5) [OF wf_heapD(1) [OF w s]]])
  have stp: "mu_stopping (st_at w s)" using grace_timer_stopping [OF wf_heapD(3) [OF w s] i] .
  have mono: "\<forall>a<length (sh_heap w). mu_stopping (st_at w a) \<longrightarrow> mu_stopping (st_at ?w a)"
    using s by (simp add: nth_list_update)
  have old: "goroutine_ok ?w k" if "k \<in> set P" for k
    using goroutine_ok_mono [OF _ par w mono] inv that by (auto simp: conf_inv_def)
  have "goroutine_ok ?w [FTimer s]"
    using s stp by (simp add: goroutine_ok_def)
  with w' old inv s show ?thesis
    unfolding conf_inv_def prod.case par by (auto simp: nth_list_update)
qed

lemma conf_inv_same_heap:
  "conf_inv (w, P) \<Longrightarrow> sh_heap w' = sh_heap w \<Longrightarrow> length (sh_cause w') = length (sh_cause w) \<Longrightarrow>
     conf_inv (w', P)"
  by (simp add: conf_inv_def wf_heap_def goroutine_ok_def)

lemma conf_inv_step: "gstep c c' \<Longrightarrow> conf_inv c \<Longrightarrow> conf_inv c'"
proof (induction rule: gstep.induct)
  case (act i P w w' k' sp)
  then show ?case by (blast intro: conf_inv_act)
next
  case (reorder i P hs k hs' w)
  have "goroutine_ok w (FHooks hs # k)" using reorder by (metis conf_inv_goroutine)
  then have "goroutine_ok w (FHooks hs' # k)"
    using mset_eq_setD [OF reorder(3)] by (auto simp: goroutine_ok_Cons)
  then show ?case using reorder by (intro conf_inv_stack) auto
next
  case (user_call i P f k w fs)
  have "goroutine_ok w (f # k)" using user_call by (metis conf_inv_goroutine)
  with api_call_ok [OF user_call(4)] user_call show ?case by (intro conf_inv_stack) auto
next
  case (user_root i P f k w cfg)
  then show ?case by (intro conf_inv_alloc) auto
next
  case (user_child i P f k p w cfg g)
  let ?w = "alloc_state cfg (Some p) w"
  have inv: "conf_inv (?w, P)" using user_child by (intro conf_inv_alloc) auto
  have "goroutine_ok ?w (f # k)" using user_child inv by (metis conf_inv_goroutine)
  then have "goroutine_ok ?w (FHook p (length (sh_heap w)) (StopImpl (length (sh_heap w)) g) # f # k)"
    using user_child by (simp add: goroutine_ok_Cons [of _ "FHook _ _ _"])
  then show ?case using user_child by (intro conf_inv_stack [OF inv]) auto
next
  case (user_done i P k w)
  have "goroutine_ok w (FUser # k)" using user_done by (metis conf_inv_goroutine)
  then show ?case using user_done by (intro conf_inv_stack) (auto simp: goroutine_ok_Cons)
next
  case (callback_done i P s f k pcs out e w)
  have "goroutine_ok w (FUserCb s f # k)"
    using callback_done by (metis conf_inv_goroutine)
  then show ?case using callback_done by (intro conf_inv_stack) (auto simp: goroutine_ok_Cons)
next
  case (spawn w P)
  then show ?case by (intro conf_inv_spawn) (auto simp: goroutine_ok_def)
next
  case (timer s w i P)
  then show ?case by (intro conf_inv_fire) auto
next
  case (tick w t P)
  then show ?case by (auto intro: conf_inv_same_heap)
next
  case (outside_cancel s w e P)
  then show ?case by (auto intro: conf_inv_same_heap simp: cancel_ctx_def)
qed

interpretation machine: invariant_system "\<lambda>c. c = init_conf" gstep conf_inv
  by unfold_locales (use conf_inv_init conf_inv_step in auto)

end
