(* ===== verification/Machine_Cancel.thy ===== *)
theory Machine_Cancel
  imports Machine_Props
begin

text \<open>
  Cancellation across the interleaved machine: every action of a goroutine is at most one critical
  section of one state; the marks \<open>(s, e)\<close> of a pending or performed \<open>cancelFn(e)\<close> of state \<open>s\<close> are
  followed from the critical section that hands the cancel function out to the call of the
  context's \<open>cancel\<close>.
\<close>

section \<open>Marks\<close>

fun cb_marks :: "callback \<Rightarrow> (sid \<times> goerr) list" where
  "cb_marks (CbCancel (Cleanup t) e) = [(t, e)]"
| "cb_marks _ = []"

definition cbs_marks :: "callback list \<Rightarrow> (sid \<times> goerr) list" where
  "cbs_marks cbs = concat (map cb_marks cbs)"

fun frame_marks :: "frame \<Rightarrow> (sid \<times> goerr) list" where
  "frame_marks (FRun s cbs) = cbs_marks cbs"
| "frame_marks (FCleanup s e) = [(s, e)]"
| "frame_marks (FCancelCtx s e) = [(s, e)]"
| "frame_marks _ = []"

definition stack_marks :: "frame list \<Rightarrow> (sid \<times> goerr) list" where
  "stack_marks k = concat (map frame_marks k)"

fun event_marks :: "event \<Rightarrow> (sid \<times> goerr) list" where
  "event_marks (EvCancel s e) = [(s, e)]"
| "event_marks (EvRan s f) = []"

definition done_marks :: "'cfg shared \<Rightarrow> (sid \<times> goerr) list" where
  "done_marks w = concat (map event_marks (sh_trace w))"

lemma stack_marks_simps [simp]:
  "stack_marks [] = []" "stack_marks (f # k) = frame_marks f @ stack_marks k"
  by (simp_all add: stack_marks_def)

lemma cbs_marks_simps [simp]:
  "cbs_marks [] = []" "cbs_marks (cb # cs) = cb_marks cb @ cbs_marks cs"
  "cbs_marks (cs @ ds) = cbs_marks cs @ cbs_marks ds" "cbs_marks (map CbUser fs) = []"
  by (simp_all add: cbs_marks_def)

lemma mset_cbs_marks_rev [simp]: "mset (cbs_marks (rev cbs)) = mset (cbs_marks cbs)"
  by (induction cbs) auto

lemma done_marks_put [simp]: "done_marks (put_st w s x) = done_marks w"
  by (simp add: done_marks_def)

section \<open>The grace timer\<close>

text \<open>
  While the cancel function has not been handed out, the grace timer of a state is active, unless it
  has fired already. Every critical section of a goroutine keeps it so.
\<close>

definition timer_ok :: "'cfg gostate \<Rightarrow> bool" where
  "timer_ok s \<longleftrightarrow> (\<forall>i. mu_cancel s \<noteq> None \<and> mu_graceTimer s = Some i \<longrightarrow> tm_active (rt_timers s ! i))"

lemma timer_ok_spent [simp]: "mu_cancel s = None \<Longrightarrow> timer_ok s"
  by (simp add: timer_ok_def)

lemma timer_ok_frame [simp]:
  "timer_ok (s\<lparr>mu_count := c\<rparr>) = timer_ok s" "timer_ok (s\<lparr>mu_stopOnIdle := g\<rparr>) = timer_ok s"
  "timer_ok (s\<lparr>mu_deferred := fs\<rparr>) = timer_ok s" "timer_ok (s\<lparr>mu_errs := es\<rparr>) = timer_ok s"
  "timer_ok (s\<lparr>mu_stopHooks := h\<rparr>) = timer_ok s" "timer_ok (soft_prepared s) = timer_ok s"
  "timer_ok (add_errors xs s) = timer_ok s" "timer_ok (unhook_locked d s) = timer_ok s"
  by (simp_all add: timer_ok_def soft_prepared_def add_errors_eq unhook_locked_def split: option.splits)

lemma timer_ok_update: "timer_ok s \<Longrightarrow> timer_ok (update_grace_timer_locked now g s)"
  by (auto simp: timer_ok_def update_grace_timer_locked_def after_func_def Let_def nth_append split: option.splits)

lemma timer_ok_soft:
  assumes "wf_core s" and "soft_stop_locked now g s = Inr (t, cbs)" and "timer_ok s"
  shows "timer_ok t"
  using assms(1)
proof (cases rule: soft_stop_cases [of _ now g])
  case (hard e u d)
  with hard_stop_fields(4) [OF hard(2)] assms(2) show ?thesis by simp
next
  case timer
  with assms(2,3) timer_ok_update [of "soft_prepared s" now g] show ?thesis by simp
qed

lemma timer_ok_apply:
  assumes "wf_core s" and "apply_locked now d s = Inr (t, cbs, r)" and "timer_ok s"
  shows "timer_ok t"
  using assms(1)
proof (cases rule: apply_locked_cases [of _ d now])
  case (idle g u c)
  with timer_ok_soft [OF wf_core_count [OF assms(1) order_refl] idle(4)] assms(2,3) show ?thesis by simp
next
  case (last u c)
  with hard_stop_fields(4) [OF last(5)] assms(2) show ?thesis by simp
qed (use assms(2,3) in auto)

lemma timer_ok_idle:
  assumes "wf_core s" and "stop_on_idle_locked now g s = Inr (t, cbs)" and "timer_ok s"
  shows "timer_ok t"
proof (cases "mu_count s = 0")
  case True
  with assms(2) have "soft_stop_locked now g (s\<lparr>mu_stopOnIdle := Some g\<rparr>) = Inr (t, cbs)"
    by (simp add: stop_on_idle_locked_def)
  from timer_ok_soft [OF wf_core_idle [OF assms(1)] this] assms(3) show ?thesis by simp
next
  case False
  with assms(2,3) show ?thesis by (auto simp: stop_on_idle_locked_def)
qed

section \<open>Every action is at most one critical section\<close>

definition tracked ::
  "'cfg shared \<Rightarrow> frame list \<Rightarrow> 'cfg shared \<Rightarrow> frame list \<Rightarrow> bool" where
  "tracked w k w' k' \<longleftrightarrow>
     (sh_heap w' = sh_heap w
        \<and> mset (done_marks w') + mset (stack_marks k') = mset (done_marks w) + mset (stack_marks k))
     \<or> (\<exists>s fs x cbs. s < length (sh_heap w) \<and> sh_heap w' = (sh_heap w)[s := x]
        \<and> crit_step (st_at w s) fs x cbs \<and> (timer_ok (st_at w s) \<longrightarrow> timer_ok x)
        \<and> mset (done_marks w') + mset (stack_marks k')
            = mset (done_marks w) + mset (stack_marks k) + mset (cbs_marks cbs))"

lemma tracked_same:
  "sh_heap w' = sh_heap w \<Longrightarrow> sh_trace w' = sh_trace w \<Longrightarrow>
     mset (stack_marks k') = mset (stack_marks k) \<Longrightarrow> tracked w k w' k'"
  by (simp add: tracked_def done_marks_def)

lemma tracked_section:
  assumes "s < length (sh_heap w)" and "crit_step (st_at w s) fs x cbs"
    and "mset (stack_marks k') = mset (stack_marks k) + mset (cbs_marks cbs)"
    and "sh_heap w' = (sh_heap w)[s := x]" and "done_marks w' = done_marks w"
    and "timer_ok (st_at w s) \<Longrightarrow> timer_ok x"
  shows "tracked w k w' k'"
  unfolding tracked_def using assms by (intro disjI2 exI [of _ s] exI conjI) auto

lemma tracked_after_lock:
  assumes "s < length (sh_heap w)" and "crit_step (st_at w s) fs x cbs"
    and "after_lock w s (Inr (x, cbs)) r = (w', k')" and "frame_marks f = []"
    and "timer_ok (st_at w s) \<Longrightarrow> timer_ok x"
  shows "tracked w (f # r) w' k'"
  using assms by (intro tracked_section [OF assms(1,2)]) (auto simp: after_lock_def)

lemma tracked_ret:
  assumes w: "wf_heap w" and k: "wf_stack (parents w) (FRet b # k)" and ex: "exec_ret w b k = Some (w', k', sp)"
    and g: "good_action w (FRet b # k) w' k' sp"
  shows "tracked w (FRet b # k) w' k' \<and> (\<forall>j\<in>set sp. stack_marks j = [])"
  using ex
proof (cases "(w, b, k)" rule: exec_ret.cases)
  case (1 w1 b1 s d k1)
  then have kk: "k = FApplyLock s d # k1" by simp
  obtain w2 k2 where ar: "apply_resume w b s d k1 = (w2, k2)" by fastforce
  with ex kk have e: "w' = w2" "k' = k2" "sp = []" by simp_all
  have s: "s < length (sh_heap w)" using k kk by simp
  have "tracked w (FRet b # k) w2 k2"
  proof (cases b)
    case False
    with ar kk show ?thesis by (intro tracked_same) (auto simp: apply_resume_def)
  next
    case True
    show ?thesis
    proof (cases "apply_locked (sh_now w) d (st_at w s)")
      case (Inl c)
      with True ar have "k2 = FPanic c # k1" by (simp add: apply_resume_def)
      with g e show ?thesis by (simp add: good_action_def)
    next
      case (Inr y)
      obtain x cbs r where y: "y = (x, cbs, r)" by (cases y)
      have c: "crit_step (st_at w s) [] x cbs" using crit_step.applied Inr y by blast
      show ?thesis
        using Inr y True ar kk timer_ok_apply [OF wf_heapD(3) [OF w s]]
        by (intro tracked_section [OF s c]) (auto simp: apply_resume_def)
    qed
  qed
  with e show ?thesis by simp
next
  case (2 w1 b1 k1)
  with ex show ?thesis by (auto intro: tracked_same)
next
  case (3 w1 b1 s k1)
  with ex show ?thesis by (auto intro!: tracked_same split: if_splits)
next
  case (4 w1 b1 s k1)
  with ex show ?thesis by (auto intro!: tracked_same split: if_splits)
qed (use ex in auto)

lemma tracked_run:
  assumes "run_deferred w s cbs k = (w', k')"
  shows "tracked w (FRun s cbs # k) w' k'"
proof (cases cbs)
  case Nil
  with assms show ?thesis by (auto simp: run_deferred_def intro: tracked_same)
next
  case (Cons cb cs)
  then have e: "run_callback w s cb (FRun s cs # k) = (w', k')" using assms by (simp add: run_deferred_def)
  show ?thesis
    using e Cons
    by (cases "(w, s, cb, FRun s cs # k)" rule: run_callback.cases)
      (auto simp: tracked_def done_marks_def)
qed

lemma micro_tracked:
  assumes w: "wf_heap w" and k: "goroutine_ok w k" and ex: "micro w k = Some (w', k', sp)"
    and g: "good_action w k w' k' sp"
  shows "tracked w k w' k' \<and> (\<forall>j\<in>set sp. stack_marks j = [])"
proof -
  obtain f r where kf: "k = f # r" and e: "exec_frame w f r = Some (w', k', sp)"
    using ex by (auto simp: micro_def split: list.splits)
  have ks: "wf_stack (parents w) (f # r)" using k kf by (simp add: goroutine_ok_def)
  show ?thesis
    unfolding kf
  proof (cases f)
    case (FApply s d)
    with e show "tracked w (f # r) w' k' \<and> (\<forall>j\<in>set sp. stack_marks j = [])"
      by (auto intro!: tracked_same simp: apply_enter_def split: option.splits)
  next
    case (FRet b)
    with e tracked_ret [OF w, of b r w' k' sp] ks g kf
    show "tracked w (f # r) w' k' \<and> (\<forall>j\<in>set sp. stack_marks j = [])" by simp
  next
    case (FRun s cbs)
    with e tracked_run show "tracked w (f # r) w' k' \<and> (\<forall>j\<in>set sp. stack_marks j = [])"
      by (auto split: prod.splits)
  next
    case (FAddErrors s es)
    then have s: "s < length (sh_heap w)" using ks by simp
    have "tracked w (f # r) w' k'"
      by (rule tracked_section [OF s crit_step.errors [of "st_at w s" es]]) (use e FAddErrors in auto)
    with e FAddErrors show "tracked w (f # r) w' k' \<and> (\<forall>j\<in>set sp. stack_marks j = [])" by simp
  next
    case (FStop s g)
    then have s: "s < length (sh_heap w)" using ks by simp
    obtain x cbs where c: "stop_locked (sh_now w) g (st_at w s) = Inr (x, cbs)"
      using soft_stop_no_crash [OF wf_heapD(3) [OF w s]] unfolding stop_locked_def by blast
    obtain w2 k2 where a: "after_lock w s (Inr (x, cbs)) r = (w2, k2)" by fastforce
    from tracked_after_lock [OF s crit_step.stop [OF c] a, of f] FStop e a c
      timer_ok_soft [OF wf_heapD(3) [OF w s] c [unfolded stop_locked_def]]
    show "tracked w (f # r) w' k' \<and> (\<forall>j\<in>set sp. stack_marks j = [])" by simp
  next
    case (FStopOnIdle s g)
    then have s: "s < length (sh_heap w)" using ks by simp
    obtain x cbs where c: "stop_on_idle_locked (sh_now w) g (st_at w s) = Inr (x, cbs)"
      using soft_stop_no_crash [OF wf_core_idle [OF wf_heapD(3) [OF w s]], of "sh_now w" g "Some g"]
      by (cases "mu_count (st_at w s) = 0") (auto simp: stop_on_idle_locked_def)
    obtain w2 k2 where a: "after_lock w s (Inr (x, cbs)) r = (w2, k2)" by fastforce
    from tracked_after_lock [OF s crit_step.stop_on_idle [OF c] a, of f] FStopOnIdle e a c
      timer_ok_idle [OF wf_heapD(3) [OF w s] c]
    show "tracked w (f # r) w' k' \<and> (\<forall>j\<in>set sp. stack_marks j = [])" by simp
  next
    case (FDefer s h)
    then have s: "s < length (sh_heap w)" using ks by simp
    obtain b x where a: "add_deferred h (st_at w s) = (b, x)" by fastforce
    have c: "crit_step (st_at w s) [h] x (if b then [] else [CbUser h])"
      using a crit_step.defer_kept crit_step.defer_now by (cases b) fastforce+
    have "tracked w (f # r) w' k'"
      by (rule tracked_section [OF s c])
        (use FDefer e a in \<open>auto simp: add_deferred_frames_def done_marks_def add_deferred_def split: if_splits bool.splits\<close>)
    with FDefer e show "tracked w (f # r) w' k' \<and> (\<forall>j\<in>set sp. stack_marks j = [])"
      by (auto split: prod.splits)
  next
    case (FHooks hs)
    with e show "tracked w (f # r) w' k' \<and> (\<forall>j\<in>set sp. stack_marks j = [])"
      by (auto intro!: tracked_same simp: run_hooks_def split: list.splits hook.splits)
  next
    case (FHook s c h)
    then have s: "s < length (sh_heap w)" using ks by simp
    obtain b x where a: "add_stop_hook_locked c h (st_at w s) = (b, x)" by fastforce
    have "tracked w (f # r) w' k'"
      by (rule tracked_section [OF s crit_step.hooked [OF a]])
        (use FHook e a in \<open>auto simp: add_stop_hook_frames_def add_stop_hook_locked_def split: bool.splits if_splits\<close>)
    with FHook e show "tracked w (f # r) w' k' \<and> (\<forall>j\<in>set sp. stack_marks j = [])"
      by (auto split: prod.splits)
  next
    case (FUnhook s c)
    with e show "tracked w (f # r) w' k' \<and> (\<forall>j\<in>set sp. stack_marks j = [])"
      by (auto intro!: tracked_same)
  next
    case (FUnhookLock s c)
    then have s: "s < length (sh_heap w)" using ks by simp
    have "tracked w (f # r) w' k'"
      by (rule tracked_section [OF s crit_step.unhooked [of "st_at w s" c]]) (use e FUnhookLock in auto)
    with e FUnhookLock show "tracked w (f # r) w' k' \<and> (\<forall>j\<in>set sp. stack_marks j = [])" by simp
  next
    case (FCleanup s x)
    with e show "tracked w (f # r) w' k' \<and> (\<forall>j\<in>set sp. stack_marks j = [])"
      by (auto intro!: tracked_same simp: cleanup_frames_def split: option.splits)
  next
    case (FCancelCtx s x)
    with e show "tracked w (f # r) w' k' \<and> (\<forall>j\<in>set sp. stack_marks j = [])"
      by (auto simp: tracked_def done_marks_def cancel_ctx_def)
  next
    case (FTimer s)
    then have s: "s < length (sh_heap w)" using ks by simp
    have stp: "mu_stopping (st_at w s)" using k kf FTimer by (simp add: goroutine_ok_def)
    obtain x cbs where c: "grace_timer_locked (st_at w s) = (x, cbs)" by fastforce
    obtain w2 k2 where a: "after_lock w s (Inr (x, cbs)) r = (w2, k2)" by fastforce
    from tracked_after_lock [OF s crit_step.grace [OF stp c] a, of f] FTimer e a c
      hard_stop_fields(4) [OF c [unfolded grace_timer_locked_def]]
    show "tracked w (f # r) w' k' \<and> (\<forall>j\<in>set sp. stack_marks j = [])" by simp
  qed (use e in auto)
qed

end
