(* ===== verification/Machine_Safety.thy ===== *)
theory Machine_Safety
  imports Machine_Cancel
begin

text \<open>
  What holds in every configuration that the interleaved machine can reach, whatever the number of
  goroutines, the shape of the tree of stopper contexts and the order of the actions.
\<close>

section \<open>Stopping is final\<close>

text \<open>What one critical section does to a state, as far as stopping is concerned.\<close>

definition stop_grows :: "'cfg gostate \<Rightarrow> 'cfg gostate \<Rightarrow> bool" where
  "stop_grows s t \<longleftrightarrow>
     st_parent t = st_parent s \<and> st_config t = st_config s
     \<and> (\<exists>es. mu_errs t = mu_errs s @ es)
     \<and> (mu_stopping s \<longrightarrow> mu_stopping t \<and> mu_count t \<le> mu_count s)
     \<and> (mu_cancel s = None \<longrightarrow> mu_cancel t = None)"

lemma stop_grows_refl [simp]: "stop_grows s s"
  by (auto simp: stop_grows_def)

lemma stop_grows_trans: "stop_grows s t \<Longrightarrow> stop_grows t u \<Longrightarrow> stop_grows s u"
  unfolding stop_grows_def by (metis append.assoc order_trans)

lemma soft_stop_grows:
  assumes "wf_core s" and "soft_stop_locked now g s = Inr (t, cbs)"
  shows "stop_grows s t"
proof -
  have "mu_cancel s = None \<longrightarrow> mu_cancel t = None"
    using soft_stop_spent [OF assms] by blast
  with soft_stop_fields [OF assms] show ?thesis by (simp add: stop_grows_def)
qed

lemma hard_stop_grows: "hard_stop_locked e s = (t, cbs) \<Longrightarrow> stop_grows s t"
  using hard_stop_fields [of e s t cbs] by (simp add: stop_grows_def)

lemma apply_locked_grows:
  assumes "wf_core s" and "apply_locked now d s = Inr (t, cbs, r)"
  shows "stop_grows s t"
proof -
  have c: "mu_cancel s = None \<longrightarrow> mu_cancel t = None"
    using crit_step_spent [OF crit_step.applied [OF assms(2)] assms(1)] by blast
  note r = apply_locked_result [OF assms]
  have "mu_stopping s \<longrightarrow> mu_count t \<le> mu_count s"
  proof (cases r)
    case True
    with r(1,3) show ?thesis by auto
  next
    case False
    with r(2) show ?thesis by simp
  qed
  with r(4,5) c show ?thesis by (simp add: stop_grows_def)
qed

lemma crit_step_grows:
  assumes "crit_step s fs t cbs" and "wf_core s"
  shows "stop_grows s t"
  using assms
proof (induction rule: crit_step.induct)
  case (applied now d s t cbs r)
  then show ?case by (blast intro: apply_locked_grows)
next
  case (stop now g s t cbs)
  then show ?case unfolding stop_locked_def by (blast intro: soft_stop_grows)
next
  case (stop_on_idle now g s t cbs)
  show ?case
  proof (cases "mu_count s = 0")
    case True
    with stop_on_idle have "soft_stop_locked now g (s\<lparr>mu_stopOnIdle := Some g\<rparr>) = Inr (t, cbs)"
      by (simp add: stop_on_idle_locked_def)
    from soft_stop_grows [OF wf_core_idle [OF stop_on_idle(2)] this] show ?thesis
      by (simp add: stop_grows_def)
  next
    case False
    with stop_on_idle show ?thesis by (auto simp: stop_on_idle_locked_def stop_grows_def)
  qed
next
  case (grace s t cbs)
  then show ?case unfolding grace_timer_locked_def by (blast intro: hard_stop_grows)
qed (auto simp: stop_grows_def add_deferred_def add_errors_eq add_stop_hook_locked_def
    unhook_locked_def Let_def split: if_splits option.splits)

section \<open>Steps of the machine, state by state\<close>

text \<open>
  A step of the machine changes at most one existing state, by one critical section, or adds a new
  state; the marks follow.
\<close>

definition conf_marks :: "'cfg conf \<Rightarrow> (sid \<times> goerr) multiset" where
  "conf_marks c = mset (done_marks (fst c)) + mset (concat (map stack_marks (snd c)))"

definition moved :: "'cfg conf \<Rightarrow> 'cfg conf \<Rightarrow> bool" where
  "moved c c' \<longleftrightarrow>
     (sh_heap (fst c') = sh_heap (fst c) \<and> conf_marks c' = conf_marks c)
     \<or> (\<exists>cfg p. sh_heap (fst c')
            = sh_heap (fst c) @ [new_state (Cleanup (length (sh_heap (fst c)))) cfg p]
          \<and> conf_marks c' = conf_marks c)
     \<or> (\<exists>s fs x cbs. s < length (sh_heap (fst c)) \<and> sh_heap (fst c') = (sh_heap (fst c))[s := x]
          \<and> crit_step (st_at (fst c) s) fs x cbs
          \<and> conf_marks c' = conf_marks c + mset (cbs_marks cbs))"

lemma mset_concat_update:
  "i < length P \<Longrightarrow>
     mset (concat (map f (P[i := k]))) + mset (f (P ! i)) = mset (concat (map f P)) + mset (f k)"
proof (induction P arbitrary: i)
  case Nil
  then show ?case by simp
next
  case (Cons x P)
  show ?case
  proof (cases i)
    case 0
    then show ?thesis by (simp add: ac_simps)
  next
    case (Suc j)
    with Cons have "mset (concat (map f (P[j := k]))) + mset (f (P ! j))
        = mset (concat (map f P)) + mset (f k)" by simp
    with Suc show ?thesis by (simp add: ac_simps)
  qed
qed

lemma conf_marks_update:
  assumes "i < length P"
  shows "conf_marks (w', P[i := k] @ sp) + mset (stack_marks (P ! i)) + mset (done_marks w)
    = conf_marks (w, P) + mset (stack_marks k) + mset (done_marks w')
      + mset (concat (map stack_marks sp))"
  using mset_concat_update [OF assms, of stack_marks k]
  by (simp add: conf_marks_def ac_simps)

lemma moved_same:
  "sh_heap w' = sh_heap w \<Longrightarrow> conf_marks (w', P') = conf_marks (w, P) \<Longrightarrow> moved (w, P) (w', P')"
  by (simp add: moved_def)

lemma moved_alloc:
  "sh_heap w' = sh_heap w @ [new_state (Cleanup (length (sh_heap w))) cfg p] \<Longrightarrow>
     conf_marks (w', P') = conf_marks (w, P) \<Longrightarrow> moved (w, P) (w', P')"
  unfolding moved_def by auto

lemma moved_section:
  "s < length (sh_heap w) \<Longrightarrow> sh_heap w' = (sh_heap w)[s := x] \<Longrightarrow> crit_step (st_at w s) fs x cbs \<Longrightarrow>
     conf_marks (w', P') = conf_marks (w, P) + mset (cbs_marks cbs) \<Longrightarrow> moved (w, P) (w', P')"
  unfolding moved_def fst_conv by blast

lemma moved_stack:
  assumes "i < length P" and "stack_marks k = stack_marks (P ! i)"
  shows "conf_marks (w, P[i := k]) = conf_marks (w, P)"
  using conf_marks_update [OF assms(1), of w k "[]" w] assms(2) by simp

lemma moved_act:
  assumes inv: "conf_inv (w, P)" and i: "i < length P" and m: "micro w (P ! i) = Some (w', k', sp)"
  shows "moved (w, P) (w', P[i := k'] @ sp)"
proof -
  have w: "wf_heap w" using inv by (simp add: conf_inv_def)
  have ki: "goroutine_ok w (P ! i)" using conf_inv_goroutine [OF inv i] .
  have g: "good_action w (P ! i) w' k' sp"
    using micro_good [OF w _ _ _ m] ki conf_inv_enough [OF inv nth_mem [OF i]]
    by (auto simp: goroutine_ok_def)
  from micro_tracked [OF w ki m g] have t: "tracked w (P ! i) w' k'"
    and sp: "concat (map stack_marks sp) = []" by auto
  note u = conf_marks_update [OF i, of w' k' sp w, unfolded sp]
  from t consider (same) "sh_heap w' = sh_heap w"
      "mset (done_marks w') + mset (stack_marks k') = mset (done_marks w) + mset (stack_marks (P ! i))"
    | (sect) s fs x cbs where "s < length (sh_heap w)" "sh_heap w' = (sh_heap w)[s := x]"
      "crit_step (st_at w s) fs x cbs"
      "mset (done_marks w') + mset (stack_marks k')
         = mset (done_marks w) + mset (stack_marks (P ! i)) + mset (cbs_marks cbs)"
    unfolding tracked_def by blast
  then show ?thesis
  proof cases
    case same
    with u have "conf_marks (w', P[i := k'] @ sp) = conf_marks (w, P)"
      by (metis (no_types, lifting) add.assoc add.commute add_right_cancel mset.simps(1) add_0_right)
    with same show ?thesis by (simp add: moved_def)
  next
    case (sect s fs x cbs)
    have "conf_marks (w', P[i := k'] @ sp) = conf_marks (w, P) + mset (cbs_marks cbs)"
    proof -
      let ?L = "conf_marks (w', P[i := k'] @ sp)" and ?z = "mset (stack_marks (P ! i)) + mset (done_marks w)"
      have "?L + ?z = conf_marks (w, P) + (mset (done_marks w') + mset (stack_marks k'))"
        using u by (simp add: ac_simps)
      also have "\<dots> = conf_marks (w, P) + mset (cbs_marks cbs) + ?z"
        unfolding sect(4) by (simp add: ac_simps)
      finally show ?thesis by (simp only: add_right_cancel)
    qed
    with sect(1-3) show ?thesis by (intro moved_section)
  qed
qed

lemma api_call_marks: "api_call w fs \<Longrightarrow> stack_marks (fs @ k) = stack_marks k"
  by (induction rule: api_call.induct) simp_all

lemma user_frame_marks: "is_user f \<Longrightarrow> frame_marks f = []"
  by (cases f) auto

lemma gstep_moved: "gstep c c' \<Longrightarrow> conf_inv c \<Longrightarrow> moved c c'"
proof (induction rule: gstep.induct)
  case (act i P w w' k' sp)
  then show ?case by (blast intro: moved_act)
next
  case (reorder i P hs k hs' w)
  then show ?case by (intro moved_same moved_stack) auto
next
  case (user_call i P f k w fs)
  then show ?case by (intro moved_same moved_stack) (auto simp: api_call_marks)
next
  case (user_root i P f k w cfg)
  have "conf_marks (alloc_state cfg None w, P) = conf_marks (w, P)"
    by (simp add: conf_marks_def done_marks_def alloc_state_def)
  then show ?case by (intro moved_alloc) auto
next
  case (user_child i P f k p w cfg g)
  have "conf_marks (alloc_state cfg (Some p) w,
      P[i := FHook p (length (sh_heap w)) (StopImpl (length (sh_heap w)) g) # f # k])
    = conf_marks (alloc_state cfg (Some p) w, P)"
    using user_child by (intro moved_stack) auto
  also have "\<dots> = conf_marks (w, P)"
    by (simp add: conf_marks_def done_marks_def alloc_state_def)
  finally show ?case by (intro moved_alloc) auto
next
  case (user_done i P k w)
  then show ?case by (intro moved_same moved_stack) auto
next
  case (callback_done i P s f k pcs out e w)
  then show ?case by (intro moved_same moved_stack) auto
next
  case (spawn w P)
  then show ?case by (intro moved_same) (auto simp: conf_marks_def)
next
  case (timer s w i P)
  have "conf_marks (put_st w s (fire_timer i (st_at w s)), P @ [[FTimer s]]) = conf_marks (w, P)"
    by (simp add: conf_marks_def)
  with timer(1) show ?case
    by (intro moved_section [OF _ _ crit_step.fired [of "st_at w s" i]]) simp_all
next
  case (tick w t P)
  then show ?case by (intro moved_same) (auto simp: conf_marks_def done_marks_def)
next
  case (outside_cancel s w e P)
  then show ?case by (intro moved_same) (auto simp: conf_marks_def done_marks_def cancel_ctx_def)
qed

end
