(* ===== verification/Machine_Theorems.thy ===== *)
theory Machine_Theorems
  imports Machine_Safety
begin

text \<open>
  The properties of internal/state that hold in every reachable configuration of the interleaved
  machine: no panic, exact counts, finality of stopping, and the meaning of a cancellation cause.
\<close>

section \<open>The cancellation invariant\<close>

definition cancel_ok :: "'cfg shared \<Rightarrow> sid \<times> goerr \<Rightarrow> bool" where
  "cancel_ok w m \<longleftrightarrow> fst m < length (sh_heap w) \<and> mu_stopping (st_at w (fst m))
     \<and> (snd m = ErrStopped \<and> mu_count (st_at w (fst m)) = 0 \<or> snd m = ErrGracePeriodExpired)"

definition armed :: "'cfg gostate \<Rightarrow> nat" where
  "armed s = (if mu_cancel s = None then 0 else 1)"

definition marks_of :: "sid \<Rightarrow> (sid \<times> goerr) multiset \<Rightarrow> nat" where
  "marks_of a M = size {#m \<in># M. fst m = a#}"

definition cancel_inv :: "'cfg conf \<Rightarrow> bool" where
  "cancel_inv c \<longleftrightarrow> (\<forall>m\<in>#conf_marks c. cancel_ok (fst c) m)
     \<and> (\<forall>a<length (sh_heap (fst c)). marks_of a (conf_marks c) + armed (st_at (fst c) a) = 1)"

lemma marks_of_plus [simp]: "marks_of a (M + N) = marks_of a M + marks_of a N"
  by (simp add: marks_of_def)

text \<open>The cancel function that a critical section hands out, and the reason it gives.\<close>

lemma hard_stop_cancels:
  "hard_stop_locked e s = (t, cbs) \<Longrightarrow> CbCancel c x \<in> set cbs \<Longrightarrow> mu_cancel s = Some c \<and> x = e"
  using hard_stop_fields(11) [of e s t cbs] by (auto split: option.splits)

lemma soft_hooks_no_cancel: "CbCancel c x \<notin> set (soft_hooks s)"
  by (auto simp: soft_hooks_def split: option.splits list.splits)

definition cancel_reason :: "'cfg gostate \<Rightarrow> goerr \<Rightarrow> bool" where
  "cancel_reason t e \<longleftrightarrow> mu_stopping t \<and> (e = ErrStopped \<and> mu_count t = 0 \<or> e = ErrGracePeriodExpired)"

lemma soft_stop_cancels:
  assumes "wf_core s" and "soft_stop_locked now g s = Inr (t, cbs)" and "CbCancel c x \<in> set cbs"
  shows "mu_cancel s = Some c \<and> cancel_reason t x"
  using assms(1)
proof (cases rule: soft_stop_cases [of _ now g])
  case (hard e u d)
  then have tc: "t = u" "cbs = soft_hooks s @ d" using assms(2) by simp_all
  then have "CbCancel c x \<in> set d" using assms(3) soft_hooks_no_cancel [of c x s] by auto
  from hard_stop_cancels [OF hard(2) this] hard_stop_fields [OF hard(2)] hard(4) tc show ?thesis
    by (auto simp: cancel_reason_def)
next
  case timer with assms(2,3) soft_hooks_no_cancel [of c x s] show ?thesis by auto
qed

lemma apply_locked_cancels:
  assumes "wf_core s" and "apply_locked now d s = Inr (t, cbs, r)" and "CbCancel c x \<in> set cbs"
  shows "mu_cancel s = Some c \<and> cancel_reason t x"
  using assms(1)
proof (cases rule: apply_locked_cases [of _ d now])
  case refused with assms(2,3) show ?thesis by (auto split: option.splits)
next
  case over with assms(2) show ?thesis by simp
next
  case plain with assms(2,3) show ?thesis by auto
next
  case (idle g u cs)
  with soft_stop_cancels [OF wf_core_count [OF assms(1) order_refl] idle(4)] assms(2,3)
  show ?thesis by simp
next
  case (last u cs)
  then have tc: "t = u" "cbs = cs" using assms(2) by simp_all
  with hard_stop_cancels [OF last(5), of c x] hard_stop_fields(1,3) [OF last(5)] assms(3) last(4)
  show ?thesis by (simp add: cancel_reason_def)
qed

lemma crit_step_cancels:
  assumes "crit_step s fs t cbs" and "wf_core s" and "CbCancel c x \<in> set cbs"
  shows "mu_cancel s = Some c \<and> cancel_reason t x"
  using assms
proof (induction rule: crit_step.induct)
  case (applied now d s t cbs r)
  then show ?case by (blast dest: apply_locked_cancels)
next
  case (stop now g s t cbs)
  then show ?case unfolding stop_locked_def by (blast dest: soft_stop_cancels)
next
  case (stop_on_idle now g s t cbs)
  show ?case
  proof (cases "mu_count s = 0")
    case True
    with stop_on_idle have "soft_stop_locked now g (s\<lparr>mu_stopOnIdle := Some g\<rparr>) = Inr (t, cbs)"
      by (simp add: stop_on_idle_locked_def)
    from soft_stop_cancels [OF wf_core_idle [OF stop_on_idle(2)] this] stop_on_idle(3) show ?thesis
      by simp
  next
    case False
    with stop_on_idle show ?thesis by (auto simp: stop_on_idle_locked_def)
  qed
next
  case (grace s t cbs)
  note g = grace(2) [unfolded grace_timer_locked_def]
  from hard_stop_cancels [OF g grace(4)] hard_stop_fields(1) [OF g] grace(1) show ?case
    by (simp add: cancel_reason_def)
qed auto

lemma cb_marks_mem: "m \<in> set (cbs_marks cbs) \<Longrightarrow> CbCancel (Cleanup (fst m)) (snd m) \<in> set cbs"
proof -
  have "m \<in> set (cb_marks cb) \<Longrightarrow> cb = CbCancel (Cleanup (fst m)) (snd m)" for cb
    by (cases cb rule: cb_marks.cases) auto
  then show "m \<in> set (cbs_marks cbs) \<Longrightarrow> ?thesis" by (fastforce simp: cbs_marks_def)
qed

lemma length_cbs_marks: "length (cbs_marks cbs) = cancels_in cbs"
proof (induction cbs)
  case (Cons cb cbs)
  then show ?case by (cases cb rule: cb_marks.cases) auto
qed simp

lemma size_filter_all: "(\<And>m. m \<in># M \<Longrightarrow> P m) \<Longrightarrow> size {#m \<in># M. P m#} = size M"
  by (metis filter_mset_eq_conv multiset_filter_mono filter_mset_True filter_mset_cong0)

lemma marks_of_section:
  assumes "crit_step s fs t cbs" and "ok_state n a s"
  shows "marks_of b (mset (cbs_marks cbs)) = (if b = a then cancels_in cbs else 0)"
proof -
  have m: "fst m = a" if "m \<in> set (cbs_marks cbs)" for m
    using crit_step_cancels [OF assms(1) ok_stateD(2) [OF assms(2)] cb_marks_mem [OF that]]
      ok_stateD(3) [OF assms(2)] by simp
  show ?thesis
  proof (cases "b = a")
    case True
    with m have "marks_of b (mset (cbs_marks cbs)) = size (mset (cbs_marks cbs))"
      unfolding marks_of_def by (intro size_filter_all) auto
    with True show ?thesis by (simp add: length_cbs_marks)
  next
    case False
    with m have "{#m \<in># mset (cbs_marks cbs). fst m = b#} = {#}" by (auto simp: filter_mset_eq_mempty_iff)
    with False show ?thesis by (simp add: marks_of_def)
  qed
qed

text \<open>A mark stays justified while its state only grows towards stopped.\<close>

lemma cancel_ok_section:
  assumes "cancel_ok w m" and "s < length (sh_heap w)" and "sh_heap w' = (sh_heap w)[s := x]"
    and "stop_grows (st_at w s) x" and "0 \<le> mu_count x"
  shows "cancel_ok w' m"
  using assms by (auto simp: cancel_ok_def stop_grows_def nth_list_update)

lemma cancel_inv_moved:
  assumes inv: "conf_inv c" and mv: "moved c c'" and ci: "cancel_inv c"
  shows "cancel_inv c'"
proof -
  let ?w = "fst c" and ?w' = "fst c'"
  have w: "wf_heap ?w" using inv by (cases c) (simp add: conf_inv_def)
  from mv consider (same) "sh_heap ?w' = sh_heap ?w" "conf_marks c' = conf_marks c"
    | (alloc) cfg p where
        "sh_heap ?w' = sh_heap ?w @ [new_state (Cleanup (length (sh_heap ?w))) cfg p]"
        "conf_marks c' = conf_marks c"
    | (sect) s fs x cbs where "s < length (sh_heap ?w)" "sh_heap ?w' = (sh_heap ?w)[s := x]"
        "crit_step (st_at ?w s) fs x cbs" "conf_marks c' = conf_marks c + mset (cbs_marks cbs)"
    unfolding moved_def by blast
  then show ?thesis
  proof cases
    case same
    with ci show ?thesis by (simp add: cancel_inv_def cancel_ok_def)
  next
    case alloc
    have "marks_of (length (sh_heap ?w)) (conf_marks c) = 0"
      using ci by (auto simp: cancel_inv_def marks_of_def filter_mset_eq_mempty_iff cancel_ok_def)
    with alloc ci show ?thesis
      by (auto simp: cancel_inv_def cancel_ok_def nth_append less_Suc_eq armed_def)
  next
    case (sect s fs x cbs)
    have ok: "ok_state (length (sh_heap ?w)) s (st_at ?w s)" using wf_heapD(1) [OF w sect(1)] .
    note core = ok_stateD(2) [OF ok] and wfs = ok_stateD(1) [OF ok]
    have g: "stop_grows (st_at ?w s) x" by (rule crit_step_grows [OF sect(3) core])
    have "wf_state x" by (rule crit_step_wf [OF sect(3) wfs])
    then have n: "0 \<le> mu_count x" by (simp add: wf_state_def wf_core_def)
    have old: "cancel_ok ?w' m" if "m \<in># conf_marks c" for m
      using that ci cancel_ok_section [OF _ sect(1,2) g n] by (auto simp: cancel_inv_def)
    have new: "cancel_ok ?w' m" if "m \<in> set (cbs_marks cbs)" for m
    proof -
      have "mu_cancel (st_at ?w s) = Some (Cleanup (fst m))" "cancel_reason x (snd m)"
        using crit_step_cancels [OF sect(3) core cb_marks_mem [OF that]] by simp_all
      with ok_stateD(3) [OF ok] sect(1,2) show ?thesis
        by (auto simp: cancel_ok_def cancel_reason_def)
    qed
    have "marks_of a (mset (cbs_marks cbs)) + armed (st_at ?w' a) = armed (st_at ?w a)"
      if "a < length (sh_heap ?w)" for a
    proof -
      have "armed (st_at ?w s) = armed x + cancels_in cbs"
        using crit_step_moves [OF sect(3) core] unfolding moves_def armed_def by (rule conjunct2)
      with marks_of_section [OF sect(3) ok, of a] sect(1,2) that show ?thesis
        by (simp add: nth_list_update)
    qed
    with ci sect(2,4) have "marks_of a (conf_marks c') + armed (st_at ?w' a) = 1"
      if "a < length (sh_heap ?w')" for a
      using that by (simp add: cancel_inv_def add.assoc)
    with old new sect(4) show ?thesis by (auto simp: cancel_inv_def)
  qed
qed

lemma cancel_inv_init: "cancel_inv init_conf"
  by (simp add: cancel_inv_def init_conf_def conf_marks_def done_marks_def)

interpretation cancelling: invariant_system
  "\<lambda>c. c = init_conf" gstep "\<lambda>c. conf_inv c \<and> cancel_inv c"
  by unfold_locales
    (use conf_inv_init cancel_inv_init conf_inv_step gstep_moved cancel_inv_moved in blast)+

section \<open>Running tasks\<close>

text \<open>
  \<open>holds k\<close> lists the states whose \<open>Apply(-1)\<close> is still on a stack; below the top frame these are
  the tasks whose function has not returned. A frame in flight is in the middle of an \<open>Apply\<close>.
\<close>

fun holds :: "frame list \<Rightarrow> sid list" where
  "holds [] = []"
| "holds (FApply t d # k) = (if d = -1 then t # holds k else holds k)"
| "holds (f # k) = holds k"

definition running :: "frame list \<Rightarrow> sid list" where
  "running k = holds (tl k)"

definition tasks_under :: "'cfg shared \<Rightarrow> sid \<Rightarrow> frame list list \<Rightarrow> nat" where
  "tasks_under w a P = length (filter (\<lambda>t. a \<in> set (ancs (parents w) t)) (concat (map running P)))"

fun in_flight :: "frame \<Rightarrow> bool" where
  "in_flight (FApplyLock t d) \<longleftrightarrow> True"
| "in_flight (FRet b) \<longleftrightarrow> True"
| "in_flight (FTask t) \<longleftrightarrow> True"
| "in_flight (FGo t) \<longleftrightarrow> True"
| "in_flight (FRun s cbs) \<longleftrightarrow> (\<exists>cb\<in>set cbs. case cb of CbParentApply p d \<Rightarrow> True | _ \<Rightarrow> False)"
| "in_flight _ \<longleftrightarrow> False"

fun at_rest :: "frame list \<Rightarrow> bool" where
  "at_rest [] \<longleftrightarrow> True"
| "at_rest (FApply t d # k) \<longleftrightarrow> False"
| "at_rest (f # k) \<longleftrightarrow> \<not> list_ex in_flight (f # k)"

lemma holds_owes: "t \<in> set (holds k) \<Longrightarrow> a \<in> set (ancs ps t) \<Longrightarrow> 1 \<le> owes ps a k"
proof (induction k rule: holds.induct)
  case (2 u d k)
  have "0 \<le> owes ps a k" by simp
  with 2 show ?case by (cases "d = -1"; cases "t = u") (auto intro: add_increasing)
qed (auto intro: add_increasing simp del: frame_owes.simps)

lemma running_holds: "t \<in> set (running k) \<Longrightarrow> t \<in> set (holds k)"
  by (cases k; cases "hd k") (auto simp: running_def)

lemma quiet_frame_owes:
  assumes "\<not> in_flight f" and "\<forall>t d. f \<noteq> FApply t d"
  shows "frame_owes ps a f k = 0"
proof (cases f)
  case (FRun s cbs)
  with assms have "\<forall>cb\<in>set cbs. cb_owes ps a cb = 0"
    by (auto split: callback.splits) (metis cb_owes.simps(2-4) callback.exhaust)
  then have "sum_list (map (cb_owes ps a) cbs) = 0" by (induction cbs) auto
  with FRun show ?thesis by simp
qed (use assms in auto)

text \<open>The decrements of a well-formed stack with no increment in flight are by one.\<close>

definition unit_frames :: "frame list \<Rightarrow> bool" where
  "unit_frames k \<longleftrightarrow> (\<forall>t d. FApply t d \<in> set k \<longrightarrow> d = -1)"

lemma quiet_owes:
  assumes "\<not> list_ex in_flight k" and "unit_frames k"
  shows "owes ps a k = int (length (filter (\<lambda>t. a \<in> set (ancs ps t)) (holds k)))"
  using assms
proof (induction k)
  case Nil
  then show ?case by simp
next
  case (Cons f k)
  have k: "unit_frames k" using Cons(3) by (simp add: unit_frames_def)
  show ?case
  proof (cases "\<exists>t d. f = FApply t d")
    case True
    then obtain t d where f: "f = FApply t d" by blast
    then have "d = -1" using Cons(3) by (auto simp: unit_frames_def)
    with f Cons k show ?thesis by simp
  next
    case False
    have "holds (f # k) = holds k" using False by (cases f) auto
    with False Cons k quiet_frame_owes [of f ps a k] show ?thesis by simp
  qed
qed

lemma wf_unit_frames: "wf_stack ps k \<Longrightarrow> \<not> list_ex in_flight k \<Longrightarrow> unit_frames k"
proof (induction k)
  case (Cons f k)
  have "d = -1" if f: "f = FApply t d" for t d
  proof -
    have "ok_ret ps t d k" "d = 1 \<or> d = -1" using Cons(2) f by auto
    moreover have "\<not> list_ex in_flight k" using Cons(3) by simp
    ultimately show ?thesis by (cases "(ps, t, d, k)" rule: ok_ret.cases) auto
  qed
  with Cons show ?case by (auto simp: unit_frames_def)
qed (simp add: unit_frames_def)

lemma at_rest_quiet: "at_rest k \<Longrightarrow> \<not> list_ex in_flight k \<and> running k = holds k"
  by (cases k rule: at_rest.cases) (auto simp: running_def)

lemma at_rest_owes:
  "wf_stack ps k \<Longrightarrow> at_rest k \<Longrightarrow>
     owes ps a k = int (length (filter (\<lambda>t. a \<in> set (ancs ps t)) (running k)))"
  using at_rest_quiet [of k] wf_unit_frames [of ps k] quiet_owes [of k ps a] by simp

lemma sum_list_lengths:
  "(\<And>k. k \<in> set P \<Longrightarrow> f k = int (length (filter Q (g k)))) \<Longrightarrow>
     sum_list (map f P) = int (length (filter Q (concat (map g P))))"
  by (induction P) auto

lemma conf_inv_running:
  assumes "conf_inv (w, P)" and "k \<in> set P" and "t \<in> set (running k)" and "a \<in> set (ancs (parents w) t)"
    and "a < length (sh_heap w)"
  shows "1 \<le> mu_count (st_at w a)"
  using holds_owes [OF running_holds [OF assms(3)] assms(4)] conf_inv_enough [OF assms(1,2,5)]
  by (rule order_trans)

lemma conf_inv_at_rest:
  assumes "conf_inv (w, P)" and "\<forall>k\<in>set P. at_rest k" and "a < length (sh_heap w)"
  shows "mu_count (st_at w a) = int (tasks_under w a P)"
proof -
  have "mu_count (st_at w a) = sum_list (map (owes (parents w) a) P)"
    using assms(1,3) by (simp add: conf_inv_def)
  also have "\<dots> = int (length (filter (\<lambda>t. a \<in> set (ancs (parents w) t)) (concat (map running P))))"
    by (rule sum_list_lengths) (use assms(1,2) at_rest_owes in \<open>auto simp: conf_inv_def goroutine_ok_def\<close>)
  finally show ?thesis by (simp add: tasks_under_def)
qed

section \<open>Runs that grow\<close>

lemma gstep_grows:
  assumes "gstep c c'" and "conf_inv c" and "a < length (sh_heap (fst c))"
  shows "a < length (sh_heap (fst c')) \<and> stop_grows (st_at (fst c) a) (st_at (fst c') a)"
proof -
  have w: "wf_heap (fst c)" using assms(2) by (cases c) (simp add: conf_inv_def)
  have sect: "stop_grows (st_at (fst c) s) x"
    if "s < length (sh_heap (fst c))" "crit_step (st_at (fst c) s) fs x cbs" for s fs x cbs
    using crit_step_grows [OF that(2) wf_heapD(3) [OF w that(1)]] .
  from gstep_moved [OF assms(1,2)] show ?thesis
    unfolding moved_def
  proof (elim disjE exE conjE)
    fix s fs x cbs
    assume "s < length (sh_heap (fst c))" "sh_heap (fst c') = (sh_heap (fst c))[s := x]"
      "crit_step (st_at (fst c) s) fs x cbs"
    with sect assms(3) show ?thesis by (auto simp: nth_list_update)
  qed (use assms(3) in \<open>auto simp: nth_append\<close>)
qed

lemma gsteps_grow:
  assumes "gstep\<^sup>*\<^sup>* c c'" and "conf_inv c" and "a < length (sh_heap (fst c))"
  shows "a < length (sh_heap (fst c')) \<and> stop_grows (st_at (fst c) a) (st_at (fst c') a)"
  using assms(1)
proof (induction rule: rtranclp_induct)
  case base
  with assms(3) show ?case by simp
next
  case (step d d')
  have "conf_inv d" using machine.inv_steps [OF step(1) assms(2)] .
  with gstep_grows [OF step(2)] step(3) stop_grows_trans show ?case by blast
qed

end
