(* ===== verification/Machine_Claims.thy ===== *)
theory Machine_Claims
  imports Machine_Theorems
begin

text \<open>
  Schedules of the interleaved machine, a concrete one, and the properties of internal/state for
  every reachable configuration.
\<close>

section \<open>Schedules\<close>

text \<open>\<open>run_acts is c\<close> lets the goroutines with the given indices take one action each, in order.\<close>

fun run_acts :: "nat list \<Rightarrow> 'cfg conf \<Rightarrow> 'cfg conf option" where
  "run_acts [] c = Some c"
| "run_acts (i # is) (w, P) =
     (if i < length P then
        (case micro w (P ! i) of
           None \<Rightarrow> None
         | Some (w', k', sp) \<Rightarrow> run_acts is (w', P[i := k'] @ sp))
      else None)"

lemma run_acts_gsteps: "run_acts is c = Some c' \<Longrightarrow> gstep\<^sup>*\<^sup>* c c'"
proof (induction "is" c rule: run_acts.induct)
  case (2 i "is" w P)
  then obtain w' k' sp where m: "i < length P" "micro w (P ! i) = Some (w', k', sp)"
    "run_acts is (w', P[i := k'] @ sp) = Some c'"
    by (auto split: if_splits option.splits prod.splits)
  from 2(1) [OF m(1,2) refl refl m(3)] gstep.act [OF m(1,2)] show ?case
    by (rule converse_rtranclp_into_rtranclp [rotated])
qed simp

text \<open>
  One goroutine creates a root context and calls a task on it (\<open>task_conf\<close>); while the task runs it
  calls \<open>Defer\<close> and \<open>Stop\<close> (\<open>stopping_conf\<close>), and then it returns (\<open>stopped_conf\<close>).
\<close>

definition root_shared :: "nat shared" where
  "root_shared = alloc_state 7 None (fst init_conf)"

definition task_conf :: "nat conf" where
  "task_conf = (put_st root_shared 0 (sample_state\<lparr>mu_count := 1\<rparr>),
     [[FUser, FApply 0 (-1), FIgnore, FUser]])"

definition stopping_conf :: "nat conf" where
  "stopping_conf = (put_st root_shared 0 (sample_state\<lparr>mu_count := 1, mu_deferred := [3],
       mu_stopping := True, stopping_closed := True, mu_stopAt := Some 5, mu_graceTimer := Some 0,
       rt_timers := [\<lparr>tm_deadline = 5, tm_active = True\<rparr>]\<rparr>),
     [[FUser, FApply 0 (-1), FIgnore, FUser]])"

definition stopped_conf :: "nat conf" where
  "stopped_conf =
     ((put_st root_shared 0 (sample_state\<lparr>mu_stopping := True, stopping_closed := True,
         mu_cancel := None, rt_timers := [\<lparr>tm_deadline = 5, tm_active = False\<rparr>]\<rparr>))
       \<lparr>sh_cause := [Some ErrStopped], sh_trace := [EvRan 0 3, EvCancel 0 ErrStopped]\<rparr>,
      [[FUser]])"

lemma eff_cause_root: "s < length cs \<Longrightarrow> s < length ps \<Longrightarrow> ps ! s = None \<Longrightarrow> eff_cause ps cs s = cs ! s"
  by (subst eff_cause.simps) (auto split: option.splits)

lemmas machine_eval = micro_def apply_enter_def apply_resume_def apply_locked_def run_deferred_def
  after_lock_def stop_locked_def soft_stop_locked_def hard_stop_locked_def close_stopping_def
  update_grace_timer_locked_def after_func_def timer_stop_def add_deferred_frames_def add_deferred_def
  cleanup_frames_def cancel_ctx_def context_cause_def eff_cause_root is_stopping_def parent_of_def
  put_st_def root_shared_def alloc_state_def init_conf_def sample_state_def new_state_def

lemma calling_reachable: "gstep\<^sup>*\<^sup>* init_conf (root_shared, [[FApply 0 1, FTask 0, FUser]])"
proof -
  let ?w = "root_shared"
  have 1: "gstep init_conf (fst init_conf, [[FUser]])"
    using gstep.spawn [of "fst init_conf" "[]"] by (simp add: init_conf_def)
  have 2: "gstep (fst init_conf, [[FUser]]) (?w, [[FUser]])"
    unfolding root_shared_def by (rule gstep.user_root [of 0]) auto
  have 3: "gstep (?w, [[FUser]]) (?w, [[FApply 0 1, FTask 0, FUser]])"
    using gstep.user_call [of 0 "[[FUser]]" FUser "[]" ?w "[FApply 0 1, FTask 0]"] api_call.intros(1) [of 0 ?w]
    by (simp add: root_shared_def)
  from 1 2 3 show ?thesis by (meson converse_rtranclp_into_rtranclp rtranclp.rtrancl_refl)
qed

lemma task_conf_reachable: "gstep\<^sup>*\<^sup>* init_conf task_conf"
proof -
  have "run_acts [0, 0, 0, 0] (root_shared, [[FApply 0 1, FTask 0, FUser]]) = Some task_conf"
    by (simp add: task_conf_def machine_eval)
  from rtranclp_trans [OF calling_reachable run_acts_gsteps [OF this]] show ?thesis .
qed

lemma stopping_conf_reachable: "gstep\<^sup>*\<^sup>* task_conf stopping_conf"
proof -
  let ?k = "[FApply 0 (-1), FIgnore, FUser]"
  let ?w = "fst task_conf"
  let ?w1 = "put_st ?w 0 (sample_state\<lparr>mu_count := 1, mu_deferred := [3]\<rparr>)"
  have t: "task_conf = (?w, [FUser # ?k])" by (simp add: task_conf_def)
  have len: "0 < length (sh_heap ?w)" "0 < length (sh_heap ?w1)"
    by (simp_all add: task_conf_def root_shared_def)
  have 1: "gstep (?w, [FUser # ?k]) (?w, [FDefer 0 3 # FUser # ?k])"
    using gstep.user_call [of 0 "[FUser # ?k]" FUser ?k ?w "[FDefer 0 3]"] api_call.intros(5) [OF len(1)] by simp
  have 2: "run_acts [0] (?w, [FDefer 0 3 # FUser # ?k]) = Some (?w1, [FUser # ?k])"
    by (simp add: task_conf_def machine_eval)
  have 3: "gstep (?w1, [FUser # ?k]) (?w1, [FStop 0 5 # FUser # ?k])"
    using gstep.user_call [of 0 "[FUser # ?k]" FUser ?k ?w1 "[FStop 0 5]"] api_call.intros(3) [OF len(2)] by simp
  have 4: "run_acts [0, 0] (?w1, [FStop 0 5 # FUser # ?k]) = Some stopping_conf"
    by (simp add: task_conf_def stopping_conf_def machine_eval)
  from 1 3 run_acts_gsteps [OF 2] run_acts_gsteps [OF 4]
  have "gstep\<^sup>*\<^sup>* (?w, [FUser # ?k]) stopping_conf"
    by (meson converse_rtranclp_into_rtranclp rtranclp_trans)
  then show ?thesis by (simp only: t [symmetric])
qed

text \<open>The task returns; its \<open>Apply(-1)\<close> runs the deferred function and cancels the context.\<close>

abbreviation deferring_shared :: "nat shared" where
  "deferring_shared \<equiv> (put_st (fst stopping_conf) 0 (sample_state\<lparr>mu_stopping := True,
     stopping_closed := True, mu_cancel := None,
     rt_timers := [\<lparr>tm_deadline = 5, tm_active = False\<rparr>]\<rparr>))\<lparr>sh_trace := [EvRan 0 3]\<rparr>"

abbreviation cancelling_stack :: "frame list" where
  "cancelling_stack \<equiv> [FRun 0 [CbCancel (Cleanup 0) ErrStopped], FRet True, FIgnore, FUser]"

lemma stopping_acts:
  "run_acts [0, 0, 0] (fst stopping_conf, [[FApply 0 (-1), FIgnore, FUser]])
     = Some (deferring_shared, [FUserCb 0 3 # cancelling_stack])"
  "run_acts [0, 0, 0, 0, 0] (deferring_shared, [cancelling_stack]) = Some stopped_conf"
  by (simp_all add: stopping_conf_def stopped_conf_def machine_eval)

lemma stopped_conf_reachable: "gstep\<^sup>*\<^sup>* task_conf stopped_conf"
proof -
  let ?k = "[FApply 0 (-1), FIgnore, FUser]"
  have s: "stopping_conf = (fst stopping_conf, [FUser # ?k])" by (simp add: stopping_conf_def)
  have 1: "gstep (fst stopping_conf, [FUser # ?k]) (fst stopping_conf, [?k])"
    using gstep.user_done [of 0 "[FUser # ?k]" ?k "fst stopping_conf"] by simp
  have 2: "gstep (deferring_shared, [FUserCb 0 3 # cancelling_stack]) (deferring_shared, [cancelling_stack])"
    using gstep.callback_done [of 0 "[FUserCb 0 3 # cancelling_stack]" 0 3 cancelling_stack "[]" "Return None"
        None deferring_shared]
    by (simp add: call_e_def safe_call_def)
  from 1 2 run_acts_gsteps [OF stopping_acts(1)] run_acts_gsteps [OF stopping_acts(2)]
  have "gstep\<^sup>*\<^sup>* (fst stopping_conf, [FUser # ?k]) stopped_conf"
    by (meson converse_rtranclp_into_rtranclp rtranclp_trans)
  with s stopping_conf_reachable show ?thesis by (metis rtranclp_trans)
qed

section \<open>Properties of every reachable configuration\<close>

text \<open>
  C12: no interleaving makes \<open>State\<close> panic (neither the over-release panic of \<open>Apply\<close> nor a double
  close of the stopping channel), and every state of the tree stays well formed, in particular no
  task count is negative.
\<close>

theorem no_panic:
  assumes "gstep\<^sup>*\<^sup>* init_conf (w, P)"
  shows "(\<forall>k\<in>set P. \<forall>c. FPanic c \<notin> set k)
    \<and> (\<forall>a<length (sh_heap w). wf_state (st_at w a) \<and> 0 \<le> len_of (st_at w a))"
proof -
  have inv: "conf_inv (w, P)" using machine.inv_reachable [OF refl assms] .
  have no: "FPanic c \<notin> set k" if "wf_stack ps k" for ps c k
    using that by (induction k) auto
  from inv have "\<forall>k\<in>set P. \<forall>c. FPanic c \<notin> set k"
    by (auto simp: conf_inv_def goroutine_ok_def dest: no)
  moreover have "wf_state (st_at w a) \<and> 0 \<le> len_of (st_at w a)" if "a < length (sh_heap w)" for a
    using inv wf_heapD [of w a] that by (auto simp: conf_inv_def wf_core_def len_of_def)
  ultimately show ?thesis by blast
qed

theorem no_panic_witness:
  "wf_state (st_at (fst stopped_conf) 0) \<and> 0 \<le> len_of (st_at (fst stopped_conf) 0)"
proof -
  have "gstep\<^sup>*\<^sup>* init_conf (fst stopped_conf, snd stopped_conf)"
    using rtranclp_trans [OF task_conf_reachable stopped_conf_reachable] by simp
  moreover have "0 < length (sh_heap (fst stopped_conf))"
    by (simp add: stopped_conf_def root_shared_def)
  ultimately show ?thesis using no_panic by blast
qed

text \<open>
  C4: \<open>Len\<close> is exact. When no goroutine is in the middle of an \<open>Apply\<close>, a context's count is the
  number of tasks, started on it or on a context below it, whose function has not returned.
\<close>

theorem len_counts_tasks:
  assumes "gstep\<^sup>*\<^sup>* init_conf (w, P)" and "\<forall>k\<in>set P. at_rest k" and "a < length (sh_heap w)"
  shows "len_of (st_at w a) = int (tasks_under w a P)"
  using conf_inv_at_rest [OF machine.inv_reachable [OF refl assms(1)] assms(2,3)]
  by (simp add: len_of_def)

theorem len_counts_tasks_witness: "len_of (st_at (fst task_conf) 0) = int 1"
proof -
  have "gstep\<^sup>*\<^sup>* init_conf (fst task_conf, snd task_conf)" using task_conf_reachable by simp
  moreover have "\<forall>k\<in>set (snd task_conf). at_rest k" by (simp add: task_conf_def)
  moreover have "0 < length (sh_heap (fst task_conf))"
    by (simp add: task_conf_def root_shared_def)
  moreover have "tasks_under (fst task_conf) 0 (snd task_conf) = 1"
    by (simp add: tasks_under_def task_conf_def running_def root_shared_def sample_state_def
        new_state_def init_conf_def ancs_root put_st_def)
  ultimately show ?thesis using len_counts_tasks by metis
qed

text \<open>
  C1: a running task keeps its whole chain of contexts alive: every ancestor counts it, and no
  ancestor has been canceled with \<open>ErrStopped\<close> (a clean stop), even while other goroutines are in
  the middle of starting, finishing or stopping.
\<close>

theorem running_task_protects:
  assumes "gstep\<^sup>*\<^sup>* init_conf (w, P)" and "k \<in> set P" and "t \<in> set (running k)"
    and "a \<in> set (ancs (parents w) t)"
  shows "1 \<le> len_of (st_at w a) \<and> EvCancel a ErrStopped \<notin> set (sh_trace w)"
proof -
  have inv: "conf_inv (w, P)" and ci: "cancel_inv (w, P)"
    using cancelling.inv_reachable [OF refl assms(1)] by auto
  have "a < length (sh_heap w)"
    using ancs_le [OF assms(4)] mem_ancs [of a "parents w" t] assms(4) by simp
  then have one: "1 \<le> mu_count (st_at w a)" using conf_inv_running [OF inv assms(2-4)] by simp
  moreover have "EvCancel a ErrStopped \<notin> set (sh_trace w)"
  proof
    assume "EvCancel a ErrStopped \<in> set (sh_trace w)"
    then have "(a, ErrStopped) \<in># conf_marks (w, P)"
      by (force simp: conf_marks_def done_marks_def)
    then have "cancel_ok w (a, ErrStopped)" using ci by (simp add: cancel_inv_def)
    with one show False by (simp add: cancel_ok_def)
  qed
  ultimately show ?thesis by (simp add: len_of_def)
qed

theorem running_task_protects_witness:
  "1 \<le> len_of (st_at (fst task_conf) 0) \<and> EvCancel 0 ErrStopped \<notin> set (sh_trace (fst task_conf))"
proof (rule running_task_protects [of _ "snd task_conf" "[FUser, FApply 0 (-1), FIgnore, FUser]" 0])
  show "gstep\<^sup>*\<^sup>* init_conf (fst task_conf, snd task_conf)" using task_conf_reachable by simp
qed (simp_all add: task_conf_def running_def ancs_root root_shared_def init_conf_def put_st_def
      sample_state_def new_state_def)

text \<open>
  C25: stopping is final. From a configuration in which a context is stopping, whatever the goroutines
  do, it stays stopping, its task count never grows again, a hard stop is never undone, and no
  collected error is lost or reordered.
\<close>

theorem stopping_is_final:
  assumes "gstep\<^sup>*\<^sup>* init_conf (w, P)" and "gstep\<^sup>*\<^sup>* (w, P) (w', P')" and "a < length (sh_heap w)"
  shows "(is_stopping (st_at w a) \<longrightarrow>
      is_stopping (st_at w' a) \<and> len_of (st_at w' a) \<le> len_of (st_at w a))
    \<and> (mu_cancel (st_at w a) = None \<longrightarrow> mu_cancel (st_at w' a) = None)
    \<and> (\<exists>es. errors_of (st_at w' a) = errors_of (st_at w a) @ es)"
  using gsteps_grow [OF assms(2) machine.inv_reachable [OF refl assms(1)]] assms(3)
  by (auto simp: stop_grows_def is_stopping_def len_of_def errors_of_def)

theorem stopping_is_final_witness:
  "mu_cancel (st_at (fst stopped_conf) 0) = None
   \<and> (\<exists>es. errors_of (st_at (fst stopped_conf) 0) = errors_of (st_at (fst task_conf) 0) @ es)"
proof -
  have "gstep\<^sup>*\<^sup>* init_conf (fst task_conf, snd task_conf)" using task_conf_reachable by simp
  moreover have "gstep\<^sup>*\<^sup>* (fst task_conf, snd task_conf) (fst stopped_conf, snd stopped_conf)"
    using stopped_conf_reachable by simp
  moreover have "0 < length (sh_heap (fst task_conf))"
    by (simp add: task_conf_def root_shared_def)
  ultimately have "\<exists>es. errors_of (st_at (fst stopped_conf) 0) = errors_of (st_at (fst task_conf) 0) @ es"
    using stopping_is_final by blast
  then show ?thesis by (simp add: stopped_conf_def put_st_def root_shared_def alloc_state_def init_conf_def)
qed

text \<open>
  C18: the reason a context is canceled with is the truth, for ever: \<open>ErrStopped\<close> means that it is
  stopping and no task runs on it or below it, and the only other reason is \<open>ErrGracePeriodExpired\<close>,
  given to a stopping context.
\<close>

theorem cancel_reason_true:
  assumes "gstep\<^sup>*\<^sup>* init_conf (w, P)" and "EvCancel a e \<in> set (sh_trace w)"
  shows "a < length (sh_heap w) \<and> is_stopping (st_at w a)
    \<and> (e = ErrStopped \<and> len_of (st_at w a) = 0
          \<and> (\<forall>k\<in>set P. \<forall>t\<in>set (running k). a \<notin> set (ancs (parents w) t))
       \<or> e = ErrGracePeriodExpired)"
proof -
  have inv: "conf_inv (w, P)" and ci: "cancel_inv (w, P)"
    using cancelling.inv_reachable [OF refl assms(1)] by auto
  have "(a, e) \<in># conf_marks (w, P)" using assms(2) by (force simp: conf_marks_def done_marks_def)
  then have ok: "cancel_ok w (a, e)" using ci by (simp add: cancel_inv_def)
  have "a \<notin> set (ancs (parents w) t)"
    if "mu_count (st_at w a) = 0" "k \<in> set P" "t \<in> set (running k)" for k t
    using conf_inv_running [OF inv that(2,3), of a] ok that(1) by (auto simp: cancel_ok_def)
  with ok show ?thesis by (auto simp: cancel_ok_def is_stopping_def len_of_def)
qed

theorem cancel_reason_true_witness:
  "is_stopping (st_at (fst stopped_conf) 0) \<and> len_of (st_at (fst stopped_conf) 0) = 0"
proof -
  have "gstep\<^sup>*\<^sup>* init_conf (fst stopped_conf, snd stopped_conf)"
    using rtranclp_trans [OF task_conf_reachable stopped_conf_reachable] by simp
  moreover have "EvCancel 0 ErrStopped \<in> set (sh_trace (fst stopped_conf))"
    by (simp add: stopped_conf_def)
  ultimately show ?thesis using cancel_reason_true by fastforce
qed

text \<open>
  A context's cancel function is called at most once, and only after the state has given it up;
  once no goroutine has a call of it pending, it has been called exactly when it was given up.
\<close>

theorem cancelled_once:
  assumes "gstep\<^sup>*\<^sup>* init_conf (w, P)" and "a < length (sh_heap w)"
  shows "length (filter (\<lambda>m. fst m = a) (done_marks w)) \<le> 1
    \<and> ((\<forall>k\<in>set P. stack_marks k = []) \<longrightarrow>
        (length (filter (\<lambda>m. fst m = a) (done_marks w)) = 1 \<longleftrightarrow> mu_cancel (st_at w a) = None))"
proof -
  have "cancel_inv (w, P)" using cancelling.inv_reachable [OF refl assms(1)] by auto
  then have "marks_of a (conf_marks (w, P)) + armed (st_at w a) = 1"
    using assms(2) by (simp add: cancel_inv_def)
  then have sum: "marks_of a (mset (done_marks w)) + marks_of a (mset (concat (map stack_marks P)))
      + armed (st_at w a) = 1"
    by (simp add: conf_marks_def)
  have len: "marks_of a (mset (done_marks w)) = length (filter (\<lambda>m. fst m = a) (done_marks w))"
    by (metis marks_of_def mset_filter size_mset)
  have "marks_of a (mset (concat (map stack_marks P))) = 0" if "\<forall>k\<in>set P. stack_marks k = []"
    using that by (simp add: marks_of_def cong: map_cong)
  with sum show ?thesis unfolding len by (auto simp: armed_def split: if_splits)
qed

theorem cancelled_once_witness:
  "length (filter (\<lambda>m. fst m = 0) (done_marks (fst stopped_conf))) = 1"
proof -
  have "gstep\<^sup>*\<^sup>* init_conf (fst stopped_conf, snd stopped_conf)"
    using rtranclp_trans [OF task_conf_reachable stopped_conf_reachable] by simp
  moreover have "0 < length (sh_heap (fst stopped_conf))"
    by (simp add: stopped_conf_def root_shared_def)
  moreover have "\<forall>k\<in>set (snd stopped_conf). stack_marks k = []" "mu_cancel (st_at (fst stopped_conf) 0) = None"
    by (simp_all add: stopped_conf_def root_shared_def)
  ultimately show ?thesis using cancelled_once by blast
qed


section \<open>The types of the states\<close>

lemma one_active: "wf_timers s \<Longrightarrow> length (filter tm_active (rt_timers s)) \<le> 1"
proof -
  assume "wf_timers s"
  then have "\<exists>t. {i. i < length (rt_timers s) \<and> tm_active (rt_timers s ! i)} \<subseteq> {t}"
    unfolding wf_timers_def by (cases "mu_graceTimer s") auto
  then obtain t where "{i. i < length (rt_timers s) \<and> tm_active (rt_timers s ! i)} \<subseteq> {t}" by blast
  from card_mono [OF _ this] show ?thesis by (simp add: length_filter_conv_card)
qed

text \<open>
  C29: the states are well typed in every reachable configuration. The channel is closed exactly when
  the stopping flag is set, the count is not negative, a spent cancel function means stopping, an
  idle stopping state has spent its cancel function, an idle state with \<open>StopOnIdle\<close> is stopping, a busy
  stopping one whose cancel function is still there has a grace timer, at most one timer is active,
  the cancel function is the state's own and a parent is an older state.
\<close>

theorem states_well_formed:
  assumes "gstep\<^sup>*\<^sup>* init_conf (w, P)" and "a < length (sh_heap w)"
  shows "(stopping_closed (st_at w a) \<longleftrightarrow> is_stopping (st_at w a)) \<and> 0 \<le> len_of (st_at w a)
    \<and> (mu_cancel (st_at w a) = None \<longrightarrow> is_stopping (st_at w a))
    \<and> (is_stopping (st_at w a) \<and> len_of (st_at w a) = 0 \<longrightarrow> mu_cancel (st_at w a) = None)
    \<and> (is_stop_on_idle (st_at w a) \<and> len_of (st_at w a) = 0 \<longrightarrow> is_stopping (st_at w a))
    \<and> (is_stopping (st_at w a) \<and> 0 < len_of (st_at w a) \<and> mu_cancel (st_at w a) \<noteq> None \<longrightarrow>
         mu_graceTimer (st_at w a) \<noteq> None)
    \<and> length (filter tm_active (rt_timers (st_at w a))) \<le> 1
    \<and> (\<forall>c. mu_cancel (st_at w a) = Some c \<longrightarrow> c = Cleanup a)
    \<and> (\<forall>p. parent_of (st_at w a) = Some p \<longrightarrow> p < a)"
proof -
  have w: "wf_heap w" using machine.inv_reachable [OF refl assms(1)] by (simp add: conf_inv_def)
  note s = wf_heapD [OF w assms(2)]
  have "length (filter tm_active (rt_timers (st_at w a))) \<le> 1"
    using s(3) by (intro one_active) (simp add: wf_core_def)
  moreover have "\<forall>p. parent_of (st_at w a) = Some p \<longrightarrow> p < a"
    using w assms(2) wf_parentsD [of "parents w" a] by (simp add: wf_heap_def parent_of_def)
  moreover have "\<forall>c. mu_cancel (st_at w a) = Some c \<longrightarrow> c = Cleanup a"
    using s(1) by (simp add: ok_state_def)
  ultimately show ?thesis
    using s(2) unfolding wf_state_def wf_core_def is_stopping_def len_of_def is_stop_on_idle_def
    by (intro conjI) simp_all
qed

theorem states_well_formed_witness:
  "stopping_closed (st_at (fst stopping_conf) 0) \<and> mu_graceTimer (st_at (fst stopping_conf) 0) \<noteq> None
     \<and> length (filter tm_active (rt_timers (st_at (fst stopping_conf) 0))) \<le> 1"
proof -
  have reach: "gstep\<^sup>*\<^sup>* init_conf (fst stopping_conf, snd stopping_conf)"
    using rtranclp_trans [OF task_conf_reachable stopping_conf_reachable] by simp
  have f: "0 < length (sh_heap (fst stopping_conf))" "is_stopping (st_at (fst stopping_conf) 0)"
    "0 < len_of (st_at (fst stopping_conf) 0)" "mu_cancel (st_at (fst stopping_conf) 0) \<noteq> None"
    by (simp_all add: stopping_conf_def root_shared_def is_stopping_def sample_state_def len_of_def)
  from states_well_formed [OF reach f(1)] f(2-4) show ?thesis by blast
qed

end
