(* ===== verification/Machine_Drain.thy ===== *)
theory Machine_Drain
  imports Machine_Claims
begin

text \<open>
  The work that is left in a configuration of the interleaved machine. If user code returns and calls
  nothing more, every step makes a weight of the goroutines' stacks and of the stored hooks, deferred
  functions and cancel functions smaller, and a goroutine with frames left can always take a step.
\<close>

section \<open>Draining\<close>

text \<open>The steps that finish what has begun: actions of goroutines and returns of user code.\<close>

inductive drain_step :: "'cfg conf \<Rightarrow> 'cfg conf \<Rightarrow> bool" where
  drain_act: "i < length P \<Longrightarrow> micro w (P ! i) = Some (w', k', sp) \<Longrightarrow>
     drain_step (w, P) (w', P[i := k'] @ sp)"
| drain_user: "i < length P \<Longrightarrow> P ! i = FUser # k \<Longrightarrow> drain_step (w, P) (w, P[i := k])"
| drain_callback: "i < length P \<Longrightarrow> P ! i = FUserCb s f # k \<Longrightarrow>
     snd (call_e pcs (\<lambda>u. (u, out)) ()) = e \<Longrightarrow>
     drain_step (w, P) (w, P[i := (if e = None then k else FAddErrors s [e] # k)])"

lemma drain_gstep: "drain_step c c' \<Longrightarrow> gstep c c'"
  by (induction rule: drain_step.induct) (rule gstep.act gstep.user_done gstep.callback_done; assumption)+

lemma drain_gsteps: "drain_step\<^sup>*\<^sup>* c c' \<Longrightarrow> gstep\<^sup>*\<^sup>* c c'"
  using rtranclp_mono [of drain_step gstep] drain_gstep by blast

lemma conf_inv_good:
  assumes "conf_inv (w, P)" and "i < length P" and "micro w (P ! i) = Some (w', k', sp)"
  shows "good_action w (P ! i) w' k' sp"
  using micro_good [OF _ _ _ _ assms(3)] conf_inv_goroutine [OF assms(1,2)]
    conf_inv_enough [OF assms(1) nth_mem [OF assms(2)]] assms(1)
  by (auto simp: goroutine_ok_def conf_inv_def)

lemma good_parents: "good_action w k w' k' sp \<Longrightarrow> parents w' = parents w"
  unfolding good_action_def by (elim conjE)

section \<open>Weights\<close>

text \<open>\<open>Apply\<close> climbs to the root and may climb once more to give units back.\<close>

fun up_cost :: "nat \<Rightarrow> nat" where
  "up_cost 0 = 6"
| "up_cost (Suc s) = 2 * up_cost s + 6"

fun lock_cost :: "nat \<Rightarrow> nat" where
  "lock_cost 0 = 4"
| "lock_cost (Suc s) = up_cost s + 4"

fun cb_cost :: "callback \<Rightarrow> nat" where
  "cb_cost (CbUser f) = 4"
| "cb_cost (CbCancel c e) = 5"
| "cb_cost (CbHooks hs) = 3 * length hs + 2"
| "cb_cost (CbParentApply p d) = up_cost p + 1"

definition cbs_cost :: "callback list \<Rightarrow> nat" where
  "cbs_cost cbs = sum_list (map cb_cost cbs)"

fun frame_cost :: "frame \<Rightarrow> nat" where
  "frame_cost (FApply s d) = up_cost s"
| "frame_cost (FApplyLock s d) = lock_cost s"
| "frame_cost (FRet b) = 1"
| "frame_cost (FTask s) = up_cost s + 2"
| "frame_cost (FGo s) = up_cost s + 2"
| "frame_cost (FRun s cbs) = cbs_cost cbs + 1"
| "frame_cost FUser = 1"
| "frame_cost (FUserCb s f) = 3"
| "frame_cost (FAddErrors s es) = 1"
| "frame_cost (FStop s g) = 2"
| "frame_cost (FStopOnIdle s g) = 2"
| "frame_cost (FDefer s f) = 5"
| "frame_cost (FHooks hs) = 3 * length hs + 1"
| "frame_cost (FHook s c h) = 6"
| "frame_cost (FUnhook s c) = 2"
| "frame_cost (FUnhookLock s c) = 1"
| "frame_cost (FCleanup s e) = 4"
| "frame_cost (FCancelCtx s e) = 1"
| "frame_cost (FTimer s) = 2"
| "frame_cost _ = 0"

definition stack_cost :: "frame list \<Rightarrow> nat" where
  "stack_cost k = sum_list (map frame_cost k)"

definition stored_cost :: "'cfg gostate \<Rightarrow> nat" where
  "stored_cost s = 5 * length (hooks_of s) + 4 * length (mu_deferred s) + (if mu_cancel s = None then 0 else 5)"

definition heap_cost :: "'cfg shared \<Rightarrow> nat" where
  "heap_cost w = sum_list (map stored_cost (sh_heap w))"

definition conf_cost :: "'cfg conf \<Rightarrow> nat" where
  "conf_cost c = heap_cost (fst c) + sum_list (map stack_cost (snd c))"

lemma cost_simps [simp]:
  "cbs_cost [] = 0" "cbs_cost (cb # cs) = cb_cost cb + cbs_cost cs"
  "cbs_cost (cs @ ds) = cbs_cost cs + cbs_cost ds" "cbs_cost (rev cs) = cbs_cost cs"
  "cbs_cost (map CbUser fs) = 4 * length fs"
  "stack_cost [] = 0" "stack_cost (f # k) = frame_cost f + stack_cost k"
proof -
  show "cbs_cost (rev cs) = cbs_cost cs" by (simp add: cbs_cost_def rev_map [symmetric] sum_list_rev)
  show "cbs_cost (map CbUser fs) = 4 * length fs" by (induction fs) (simp_all add: cbs_cost_def)
qed (simp_all add: cbs_cost_def stack_cost_def)

lemma up_cost_mono: "a \<le> b \<Longrightarrow> up_cost a \<le> up_cost b"
  by (induction b) (auto simp: le_Suc_eq)

lemma up_lock: "lock_cost s + 2 \<le> up_cost s"
  by (cases s) auto

lemma lock_parent: "p < s \<Longrightarrow> up_cost p + 4 \<le> lock_cost s"
  using up_cost_mono [of p "s - 1"] by (cases s) auto

lemma up_parent: "p < s \<Longrightarrow> up_cost p + lock_cost s < up_cost s"
  using up_cost_mono [of p "s - 1"] by (cases s) auto

lemma lock_pos: "2 \<le> lock_cost s"
  by (cases s) auto

lemma heap_cost_put: "s < length (sh_heap w) \<Longrightarrow>
    heap_cost (put_st w s x) + stored_cost (st_at w s) = heap_cost w + stored_cost x"
proof -
  assume s: "s < length (sh_heap w)"
  have "sum_list (map stored_cost (xs[i := x])) + stored_cost (xs ! i) = sum_list (map stored_cost xs) + stored_cost x"
    if "i < length xs" for xs :: "'a gostate list" and i
    using that
  proof (induction xs arbitrary: i)
    case (Cons y ys)
    then show ?case by (cases i) auto
  qed simp
  from this [OF s] show ?thesis by (simp add: heap_cost_def put_st_def)
qed

section \<open>Critical sections\<close>

lemma hard_stop_cost:
  assumes "hard_stop_locked e s = (t, cbs)"
  shows "stored_cost t + cbs_cost cbs = stored_cost s"
proof -
  note f = hard_stop_fields [OF assms]
  have "hooks_of t = hooks_of s" using f(5) by (simp add: hooks_of_def)
  with f(4,10,11) show ?thesis by (auto simp: stored_cost_def split: option.splits)
qed

lemma soft_prepared_cost: "stored_cost (soft_prepared s) + cbs_cost (soft_hooks s) \<le> stored_cost s"
proof (cases "mu_stopHooks s")
  case (Some hs)
  then show ?thesis
    by (cases hs) (simp_all add: stored_cost_def hooks_of_def soft_prepared_def soft_hooks_def)
qed (simp add: stored_cost_def hooks_of_def soft_prepared_def soft_hooks_def)

lemma update_grace_cost [simp]: "stored_cost (update_grace_timer_locked now g s) = stored_cost s"
  by (simp add: stored_cost_def hooks_of_def)

lemma soft_stop_cost:
  assumes "wf_core s" and "soft_stop_locked now g s = Inr (t, cbs)"
  shows "stored_cost t + cbs_cost cbs \<le> stored_cost s"
  using assms(1)
proof (cases rule: soft_stop_cases [of _ now g])
  case (hard e u d)
  have "t = u" "cbs = soft_hooks s @ d" using hard(1) assms(2) by simp_all
  with hard_stop_cost [OF hard(2)] soft_prepared_cost [of s] show ?thesis by simp
next
  case timer
  then have "t = update_grace_timer_locked now g (soft_prepared s)" "cbs = soft_hooks s" using assms(2) by simp_all
  with soft_prepared_cost [of s] show ?thesis by simp
qed

lemma stored_frame [simp]:
  "stored_cost (s\<lparr>mu_count := c\<rparr>) = stored_cost s" "stored_cost (s\<lparr>mu_stopOnIdle := g\<rparr>) = stored_cost s"
  "stored_cost (add_errors es s) = stored_cost s"
  by (simp_all add: stored_cost_def hooks_of_def add_errors_eq)

lemma stop_on_idle_cost:
  assumes "wf_core s" and "stop_on_idle_locked now g s = Inr (t, cbs)"
  shows "stored_cost t + cbs_cost cbs \<le> stored_cost s"
proof (cases "mu_count s = 0")
  case True
  with assms(2) have "soft_stop_locked now g (s\<lparr>mu_stopOnIdle := Some g\<rparr>) = Inr (t, cbs)"
    by (simp add: stop_on_idle_locked_def)
  from soft_stop_cost [OF wf_core_idle [OF assms(1)] this] show ?thesis by simp
next
  case False
  with assms(2) have "t = s\<lparr>mu_stopOnIdle := Some g\<rparr>" "cbs = []" by (auto simp: stop_on_idle_locked_def)
  then show ?thesis by simp
qed

lemma apply_cost:
  assumes "wf_core s" and "apply_locked now d s = Inr (t, cbs, r)" and "\<And>p. st_parent s = Some p \<Longrightarrow> p < a"
  shows "stored_cost t + cbs_cost cbs + 2 < stored_cost s + lock_cost a"
  using assms(1)
proof (cases rule: apply_locked_cases [of _ d now])
  case refused
  then have "t = s" "cbs = (case st_parent s of None \<Rightarrow> [] | Some p \<Rightarrow> [CbParentApply p (- d)])"
    using assms(2) by simp_all
  with assms(3) lock_parent [of _ a] lock_pos [of a] show ?thesis
    by (cases "st_parent s"; cases a) (fastforce simp: Let_def)+
next
  case plain
  with assms(2) have "t = s\<lparr>mu_count := mu_count s + d\<rparr>" "cbs = []" by auto
  then show ?thesis by (cases a) auto
next
  case (idle g u c)
  have "wf_core (s\<lparr>mu_count := 0\<rparr>)" using wf_core_count [OF assms(1)] by simp
  from soft_stop_cost [OF this idle(4)] idle(5) assms(2) show ?thesis by (cases a) auto
next
  case (last u c)
  from hard_stop_cost [OF last(5)] last(6) assms(2) show ?thesis by (cases a) auto
qed (use assms(2) in auto)

lemma length_update_le: "length (AList.update k v xs) \<le> Suc (length xs)"
  by (induction xs) auto

lemma hooked_cost:
  assumes "add_stop_hook_locked c h s = (b, t)"
  shows "stored_cost t \<le> stored_cost s + (if b then 5 else 0)"
  using assms length_update_le [of c h "hooks_of s"]
  by (auto simp: add_stop_hook_locked_def Let_def stored_cost_def hooks_of_def split: if_splits option.splits)

lemma unhooked_cost: "stored_cost (unhook_locked c s) \<le> stored_cost s"
proof (cases "mu_stopHooks s")
  case (Some hs)
  then show ?thesis using length_filter_le [of _ hs]
    by (simp add: unhook_locked_def stored_cost_def hooks_of_def AList.delete_eq)
qed (simp add: unhook_locked_def)

lemma deferred_cost: "add_deferred f s = (b, t) \<Longrightarrow> stored_cost t = stored_cost s + (if b then 4 else 0)"
  by (auto simp: add_deferred_def stored_cost_def hooks_of_def split: if_splits)


section \<open>Every step costs something\<close>

lemma heap_cost_same: "sh_heap w' = sh_heap w \<Longrightarrow> heap_cost w' = heap_cost w"
  by (simp add: heap_cost_def)

lemma after_lock_cost:
  assumes "s < length (sh_heap w)" and "stored_cost x + cbs_cost cbs \<le> stored_cost (st_at w s)"
    and "after_lock w s (Inr (x, cbs)) r = (w', k')"
  shows "heap_cost w' + stack_cost k' \<le> heap_cost w + stack_cost r + 1"
  using heap_cost_put [OF assms(1), of x] assms(2,3) by (auto simp: after_lock_def)

lemma lock_step_cost:
  assumes "s < length (sh_heap w)" and "stored_cost x + cbs_cost cbs \<le> stored_cost (st_at w s)"
    and "(case after_lock w s (Inr (x, cbs)) r of (v, k) \<Rightarrow> Some (v, k, [])) = Some (w', k', sp)"
  shows "heap_cost w' + stack_cost k' + sum_list (map stack_cost sp) \<le> heap_cost w + stack_cost r + 1"
proof -
  have "after_lock w s (Inr (x, cbs)) r = (w', k') \<and> sp = []" using assms(3) by (auto split: prod.splits)
  then show ?thesis using after_lock_cost [OF assms(1,2)] by auto
qed

lemma run_deferred_cost:
  assumes "run_deferred w s cbs r = (w', k')"
  shows "heap_cost w' + stack_cost k' < heap_cost w + stack_cost (FRun s cbs # r)"
proof (cases cbs)
  case (Cons cb cs)
  then have "run_callback w s cb (FRun s cs # r) = (w', k')" using assms by (simp add: run_deferred_def)
  then show ?thesis
    using Cons heap_cost_same [of w' w] by (cases "(w, s, cb, FRun s cs # r)" rule: run_callback.cases) auto
qed (use assms in \<open>simp add: run_deferred_def\<close>)

lemma heap_parent:
  "wf_heap w \<Longrightarrow> s < length (sh_heap w) \<Longrightarrow> st_parent (st_at w s) = Some p \<Longrightarrow> p < s"
  using wf_parentsD [of "parents w" s p] by (simp add: wf_heap_def)

lemma ret_cost:
  assumes w: "wf_heap w" and k: "wf_stack (parents w) (FRet b # r)" and e: "exec_ret w b r = Some (w', k', sp)"
    and ok: "wf_stack ps k'"
  shows "heap_cost w' + stack_cost k' + sum_list (map stack_cost sp) < heap_cost w + stack_cost (FRet b # r)"
  using e
proof (cases "(w, b, r)" rule: exec_ret.cases)
  case (1 w1 b1 s d k1)
  then have r: "r = FApplyLock s d # k1" by simp
  obtain w2 k2 where ar: "apply_resume w b s d k1 = (w2, k2)" by fastforce
  with e r have f: "w' = w2" "k' = k2" "sp = []" by simp_all
  have s: "s < length (sh_heap w)" using k r by simp
  show ?thesis
  proof (cases b)
    case False
    with ar have "w2 = w" "k2 = FRet False # k1" by (auto simp: apply_resume_def)
    with r f lock_pos [of s] show ?thesis by simp
  next
    case True
    show ?thesis
    proof (cases "apply_locked (sh_now w) d (st_at w s)")
      case (Inl c)
      with True ar f ok show ?thesis by (auto simp: apply_resume_def)
    next
      case (Inr y)
      obtain x cbs z where y: "y = (x, cbs, z)" by (cases y)
      have "p < s" if "st_parent (st_at w s) = Some p" for p
        using heap_parent [OF w s that] .
      from apply_cost [OF wf_heapD(3) [OF w s] Inr [unfolded y] this] heap_cost_put [OF s, of x] Inr y True ar r f
      show ?thesis by (auto simp: apply_resume_def)
    qed
  qed
qed (use e in \<open>auto split: if_splits\<close>)

lemma micro_cost:
  assumes w: "wf_heap w" and k: "goroutine_ok w k" and ex: "micro w k = Some (w', k', sp)"
    and g: "good_action w k w' k' sp"
  shows "heap_cost w' + stack_cost k' + sum_list (map stack_cost sp) < heap_cost w + stack_cost k"
proof -
  obtain f r where kf: "k = f # r" and e: "exec_frame w f r = Some (w', k', sp)"
    using ex by (auto simp: micro_def split: list.splits)
  have ks: "wf_stack (parents w) (f # r)" using k kf by (simp add: goroutine_ok_def)
  have ok: "wf_stack (parents w) k'" using g by (simp add: good_action_def)
  show ?thesis
    unfolding kf
  proof (cases f)
    case (FApply s d)
    have "up_cost p + lock_cost s < up_cost s" if "st_parent (st_at w s) = Some p" for p
      using heap_parent [OF w _ that] ks FApply up_parent by simp
    with FApply e up_lock [of s] lock_pos [of s]
    show "heap_cost w' + stack_cost k' + sum_list (map stack_cost sp) < heap_cost w + stack_cost (f # r)"
      by (auto simp: apply_enter_def parent_of_def split: option.splits if_splits)
  next
    case (FRet b)
    with ret_cost [OF w ks [unfolded FRet] _ ok] e
    show "heap_cost w' + stack_cost k' + sum_list (map stack_cost sp) < heap_cost w + stack_cost (f # r)" by simp
  next
    case (FRun s cbs)
    with e run_deferred_cost [of w s cbs r]
    show "heap_cost w' + stack_cost k' + sum_list (map stack_cost sp) < heap_cost w + stack_cost (f # r)"
      by (auto split: prod.splits)
  next
    case (FAddErrors s es)
    with e ks heap_cost_put [of s w "add_errors es (st_at w s)"]
    show "heap_cost w' + stack_cost k' + sum_list (map stack_cost sp) < heap_cost w + stack_cost (f # r)" by auto
  next
    case (FStop s gr)
    then have s: "s < length (sh_heap w)" using ks by simp
    obtain x cbs where c: "stop_locked (sh_now w) gr (st_at w s) = Inr (x, cbs)"
      using soft_stop_no_crash [OF wf_heapD(3) [OF w s]] unfolding stop_locked_def by blast
    from lock_step_cost [OF s soft_stop_cost [OF wf_heapD(3) [OF w s] c [unfolded stop_locked_def]]] FStop e c
    show "heap_cost w' + stack_cost k' + sum_list (map stack_cost sp) < heap_cost w + stack_cost (f # r)"
      by (simp add: less_Suc_eq_le)
  next
    case (FStopOnIdle s gr)
    then have s: "s < length (sh_heap w)" using ks by simp
    obtain x cbs where c: "stop_on_idle_locked (sh_now w) gr (st_at w s) = Inr (x, cbs)"
      using soft_stop_no_crash [OF wf_core_idle [OF wf_heapD(3) [OF w s]], of "sh_now w" gr "Some gr"]
      by (cases "mu_count (st_at w s) = 0") (auto simp: stop_on_idle_locked_def)
    from lock_step_cost [OF s stop_on_idle_cost [OF wf_heapD(3) [OF w s] c]] FStopOnIdle e c
    show "heap_cost w' + stack_cost k' + sum_list (map stack_cost sp) < heap_cost w + stack_cost (f # r)"
      by (simp add: less_Suc_eq_le)
  next
    case (FDefer s h)
    then have s: "s < length (sh_heap w)" using ks by simp
    obtain b x where a: "add_deferred h (st_at w s) = (b, x)" by fastforce
    from deferred_cost [OF a] heap_cost_put [OF s, of x] FDefer e a
    show "heap_cost w' + stack_cost k' + sum_list (map stack_cost sp) < heap_cost w + stack_cost (f # r)"
      by (cases b) (auto simp: add_deferred_frames_def heap_cost_def put_st_def)
  next
    case (FHooks hs)
    with e show "heap_cost w' + stack_cost k' + sum_list (map stack_cost sp) < heap_cost w + stack_cost (f # r)"
      by (auto simp: run_hooks_def split: list.splits hook.splits)
  next
    case (FHook s c h)
    then have s: "s < length (sh_heap w)" using ks by simp
    obtain b x where a: "add_stop_hook_locked c h (st_at w s) = (b, x)" by fastforce
    from hooked_cost [OF a] heap_cost_put [OF s, of x] FHook e a
    show "heap_cost w' + stack_cost k' + sum_list (map stack_cost sp) < heap_cost w + stack_cost (f # r)"
      by (cases b) (auto simp: add_stop_hook_frames_def)
  next
    case (FUnhook s c)
    with e show "heap_cost w' + stack_cost k' + sum_list (map stack_cost sp) < heap_cost w + stack_cost (f # r)"
      by auto
  next
    case (FUnhookLock s c)
    with e ks heap_cost_put [of s w "unhook_locked c (st_at w s)"] unhooked_cost [of c "st_at w s"]
    show "heap_cost w' + stack_cost k' + sum_list (map stack_cost sp) < heap_cost w + stack_cost (f # r)" by auto
  next
    case (FCleanup s x)
    with e show "heap_cost w' + stack_cost k' + sum_list (map stack_cost sp) < heap_cost w + stack_cost (f # r)"
      by (auto simp: cleanup_frames_def split: option.splits)
  next
    case (FCancelCtx s x)
    with e show "heap_cost w' + stack_cost k' + sum_list (map stack_cost sp) < heap_cost w + stack_cost (f # r)"
      by (auto simp: cancel_ctx_def heap_cost_def)
  next
    case (FTimer s)
    then have s: "s < length (sh_heap w)" using ks by simp
    obtain x cbs where c: "grace_timer_locked (st_at w s) = (x, cbs)" by fastforce
    have "stored_cost x + cbs_cost cbs \<le> stored_cost (st_at w s)"
      using hard_stop_cost [OF c [unfolded grace_timer_locked_def]] by simp
    from lock_step_cost [OF s this] FTimer e c
    show "heap_cost w' + stack_cost k' + sum_list (map stack_cost sp) < heap_cost w + stack_cost (f # r)"
      by (simp add: less_Suc_eq_le)
  qed (use e in auto)
qed

lemma stack_update_cost:
  "i < length P \<Longrightarrow> sum_list (map stack_cost (P[i := k])) + stack_cost (P ! i) = sum_list (map stack_cost P) + stack_cost k"
proof (induction P arbitrary: i)
  case (Cons x P)
  then show ?case by (cases i) auto
qed simp

lemma drain_cost:
  assumes inv: "conf_inv c" and d: "drain_step c c'"
  shows "conf_cost c' < conf_cost c"
  using d inv
proof (induction rule: drain_step.induct)
  case (drain_act i P w w' k' sp)
  have w: "wf_heap w" using drain_act(3) by (simp add: conf_inv_def)
  have ki: "goroutine_ok w (P ! i)" using conf_inv_goroutine [OF drain_act(3,1)] .
  note g = conf_inv_good [OF drain_act(3,1,2)]
  from micro_cost [OF w ki drain_act(2) g] stack_update_cost [OF drain_act(1), of k'] show ?case
    by (simp add: conf_cost_def)
next
  case (drain_user i P k w)
  with stack_update_cost [of i P k] show ?case by (simp add: conf_cost_def)
next
  case (drain_callback i P s f k pcs out e w)
  with stack_update_cost [of i P "if e = None then k else FAddErrors s [e] # k"] show ?case
    by (auto simp: conf_cost_def)
qed

end
