(* ===== verification/Terminating.thy ===== *)
theory Terminating
  imports Prelude
begin

text \<open>
  The contract of a program that comes to its end: a relation of the program's own steps, an invariant
  that they keep, a cost that each of them makes smaller, and a notion of being finished short of which
  some step is possible. Its clients are the shutdown of the goroutine machine and the iterators over
  worker pools.
\<close>

locale terminating_system =
  fixes own :: "'s \<Rightarrow> 's \<Rightarrow> bool"
    and live :: "'s \<Rightarrow> bool"
    and cost :: "'s \<Rightarrow> nat"
    and final :: "'s \<Rightarrow> bool"
  assumes own_live: "live s \<Longrightarrow> own s t \<Longrightarrow> live t"
    and own_cost: "live s \<Longrightarrow> own s t \<Longrightarrow> cost t < cost s"
    and own_progress: "live s \<Longrightarrow> \<not> final s \<Longrightarrow> \<exists>t. own s t"
begin

lemma live_steps: "own\<^sup>*\<^sup>* s t \<Longrightarrow> live s \<Longrightarrow> live t"
  by (induction rule: rtranclp_induct) (auto intro: own_live)

lemma own_bounded:
  assumes "(own ^^ n) s t" and "live s"
  shows "n + cost t \<le> cost s"
  using assms(1)
proof (induction n arbitrary: t)
  case (Suc n)
  then obtain u where u: "(own ^^ n) s u" "own u t" by auto
  have "live u" using live_steps [OF relpowp_imp_rtranclp [OF u(1)] assms(2)] .
  with Suc.IH [OF u(1)] own_cost [OF _ u(2)] show ?case by simp
qed simp

lemma own_ends: "live s \<Longrightarrow> \<exists>t. own\<^sup>*\<^sup>* s t \<and> final t"
proof (induction "cost s" arbitrary: s rule: less_induct)
  case less
  show ?case
  proof (cases "final s")
    case False
    then obtain u where u: "own s u" using own_progress less.prems by blast
    from less.hyps [OF own_cost [OF less.prems u] own_live [OF less.prems u]] u show ?thesis
      by (meson converse_rtranclp_into_rtranclp)
  qed blast
qed

end

section \<open>Labelled steps\<close>

text \<open>A program given as a partial function of an action and a state; \<open>exec\<close> is its run.\<close>

fun exec :: "('a \<Rightarrow> 's \<Rightarrow> 's option) \<Rightarrow> 'a list \<Rightarrow> 's \<Rightarrow> 's option" where
  "exec step [] s = Some s"
| "exec step (a # as) s = (case step a s of None \<Rightarrow> None | Some t \<Rightarrow> exec step as t)"

definition labelled :: "('a \<Rightarrow> 's \<Rightarrow> 's option) \<Rightarrow> ('a \<Rightarrow> bool) \<Rightarrow> 's \<Rightarrow> 's \<Rightarrow> bool" where
  "labelled step P s t \<longleftrightarrow> (\<exists>a. P a \<and> step a s = Some t)"

lemma exec_labelled:
  "exec step as s = Some t \<Longrightarrow> list_all P as \<Longrightarrow> (labelled step P ^^ length as) s t"
proof (induction as arbitrary: s)
  case (Cons a as)
  then obtain u where u: "step a s = Some u" "exec step as u = Some t" by (auto split: option.splits)
  have "labelled step P s u" using u(1) Cons.prems by (auto simp: labelled_def)
  moreover have "(labelled step P ^^ length as) u t" using Cons.IH [OF u(2)] Cons.prems by simp
  ultimately show ?case by (simp del: relpowp.simps add: relpowp_Suc_I2)
qed simp

lemma labelled_exec: "(labelled step P)\<^sup>*\<^sup>* s t \<Longrightarrow> \<exists>as. list_all P as \<and> exec step as s = Some t"
proof (induction rule: converse_rtranclp_induct)
  case base
  then show ?case by (intro exI [of _ "[]"]) simp
next
  case (step s u)
  then obtain a as where "P a" "step a s = Some u" "list_all P as" "exec step as u = Some t"
    by (auto simp: labelled_def)
  then show ?case by (intro exI [of _ "a # as"]) simp
qed

end
