(* ===== verification/Machine_Shape.thy ===== *)
theory Machine_Shape
  imports Machine_Drain Terminating
begin

text \<open>
  The shape of the stacks that the interleaved machine can build: a frame that waits for the result of
  an \<open>Apply\<close> always has the call above it, so a goroutine never gets stuck: as long as a stack has a
  frame, its goroutine can act or its user code can return. With the weights of \<open>Machine_Drain\<close>, all
  the work of a configuration comes to its end after at most \<open>conf_cost\<close> steps.
\<close>

section \<open>Shapes\<close>

fun waiting :: "frame \<Rightarrow> bool" where
  "waiting (FApplyLock s d) \<longleftrightarrow> True"
| "waiting FIgnore \<longleftrightarrow> True"
| "waiting (FTask s) \<longleftrightarrow> True"
| "waiting (FGo s) \<longleftrightarrow> True"
| "waiting _ \<longleftrightarrow> False"

definition waits :: "frame list \<Rightarrow> bool" where
  "waits k \<longleftrightarrow> (case k of [] \<Rightarrow> False | f # r \<Rightarrow> waiting f)"

fun returns_result :: "frame \<Rightarrow> bool" where
  "returns_result (FApply s d) \<longleftrightarrow> True"
| "returns_result (FApplyLock s d) \<longleftrightarrow> True"
| "returns_result (FRet b) \<longleftrightarrow> True"
| "returns_result (FPanic c) \<longleftrightarrow> True"
| "returns_result _ \<longleftrightarrow> False"

text \<open>
  A child registers its hook at its own parent; the hook is canceled by the child's \<open>cleanup\<close>, just
  before it cancels the child's context.
\<close>

fun placed :: "sid option list \<Rightarrow> frame \<Rightarrow> frame list \<Rightarrow> bool" where
  "placed ps (FHook p c h) k \<longleftrightarrow> c < length ps \<and> ps ! c = Some p"
| "placed ps (FUnhook p c) k \<longleftrightarrow> (\<exists>e r. k = FCancelCtx c e # r)"
| "placed ps (FUnhookLock p c) k \<longleftrightarrow> (\<exists>e r. k = FCancelCtx c e # r)"
| "placed ps _ k \<longleftrightarrow> True"

fun shaped :: "sid option list \<Rightarrow> frame list \<Rightarrow> bool" where
  "shaped ps [] \<longleftrightarrow> True"
| "shaped ps (f # k) \<longleftrightarrow> (waits k \<longrightarrow> returns_result f) \<and> placed ps f k \<and> shaped ps k"

definition ready :: "sid option list \<Rightarrow> frame list \<Rightarrow> bool" where
  "ready ps k \<longleftrightarrow> shaped ps k \<and> \<not> waits k"

lemma waits_simps [simp]: "\<not> waits []" "waits (f # k) \<longleftrightarrow> waiting f"
  by (simp_all add: waits_def)

lemma placed_append: "placed ps f k \<Longrightarrow> placed (ps @ qs) f k"
  by (cases f) (auto simp: nth_append)

lemma ready_append: "ready ps k \<Longrightarrow> ready (ps @ qs) k"
proof -
  have "shaped ps k \<Longrightarrow> shaped (ps @ qs) k" by (induction k) (auto intro: placed_append)
  then show "ready ps k \<Longrightarrow> ?thesis" by (simp add: ready_def)
qed

lemma ready_Cons:
  "\<not> waiting f \<Longrightarrow> \<not> returns_result f \<Longrightarrow> ready ps (f # k) \<longleftrightarrow> placed ps f k \<and> ready ps k"
  by (auto simp: ready_def)

section \<open>Every step keeps the shape\<close>

lemma run_callback_ready:
  "run_callback w s cb k = (w', k') \<Longrightarrow> ready ps k \<Longrightarrow> ready ps k'"
  by (cases "(w, s, cb, k)" rule: run_callback.cases) (auto simp: ready_def)

lemma after_lock_ready: "after_lock w s x k = (w', k') \<Longrightarrow> ready ps k \<Longrightarrow> ready ps k'"
  by (auto simp: after_lock_def ready_def split: sum.splits)

lemma ret_ready:
  assumes "exec_ret w b k = Some (w', k', sp)" and "shaped ps k"
  shows "\<forall>j\<in>set (k' # sp). ready ps j"
  using assms
  by (cases "(w, b, k)" rule: exec_ret.cases)
    (auto simp: ready_def apply_resume_def split: if_splits sum.splits prod.splits)

lemma micro_ready:
  assumes ex: "micro w k = Some (w', k', sp)" and k: "ready ps k"
  shows "\<forall>j\<in>set (k' # sp). ready ps j"
proof -
  obtain f r where kf: "k = f # r" and e: "exec_frame w f r = Some (w', k', sp)"
    using ex by (auto simp: micro_def split: list.splits)
  show ?thesis
  proof (cases f)
    case (FApply s d)
    with e k kf show ?thesis by (auto simp: ready_def apply_enter_def split: option.splits if_splits)
  next
    case (FRet b)
    with e k kf ret_ready show ?thesis by (fastforce simp: ready_def)
  next
    case (FRun s cbs)
    have r: "ready ps (FRun s cs # r)" for cs using k kf FRun by (auto simp: ready_def)
    then have "ready ps r" by (auto simp: ready_def)
    with r e FRun run_callback_ready show ?thesis
      by (fastforce simp: run_deferred_def split: prod.splits list.splits)
  next
    case (FStop s g)
    with e k kf after_lock_ready show ?thesis by (fastforce simp: ready_Cons split: prod.splits)
  next
    case (FStopOnIdle s g)
    with e k kf after_lock_ready show ?thesis by (fastforce simp: ready_Cons split: prod.splits)
  next
    case (FTimer s)
    with e k kf after_lock_ready show ?thesis by (fastforce simp: ready_Cons split: prod.splits)
  next
    case (FDefer s h)
    with e k kf show ?thesis
      by (auto simp: ready_Cons add_deferred_frames_def split: prod.splits bool.splits)
  next
    case (FHooks hs)
    with e k kf show ?thesis by (auto simp: ready_Cons run_hooks_def split: list.splits hook.splits)
  next
    case (FHook s c h)
    with e k kf show ?thesis
      by (auto simp: ready_Cons add_stop_hook_frames_def split: prod.splits bool.splits)
  next
    case (FCleanup s x)
    with e k kf show ?thesis by (auto simp: ready_Cons cleanup_frames_def split: option.splits)
  qed (use e k kf in \<open>auto simp: ready_Cons\<close>)
qed

definition shape_inv :: "'cfg conf \<Rightarrow> bool" where
  "shape_inv c \<longleftrightarrow> (\<forall>k\<in>set (snd c). ready (parents (fst c)) k)"

lemma shape_inv_update:
  "shape_inv (w, P) \<Longrightarrow> parents w' = parents w \<Longrightarrow> \<forall>j\<in>set (k # sp). ready (parents w) j \<Longrightarrow>
     shape_inv (w', P[i := k] @ sp)"
  using set_update_subset_insert [of P i k] by (auto simp: shape_inv_def)

lemma shape_inv_stack:
  "shape_inv (w, P) \<Longrightarrow> ready (parents w) k \<Longrightarrow> shape_inv (w, P[i := k])"
  using shape_inv_update [of w P w k "[]" i] by simp

lemma shape_inv_nth: "shape_inv (w, P) \<Longrightarrow> i < length P \<Longrightarrow> ready (parents w) (P ! i)"
  by (simp add: shape_inv_def)

lemma api_call_ready: "api_call w fs \<Longrightarrow> ready ps k \<Longrightarrow> ready ps (fs @ k)"
  by (induction rule: api_call.induct) (auto simp: ready_def)

lemma user_frame_shape: "is_user f \<Longrightarrow> \<not> waiting f \<and> \<not> returns_result f \<and> placed ps f k"
  by (cases f) auto

lemma shape_step: "gstep c c' \<Longrightarrow> conf_inv c \<Longrightarrow> shape_inv c \<Longrightarrow> shape_inv c'"
proof (induction rule: gstep.induct)
  case (act i P w w' k' sp)
  have "parents w' = parents w" by (rule good_parents [OF conf_inv_good [OF act(3,1,2)]])
  with micro_ready [OF act(2) shape_inv_nth [OF act(4,1)]] act(4) show ?case
    by (intro shape_inv_update)
next
  case (reorder i P hs k hs' w)
  with shape_inv_nth [of w P i] show ?case by (intro shape_inv_stack) (auto simp: ready_Cons)
next
  case (user_call i P f k w fs)
  with shape_inv_nth [of w P i] show ?case by (intro shape_inv_stack api_call_ready) auto
next
  case (user_root i P f k w cfg)
  then show ?case by (simp add: shape_inv_def ready_append)
next
  case (user_child i P f k p w cfg g)
  have "ready (parents w) (f # k)" using shape_inv_nth user_child by metis
  then have "ready (parents w @ [Some p]) (f # k)" by (rule ready_append)
  moreover have "shape_inv (alloc_state cfg (Some p) w, P)"
    using user_child by (simp add: shape_inv_def ready_append)
  ultimately show ?case
    by (intro shape_inv_stack) (simp_all add: ready_Cons [of "FHook _ _ _"] nth_append)
next
  case (user_done i P k w)
  with shape_inv_nth [of w P i] show ?case by (intro shape_inv_stack) (auto simp: ready_Cons)
next
  case (callback_done i P s f k pcs out e w)
  with shape_inv_nth [of w P i] show ?case by (intro shape_inv_stack) (auto simp: ready_Cons)
next
  case (spawn w P)
  then show ?case by (auto simp: shape_inv_def ready_def)
next
  case (timer s w i P)
  have "parents (put_st w s (fire_timer i (st_at w s))) = parents w" by (rule put_st_parents) simp
  with timer show ?case by (auto simp: shape_inv_def ready_def)
next
  case (tick w t P)
  then show ?case by (simp add: shape_inv_def)
next
  case (outside_cancel s w e P)
  then show ?case by (simp add: shape_inv_def cancel_ctx_def)
qed

lemma shape_init: "shape_inv init_conf"
  by (simp add: shape_inv_def init_conf_def)

interpretation shapes: invariant_system
  "\<lambda>c. c = init_conf" gstep "\<lambda>c. conf_inv c \<and> shape_inv c"
  by unfold_locales (use conf_inv_init shape_init conf_inv_step shape_step in blast)+

section \<open>Progress\<close>

lemma micro_enabled:
  assumes "wf_stack ps k" and "ready ps k" and "k \<noteq> []" and "\<not> is_user (hd k)"
  shows "micro w k \<noteq> None"
proof -
  obtain f r where k: "k = f # r" using assms(3) by (cases k) auto
  show ?thesis
  proof (cases f)
    case (FRet b)
    then have "ok_result b r" using assms(1) k by simp
    with FRet k show ?thesis
      by (cases "(b, r)" rule: ok_result.cases) (auto simp: micro_def split: prod.splits)
  qed (use assms k in \<open>auto simp: micro_def ready_def split: prod.splits\<close>)
qed

lemma drain_progress:
  assumes inv: "conf_inv (w, P)" and sh: "shape_inv (w, P)" and k: "k \<in> set P" "k \<noteq> []"
  shows "\<exists>c'. drain_step (w, P) c'"
proof -
  obtain i where i: "i < length P" "P ! i = k" using k(1) by (auto simp: in_set_conv_nth)
  obtain f r where f: "P ! i = f # r" using i(2) k(2) by (cases k) auto
  show ?thesis
  proof (cases "is_user f")
    case True
    then consider "f = FUser" | s h where "f = FUserCb s h" by (cases f) auto
    then show ?thesis
      using drain_user [OF i(1)] drain_callback [OF i(1)] f by cases blast+
  next
    case False
    with micro_enabled [of "parents w" "P ! i" w] conf_inv_goroutine [OF inv i(1)] shape_inv_nth [OF sh i(1)] f
    have "micro w (P ! i) \<noteq> None" by (simp add: goroutine_ok_def)
    then show ?thesis using drain_act [OF i(1)] by (metis option.exhaust prod_cases3)
  qed
qed

lemma drain_done:
  assumes inv: "conf_inv (w, P)" "shape_inv (w, P)" and "\<nexists>c'. drain_step (w, P) c'"
  shows "\<forall>k\<in>set P. k = []"
  using drain_progress [OF inv] assms(3) by blast

interpretation draining: terminating_system
  drain_step "\<lambda>c. conf_inv c \<and> shape_inv c" conf_cost "\<lambda>c. \<forall>k\<in>set (snd c). k = []"
proof unfold_locales
  fix c d :: "'a conf"
  assume i: "conf_inv c \<and> shape_inv c" and d: "drain_step c d"
  show "conf_inv d \<and> shape_inv d" using i conf_inv_step shape_step drain_gstep [OF d] by blast
  show "conf_cost d < conf_cost c" using i d drain_cost by blast
next
  fix c :: "'a conf"
  assume "conf_inv c \<and> shape_inv c" "\<not> (\<forall>k\<in>set (snd c). k = [])"
  then show "\<exists>d. drain_step c d" using drain_progress [of "fst c" "snd c"] by auto
qed

end
