(* ===== verification/Machine_Propagate.thy ===== *)
theory Machine_Propagate
  imports Machine_Shape
begin

text \<open>
  How stopping travels down the tree of contexts: the stop hook of a child is registered at its
  parent, or has been handed to a goroutine that is about to call the child's \<open>Stop\<close>, or the
  child is stopping. No interleaving loses a hook: not the race of a new child with its parent's
  \<open>Stop\<close>, not the cancellation of a child's hook.
\<close>

section \<open>Promises to stop\<close>

fun cb_stops :: "callback \<Rightarrow> sid set" where
  "cb_stops (CbHooks hs) = fst ` set hs"
| "cb_stops _ = {}"

definition cbs_stops :: "callback list \<Rightarrow> sid set" where
  "cbs_stops cbs = (\<Union>cb\<in>set cbs. cb_stops cb)"

fun frame_stops :: "frame \<Rightarrow> sid set" where
  "frame_stops (FRun s cbs) = cbs_stops cbs"
| "frame_stops (FStop s g) = {s}"
| "frame_stops (FHooks hs) = fst ` set hs"
| "frame_stops (FHook p c h) = {c}"
| "frame_stops _ = {}"

definition stack_stops :: "frame list \<Rightarrow> sid set" where
  "stack_stops k = (\<Union>f\<in>set k. frame_stops f)"

lemma stops_simps [simp]:
  "cbs_stops [] = {}" "cbs_stops (cb # cs) = cb_stops cb \<union> cbs_stops cs"
  "cbs_stops (cs @ ds) = cbs_stops cs \<union> cbs_stops ds" "cbs_stops (rev cs) = cbs_stops cs"
  "stack_stops [] = {}" "stack_stops (f # k) = frame_stops f \<union> stack_stops k"
  by (auto simp: cbs_stops_def stack_stops_def)

text \<open>The hook of \<open>c\<close> is registered at \<open>p\<close>, which has not been stopped yet.\<close>

definition hook_set :: "'cfg gostate \<Rightarrow> sid set" where
  "hook_set s = (if mu_stopping s then {} else fst ` set (hooks_of s))"

section \<open>Critical sections lose no hook\<close>

definition keeps_hooks :: "'cfg gostate \<Rightarrow> 'cfg gostate \<Rightarrow> callback list \<Rightarrow> bool" where
  "keeps_hooks s t cbs \<longleftrightarrow> hook_set s \<subseteq> hook_set t \<union> cbs_stops cbs"

lemma keeps_hooks_frame [simp]:
  "hook_set (s\<lparr>mu_count := c\<rparr>) = hook_set s" "hook_set (s\<lparr>mu_stopOnIdle := g\<rparr>) = hook_set s"
  "hook_set (s\<lparr>mu_deferred := fs\<rparr>) = hook_set s" "hook_set (s\<lparr>mu_errs := es\<rparr>) = hook_set s"
  "hook_set (s\<lparr>rt_timers := ts\<rparr>) = hook_set s"
  by (simp_all add: hook_set_def hooks_of_def)

lemma keeps_hooks_same: "hook_set s \<subseteq> hook_set t \<Longrightarrow> keeps_hooks s t cbs"
  by (auto simp: keeps_hooks_def)

lemma keeps_hooks_stopped: "mu_stopping s \<Longrightarrow> keeps_hooks s t cbs"
  by (simp add: keeps_hooks_def hook_set_def)

lemma soft_hooks_stops: "hook_set s \<subseteq> cbs_stops (soft_hooks s)"
  by (auto simp: hook_set_def hooks_of_def soft_hooks_def split: option.splits list.splits)

lemma soft_stop_hooks:
  assumes "wf_core s" and "soft_stop_locked now g s = Inr (t, cbs)"
  shows "keeps_hooks s t cbs"
  using assms(1)
proof (cases rule: soft_stop_cases [of _ now g])
  case (hard e u d)
  with assms(2) soft_hooks_stops [of s] show ?thesis by (auto simp: keeps_hooks_def)
next
  case timer
  with assms(2) soft_hooks_stops [of s] show ?thesis by (auto simp: keeps_hooks_def)
qed

lemma apply_hooks:
  assumes "wf_core s" and "apply_locked now d s = Inr (t, cbs, r)"
  shows "keeps_hooks s t cbs"
  using assms(1)
proof (cases rule: apply_locked_cases [of _ d now])
  case refused
  with assms(2) show ?thesis by (intro keeps_hooks_same) simp
next
  case plain
  with assms(2) show ?thesis by (intro keeps_hooks_same) auto
next
  case (idle g u c)
  with soft_stop_hooks [OF wf_core_count [OF assms(1) order_refl] idle(4)] assms(2) show ?thesis
    by (simp add: keeps_hooks_def)
next
  case (last u c)
  then show ?thesis by (intro keeps_hooks_stopped)
qed (use assms(2) in auto)

lemma stop_on_idle_hooks:
  assumes "wf_core s" and "stop_on_idle_locked now g s = Inr (t, cbs)"
  shows "keeps_hooks s t cbs"
proof (cases "mu_count s = 0")
  case True
  with assms(2) have "soft_stop_locked now g (s\<lparr>mu_stopOnIdle := Some g\<rparr>) = Inr (t, cbs)"
    by (simp add: stop_on_idle_locked_def)
  from soft_stop_hooks [OF wf_core_idle [OF assms(1)] this] show ?thesis by (simp add: keeps_hooks_def)
next
  case False
  with assms(2) show ?thesis by (intro keeps_hooks_same) (auto simp: stop_on_idle_locked_def)
qed

lemma set_update_keys: "fst ` set (AList.update k v xs) = insert k (fst ` set xs)"
  by (induction xs) auto

lemma add_hook_set:
  assumes "add_stop_hook_locked c h s = (b, t)"
  shows "hook_set s \<subseteq> hook_set t \<and> (b \<longrightarrow> c \<in> hook_set t)"
  using assms
proof (cases "mu_stopping s")
  case False
  then have "b" "hooks_of t = AList.update c h (hooks_of s)" "\<not> mu_stopping t"
    using assms by (auto simp: add_stop_hook_locked_def hooks_of_def Let_def)
  with False show ?thesis by (simp add: hook_set_def set_update_keys subset_insertI)
qed (use assms in \<open>simp add: add_stop_hook_locked_def\<close>)

lemma unhook_set: "hook_set s \<subseteq> insert c (hook_set (unhook_locked c s))"
  by (auto simp: hook_set_def hooks_of_def unhook_locked_def AList.delete_eq split: option.splits)

section \<open>Actions keep every promise\<close>

text \<open>The child \<open>c\<close> is stopping or somebody will stop it.\<close>

definition parent_hook :: "'cfg shared \<Rightarrow> sid \<Rightarrow> bool" where
  "parent_hook w c \<longleftrightarrow> (\<exists>p<length (sh_heap w). st_parent (st_at w c) = Some p \<and> c \<in> hook_set (st_at w p))"

definition propagates :: "'cfg shared \<Rightarrow> frame list \<Rightarrow> 'cfg shared \<Rightarrow> frame list \<Rightarrow> bool" where
  "propagates w k w' k' \<longleftrightarrow>
     (\<forall>c<length (sh_heap w). c \<in> stack_stops k \<or> parent_hook w c \<longrightarrow>
        mu_stopping (st_at w' c) \<or> c \<in> stack_stops k' \<or> parent_hook w' c)"

lemma propagates_same:
  "sh_heap w' = sh_heap w \<Longrightarrow> stack_stops k \<subseteq> stack_stops k' \<Longrightarrow> propagates w k w' k'"
  by (auto simp: propagates_def parent_hook_def)

lemma parent_update: "st_parent x = st_parent (hp ! s) \<Longrightarrow> st_parent (hp[s := x] ! a) = st_parent (hp ! a)"
  by (cases "a = s"; cases "s < length hp") (auto simp: list_update_beyond)

lemma propagates_section:
  assumes s: "s < length (sh_heap w)" and k: "keeps_hooks (st_at w s) x cbs"
    and h: "sh_heap w' = (sh_heap w)[s := x]" and p: "st_parent x = st_parent (st_at w s)"
    and c: "cbs_stops cbs \<subseteq> stack_stops k'"
    and st: "\<And>c. c \<in> stack_stops k \<Longrightarrow> c \<in> stack_stops k' \<or> mu_stopping (st_at w' c) \<or> parent_hook w' c"
  shows "propagates w k w' k'"
  unfolding propagates_def
proof (intro allI impI)
  fix a assume a: "a < length (sh_heap w)" and d: "a \<in> stack_stops k \<or> parent_hook w a"
  show "mu_stopping (st_at w' a) \<or> a \<in> stack_stops k' \<or> parent_hook w' a"
  proof (cases "a \<in> stack_stops k")
    case True
    then show ?thesis using st by blast
  next
    case False
    with d obtain q where q: "q < length (sh_heap w)" "st_parent (st_at w a) = Some q"
      "a \<in> hook_set (st_at w q)" by (auto simp: parent_hook_def)
    have par: "st_parent (st_at w' a) = Some q" using h q(2) parent_update [OF p] by simp
    show ?thesis
    proof (cases "a \<in> hook_set (st_at w' q)")
      case True
      with par q(1) h show ?thesis by (auto simp: parent_hook_def)
    next
      case False
      with q(3) h have "q = s" by (cases "q = s") auto
      with False q(3) k h s c show ?thesis by (auto simp: keeps_hooks_def)
    qed
  qed
qed

lemma crit_step_parent: "crit_step s fs t cbs \<Longrightarrow> wf_core s \<Longrightarrow> st_parent t = st_parent s"
  using crit_step_grows by (auto simp: stop_grows_def)

lemma propagates_after_lock:
  assumes "s < length (sh_heap w)" and "keeps_hooks (st_at w s) x cbs"
    and "st_parent x = st_parent (st_at w s)" and "after_lock w s (Inr (x, cbs)) r = (w', k')"
    and "frame_stops f \<subseteq> {s}" and "frame_stops f \<noteq> {} \<Longrightarrow> mu_stopping x"
  shows "propagates w (f # r) w' k'"
proof (rule propagates_section [OF assms(1,2)])
  fix c
  assume "c \<in> stack_stops (f # r)"
  then have "c \<in> stack_stops r \<or> (c = s \<and> mu_stopping x)" using assms(5,6) by auto
  then show "c \<in> stack_stops k' \<or> mu_stopping (st_at w' c) \<or> parent_hook w' c"
    using assms(1,4) by (auto simp: after_lock_def)
qed (use assms(3,4) in \<open>auto simp: after_lock_def\<close>)

lemma propagates_ret:
  assumes w: "wf_heap w" and k: "wf_stack (parents w) (FRet b # k)"
    and ex: "exec_ret w b k = Some (w', k', sp)" and g: "good_action w (FRet b # k) w' k' sp"
  shows "propagates w (FRet b # k) w' k'"
  using ex
proof (cases "(w, b, k)" rule: exec_ret.cases)
  case (1 w1 b1 s d k1)
  then have kk: "k = FApplyLock s d # k1" by simp
  obtain w2 k2 where ar: "apply_resume w b s d k1 = (w2, k2)" by fastforce
  with ex kk have e: "w' = w2" "k' = k2" by simp_all
  have s: "s < length (sh_heap w)" using k kk by simp
  show ?thesis
  proof (cases b)
    case False
    with ar kk e show ?thesis by (intro propagates_same) (auto simp: apply_resume_def)
  next
    case True
    show ?thesis
    proof (cases "apply_locked (sh_now w) d (st_at w s)")
      case (Inl c)
      with True ar have "k2 = FPanic c # k1" by (simp add: apply_resume_def)
      with g e show ?thesis by (simp add: good_action_def)
    next
      case (Inr y)
      obtain x cbs r where y: "y = (x, cbs, r)" by (cases y)
      note a = Inr [unfolded y] and core = wf_heapD(3) [OF w s]
      have "w' = put_st w s x" "k' = FRun s (rev cbs) # FRet r # k1"
        using True ar e a by (simp_all add: apply_resume_def)
      then show ?thesis
        using kk crit_step_parent [OF crit_step.applied [OF a] core]
        by (intro propagates_section [OF s apply_hooks [OF core a]]) auto
    qed
  qed
qed (use ex in \<open>auto intro!: propagates_same split: if_splits\<close>)

lemma propagates_run:
  assumes "run_deferred w s cbs k = (w', k')"
  shows "propagates w (FRun s cbs # k) w' k'"
proof (cases cbs)
  case Nil
  with assms show ?thesis by (auto simp: run_deferred_def intro: propagates_same)
next
  case (Cons cb cs)
  then have e: "run_callback w s cb (FRun s cs # k) = (w', k')" using assms by (simp add: run_deferred_def)
  show ?thesis
    using e Cons
    by (cases "(w, s, cb, FRun s cs # k)" rule: run_callback.cases) (auto intro!: propagates_same)
qed

text \<open>A hook is only canceled for a child that is stopping.\<close>

lemma propagates_unhook:
  assumes w: "wf_heap w" and p: "p < length (sh_heap w)" and st: "mu_stopping (st_at w c)" "c < length (sh_heap w)"
  shows "propagates w (FUnhookLock p c # r) (put_st w p (unhook_locked c (st_at w p))) r"
proof -
  let ?x = "unhook_locked c (st_at w p)" and ?w = "put_st w p (unhook_locked c (st_at w p))"
  have f: "st_parent ?x = st_parent (st_at w p)" "mu_stopping ?x = mu_stopping (st_at w p)"
    by (simp_all add: unhook_locked_def split: option.splits)
  have cs: "mu_stopping (st_at ?w c)" using st f p by (cases "c = p") auto
  show ?thesis
    unfolding propagates_def
  proof (intro allI impI)
    fix a assume a: "a < length (sh_heap w)" and d: "a \<in> stack_stops (FUnhookLock p c # r) \<or> parent_hook w a"
    show "mu_stopping (st_at ?w a) \<or> a \<in> stack_stops r \<or> parent_hook ?w a"
    proof (cases "a = c \<or> a \<in> stack_stops r")
      case True
      then show ?thesis using cs by blast
    next
      case False
      with d obtain q where q: "q < length (sh_heap w)" "st_parent (st_at w a) = Some q"
        "a \<in> hook_set (st_at w q)" by (auto simp: parent_hook_def)
      have "a \<in> hook_set (st_at ?w q)"
        using q False unhook_set [of "st_at w p" c] by (cases "q = p") auto
      moreover have "st_parent (st_at ?w a) = Some q" using q parent_update [OF f(1)] by simp
      ultimately show ?thesis using q(1) by (auto simp: parent_hook_def)
    qed
  qed
qed

lemma propagates_hook:
  assumes p: "p < length (sh_heap w)" and pl: "placed (parents w) (FHook p c h) r"
    and a: "add_stop_hook_locked c h (st_at w p) = (b, x)" and w': "w' = put_st w p x"
    and k': "k' = (if b then r else FHooks [(c, h)] # r)"
  shows "propagates w (FHook p c h # r) w' k'"
proof -
  note f = add_hook_set [OF a]
  have par: "st_parent x = st_parent (st_at w p)"
    using a by (auto simp: add_stop_hook_locked_def Let_def split: if_splits)
  have k: "keeps_hooks (st_at w p) x []" using f by (intro keeps_hooks_same) simp
  have "st_parent (st_at w c) = Some p" using pl by auto
  then have "parent_hook w' c" if b
    using f that p parent_update [OF par] by (auto simp: parent_hook_def w')
  then show ?thesis using k' by (intro propagates_section [OF p k _ par]) (auto simp: w')
qed

lemma micro_propagates:
  assumes w: "wf_heap w" and k: "goroutine_ok w k" and sh: "ready (parents w) k"
    and ex: "micro w k = Some (w', k', sp)" and g: "good_action w k w' k' sp"
    and m: "\<forall>m\<in>set (stack_marks k). fst m < length (sh_heap w) \<and> mu_stopping (st_at w (fst m))"
  shows "propagates w k w' k'"
proof -
  obtain f r where kf: "k = f # r" and e: "exec_frame w f r = Some (w', k', sp)"
    using ex by (auto simp: micro_def split: list.splits)
  have ks: "wf_stack (parents w) (f # r)" using k kf by (simp add: goroutine_ok_def)
  show ?thesis
    unfolding kf
  proof (cases f)
    case (FApply s d)
    with e show "propagates w (f # r) w' k'"
      by (auto intro!: propagates_same simp: apply_enter_def split: option.splits)
  next
    case (FRet b)
    with e propagates_ret [OF w, of b r w' k' sp] ks g kf show "propagates w (f # r) w' k'" by simp
  next
    case (FRun s cbs)
    with e propagates_run show "propagates w (f # r) w' k'" by (auto split: prod.splits)
  next
    case (FAddErrors s es)
    with e ks show "propagates w (f # r) w' k'"
      by (intro propagates_section [of s w "add_errors es (st_at w s)" "[]"])
        (auto simp: add_errors_eq keeps_hooks_same)
  next
    case (FStop s g)
    then have s: "s < length (sh_heap w)" using ks by simp
    note core = wf_heapD(3) [OF w s]
    obtain x cbs where c: "stop_locked (sh_now w) g (st_at w s) = Inr (x, cbs)"
      using soft_stop_no_crash [OF core] unfolding stop_locked_def by blast
    note c' = c [unfolded stop_locked_def]
    obtain w2 k2 where a: "after_lock w s (Inr (x, cbs)) r = (w2, k2)" by fastforce
    from propagates_after_lock [OF s soft_stop_hooks [OF core c'] _ a, of f] soft_stop_fields(1,4) [OF core c']
      FStop e a c
    show "propagates w (f # r) w' k'" by simp
  next
    case (FStopOnIdle s g)
    then have s: "s < length (sh_heap w)" using ks by simp
    note core = wf_heapD(3) [OF w s]
    obtain x cbs where c: "stop_on_idle_locked (sh_now w) g (st_at w s) = Inr (x, cbs)"
      using soft_stop_no_crash [OF wf_core_idle [OF core], of "sh_now w" g "Some g"]
      by (cases "mu_count (st_at w s) = 0") (auto simp: stop_on_idle_locked_def)
    obtain w2 k2 where a: "after_lock w s (Inr (x, cbs)) r = (w2, k2)" by fastforce
    from propagates_after_lock [OF s stop_on_idle_hooks [OF core c] _ a, of f]
      crit_step_parent [OF crit_step.stop_on_idle [OF c] core] FStopOnIdle e a c
    show "propagates w (f # r) w' k'" by simp
  next
    case (FDefer s h)
    then have s: "s < length (sh_heap w)" using ks by simp
    obtain b x where a: "add_deferred h (st_at w s) = (b, x)" by fastforce
    have "keeps_hooks (st_at w s) x []" "st_parent x = st_parent (st_at w s)"
      using a by (auto simp: add_deferred_def keeps_hooks_same split: if_splits)
    with FDefer e a s show "propagates w (f # r) w' k'"
      by (intro propagates_section [of s w x "[]"])
        (auto simp: add_deferred_frames_def split: if_splits bool.splits)
  next
    case (FHooks hs)
    with e ks show "propagates w (f # r) w' k'"
      by (auto intro!: propagates_same simp: run_hooks_def split: list.splits hook.splits)
  next
    case (FHook s c h)
    then have s: "s < length (sh_heap w)" and pl: "placed (parents w) (FHook s c h) r"
      using ks sh kf by (auto simp: ready_def)
    obtain b x where a: "add_stop_hook_locked c h (st_at w s) = (b, x)" by fastforce
    from propagates_hook [OF s pl a, of w' k'] FHook e a
    show "propagates w (f # r) w' k'" by (auto simp: add_stop_hook_frames_def split: bool.splits)
  next
    case (FUnhook s c)
    with e show "propagates w (f # r) w' k'" by (auto intro!: propagates_same)
  next
    case (FUnhookLock s c)
    then obtain x q where "r = FCancelCtx c x # q" using sh kf by (auto simp: ready_def)
    then have "mu_stopping (st_at w c)" "c < length (sh_heap w)" using m kf by auto
    with propagates_unhook [OF w _ this, of s r] FUnhookLock e ks
    show "propagates w (f # r) w' k'" by simp
  next
    case (FCleanup s x)
    with e show "propagates w (f # r) w' k'"
      by (auto intro!: propagates_same simp: cleanup_frames_def split: option.splits)
  next
    case (FCancelCtx s x)
    with e show "propagates w (f # r) w' k'"
      by (auto intro!: propagates_same simp: cancel_ctx_def)
  next
    case (FTimer s)
    then have s: "s < length (sh_heap w)" using ks by simp
    have stp: "mu_stopping (st_at w s)" using k kf FTimer by (simp add: goroutine_ok_def)
    obtain x cbs where c: "grace_timer_locked (st_at w s) = (x, cbs)" by fastforce
    obtain w2 k2 where a: "after_lock w s (Inr (x, cbs)) r = (w2, k2)" by fastforce
    from propagates_after_lock [OF s keeps_hooks_stopped [OF stp] _ a, of f]
      crit_step_parent [OF crit_step.grace [OF stp c] wf_heapD(3) [OF w s]] FTimer e a c
    show "propagates w (f # r) w' k'" by simp
  qed (use e in auto)
qed

section \<open>The propagation invariant\<close>

definition settled :: "'cfg conf \<Rightarrow> sid \<Rightarrow> bool" where
  "settled c s \<longleftrightarrow> mu_stopping (st_at (fst c) s) \<or> (\<exists>k\<in>set (snd c). s \<in> stack_stops k)
     \<or> parent_hook (fst c) s"

definition prop_inv :: "'cfg conf \<Rightarrow> bool" where
  "prop_inv c \<longleftrightarrow> (\<forall>s<length (sh_heap (fst c)). st_parent (st_at (fst c) s) \<noteq> None \<longrightarrow> settled c s)"

lemma prop_inv_act:
  assumes inv: "conf_inv (w, P)" and sh: "shape_inv (w, P)" and ci: "cancel_inv (w, P)" and pr: "prop_inv (w, P)"
    and i: "i < length P" and m: "micro w (P ! i) = Some (w', k', sp)"
  shows "prop_inv (w', P[i := k'] @ sp)"
proof -
  have w: "wf_heap w" using inv by (simp add: conf_inv_def)
  have ki: "goroutine_ok w (P ! i)" using conf_inv_goroutine [OF inv i] .
  note g = conf_inv_good [OF inv i m]
  have mk: "\<forall>m\<in>set (stack_marks (P ! i)). fst m < length (sh_heap w) \<and> mu_stopping (st_at w (fst m))"
  proof
    fix m assume "m \<in> set (stack_marks (P ! i))"
    then have "m \<in># conf_marks (w, P)" using nth_mem [OF i] by (auto simp: conf_marks_def)
    then have "cancel_ok w m" using ci by (simp add: cancel_inv_def)
    then show "fst m < length (sh_heap w) \<and> mu_stopping (st_at w (fst m))" by (simp add: cancel_ok_def)
  qed
  note pg = micro_propagates [OF w ki shape_inv_nth [OF sh i] m g mk]
  have par: "parents w' = parents w"
    and mono: "\<forall>a<length (sh_heap w). mu_stopping (st_at w a) \<longrightarrow> mu_stopping (st_at w' a)"
    using g by (auto simp: good_action_def)
  note len = parents_length [OF par]
  have "settled (w', P[i := k'] @ sp) s"
    if s: "s < length (sh_heap w')" and p: "st_parent (st_at w' s) \<noteq> None" for s
  proof -
    have sl: "s < length (sh_heap w)" using s len by simp
    have "st_parent (st_at w s) = st_parent (st_at w' s)"
      using par s sl by (metis nth_map)
    then have "settled (w, P) s" using pr p sl by (simp add: prop_inv_def)
    then consider "mu_stopping (st_at w s)" | j where "j < length P" "j \<noteq> i" "s \<in> stack_stops (P ! j)"
      | "s \<in> stack_stops (P ! i) \<or> parent_hook w s"
      unfolding settled_def fst_conv snd_conv by (metis in_set_conv_nth)
    then show ?thesis
    proof cases
      case 1
      with mono sl show ?thesis by (simp add: settled_def)
    next
      case 2
      then have "P ! j \<in> set (P[i := k'])" by (metis length_list_update nth_list_update_neq nth_mem)
      with 2 show ?thesis by (auto simp: settled_def)
    next
      case 3
      have "k' \<in> set (P[i := k'])" using i by (rule set_update_memI)
      with 3 pg sl show ?thesis by (auto simp: settled_def propagates_def)
    qed
  qed
  then show ?thesis by (simp add: prop_inv_def)
qed

lemma prop_inv_stack:
  assumes "prop_inv (w, P)" and "i < length P" and "stack_stops (P ! i) \<subseteq> stack_stops k"
  shows "prop_inv (w, P[i := k])"
proof -
  have "\<exists>j\<in>set (P[i := k]). s \<in> stack_stops j" if q: "q \<in> set P" "s \<in> stack_stops q" for q s
  proof -
    obtain j where j: "j < length P" "P ! j = q" using q(1) by (auto simp: in_set_conv_nth)
    have "(P[i := k]) ! j \<in> set (P[i := k])" using j by (intro nth_mem) simp
    moreover have "s \<in> stack_stops ((P[i := k]) ! j)" using j q(2) assms(2,3) by (cases "j = i") auto
    ultimately show ?thesis by blast
  qed
  with assms(1) show ?thesis by (fastforce simp: prop_inv_def settled_def)
qed

lemma settled_alloc:
  assumes "s < length (sh_heap w)" and "settled (w, P) s"
  shows "settled (alloc_state cfg p w, P) s"
  using assms by (fastforce simp: settled_def parent_hook_def nth_append)

lemma prop_step:
  "gstep c c' \<Longrightarrow> conf_inv c \<Longrightarrow> shape_inv c \<Longrightarrow> cancel_inv c \<Longrightarrow> prop_inv c \<Longrightarrow> prop_inv c'"
proof (induction rule: gstep.induct)
  case (act i P w w' k' sp)
  then show ?case by (intro prop_inv_act)
next
  case (reorder i P hs k hs' w)
  then show ?case using mset_eq_setD [OF reorder(3)] by (intro prop_inv_stack) auto
next
  case (user_call i P f k w fs)
  then show ?case by (intro prop_inv_stack) (auto simp: stack_stops_def)
next
  case (user_root i P f k w cfg)
  then show ?case
    by (auto simp: prop_inv_def less_Suc_eq nth_append intro!: settled_alloc)
next
  case (user_child i P f k p w cfg g)
  let ?n = "length (sh_heap w)"
  let ?P = "P[i := FHook p ?n (StopImpl ?n g) # f # k]" and ?w = "alloc_state cfg (Some p) w"
  have "prop_inv (w, ?P)" using user_child by (intro prop_inv_stack) auto
  then have "settled (?w, ?P) s" if "s < ?n" "st_parent (st_at w s) \<noteq> None" for s
    using that by (intro settled_alloc) (auto simp: prop_inv_def)
  moreover have "settled (?w, ?P) ?n"
  proof -
    have "FHook p ?n (StopImpl ?n g) # f # k \<in> set ?P" using user_child(1) by (rule set_update_memI)
    then have "\<exists>q\<in>set ?P. ?n \<in> stack_stops q" by (rule bexI [rotated]) simp
    then show ?thesis unfolding settled_def snd_conv by blast
  qed
  ultimately show ?case by (auto simp: prop_inv_def less_Suc_eq nth_append)
next
  case (user_done i P k w)
  then show ?case by (intro prop_inv_stack) auto
next
  case (callback_done i P s f k pcs out e w)
  then show ?case by (intro prop_inv_stack) auto
next
  case (spawn w P)
  then show ?case by (auto simp: prop_inv_def settled_def)
next
  case (timer s w i P)
  let ?w = "put_st w s (fire_timer i (st_at w s))"
  have same: "st_parent (st_at ?w a) = st_parent (st_at w a)" "mu_stopping (st_at ?w a) = mu_stopping (st_at w a)"
    "hook_set (st_at ?w a) = hook_set (st_at w a)" for a
    using timer(1) by (auto simp: nth_list_update fire_timer_def)
  have hk: "parent_hook ?w a = parent_hook w a" for a
    unfolding parent_hook_def same by simp
  have "settled (?w, P @ [[FTimer s]]) a" if "settled (w, P) a" for a
    using that unfolding settled_def fst_conv snd_conv same hk by auto
  moreover have "length (sh_heap ?w) = length (sh_heap w)" by simp
  ultimately show ?case using timer(8) unfolding prop_inv_def fst_conv same by simp
next
  case (tick w t P)
  then show ?case by (simp add: prop_inv_def settled_def parent_hook_def)
next
  case (outside_cancel s w e P)
  then show ?case by (simp add: prop_inv_def settled_def parent_hook_def cancel_ctx_def)
qed

end
