(* ===== verification/Machine_Shutdown.thy ===== *)
theory Machine_Shutdown
  imports Machine_Propagate
begin

text \<open>
  The end of a shutdown. Once nothing but user code is left to run, every context that is stopping has
  been canceled, its deferred functions have been handed out and everything below it has stopped as
  well; and if the user code returns, that point is reached.
\<close>

section \<open>A performed cancellation is visible\<close>

lemma eff_cause_mono:
  assumes "length cs' = length cs" and "\<And>i. i < length cs \<Longrightarrow> cs ! i \<noteq> None \<Longrightarrow> cs' ! i \<noteq> None"
    and "eff_cause ps cs s \<noteq> None"
  shows "eff_cause ps cs' s \<noteq> None"
  using assms(3)
proof (induction s rule: less_induct)
  case (less s)
  note e = less.prems [unfolded eff_cause.simps [of ps cs s]]
  then have s: "s < length cs" "s < length ps" by (auto split: if_splits)
  show ?case
  proof (cases "cs' ! s")
    case (Some x)
    with s assms(1) show ?thesis by (simp add: eff_cause.simps [of ps cs' s])
  next
    case None
    then have n: "cs ! s = None" using assms(2) [OF s(1)] by (cases "cs ! s") auto
    with e s obtain p where p: "ps ! s = Some p" "p < s" "eff_cause ps cs p \<noteq> None"
      by (auto split: option.splits if_splits)
    from less.IH [OF p(2,3)] None p(1,2) s assms(1) show ?thesis
      by (simp add: eff_cause.simps [of ps cs' s])
  qed
qed

lemma eff_cause_append:
  "length cs = length ps \<Longrightarrow> s < length ps \<Longrightarrow> eff_cause (ps @ [p]) (cs @ [x]) s = eff_cause ps cs s"
proof (induction s rule: less_induct)
  case (less s)
  then show ?case
    by (auto simp: eff_cause.simps [of ps cs s] eff_cause.simps [of "ps @ [p]" "cs @ [x]" s] nth_append
        split: option.splits)
qed

lemma cancel_ctx_length [simp]:
  "length (sh_cause (cancel_ctx s e w)) = length (sh_cause w)" "sh_heap (cancel_ctx s e w) = sh_heap w"
  by (simp_all add: cancel_ctx_def)

lemma cancel_ctx_cause:
  "context_cause w a \<noteq> None \<Longrightarrow> context_cause (cancel_ctx s e w) a \<noteq> None"
proof (cases "context_cause w s")
  case None
  assume a: "context_cause w a \<noteq> None"
  show ?thesis
  proof -
    have "(sh_cause w)[s := Some e] ! i \<noteq> None" if "sh_cause w ! i \<noteq> None" "i < length (sh_cause w)" for i
      using that by (cases "i = s") auto
    with eff_cause_mono [of "(sh_cause w)[s := Some e]" "sh_cause w" "parents w" a] a None show ?thesis
      unfolding context_cause_def cancel_ctx_def by simp
  qed
qed (simp add: cancel_ctx_def)

lemma cancel_ctx_done:
  assumes "s < length (sh_heap w)" and "length (sh_cause w) = length (sh_heap w)"
  shows "context_cause (cancel_ctx s e w) s \<noteq> None"
proof (cases "context_cause w s")
  case None
  then show ?thesis
    using assms by (simp add: cancel_ctx_def context_cause_def eff_cause.simps [of _ "(sh_cause w)[s := Some e]"])
qed (simp add: cancel_ctx_def)

text \<open>The canceled contexts, and the actions that change them.\<close>

definition cancelled_at :: "'cfg shared \<Rightarrow> sid set" where
  "cancelled_at w = fst ` set (done_marks w)"

definition cause_inv :: "'cfg conf \<Rightarrow> bool" where
  "cause_inv c \<longleftrightarrow> (\<forall>a\<in>cancelled_at (fst c). a < length (sh_heap (fst c)) \<and> context_cause (fst c) a \<noteq> None)"

lemma cancelled_at_simps [simp]:
  "cancelled_at (put_st w s x) = cancelled_at w"
  "cancelled_at (w\<lparr>sh_trace := sh_trace w @ [EvRan s f]\<rparr>) = cancelled_at w"
  "cancelled_at ((put_st w s x)\<lparr>sh_trace := sh_trace w @ [EvRan s f]\<rparr>) = cancelled_at w"
  "cancelled_at ((cancel_ctx s e w)\<lparr>sh_trace := sh_trace w @ [EvCancel s e]\<rparr>) = insert s (cancelled_at w)"
  by (simp_all add: cancelled_at_def done_marks_def)

lemma micro_cause:
  assumes "micro w k = Some (w', k', sp)"
  shows "(sh_cause w' = sh_cause w \<and> cancelled_at w' = cancelled_at w)
    \<or> (\<exists>s e r. k = FCancelCtx s e # r \<and> sh_heap w' = sh_heap w \<and> sh_cause w' = sh_cause (cancel_ctx s e w)
         \<and> cancelled_at w' = insert s (cancelled_at w))"
proof -
  obtain f r where kf: "k = f # r" and e: "exec_frame w f r = Some (w', k', sp)"
    using assms by (auto simp: micro_def split: list.splits)
  have lock: "sh_cause v = sh_cause w \<and> cancelled_at v = cancelled_at w"
    if "after_lock w s y r = (v, j)" for s y v j
    using that by (auto simp: after_lock_def split: sum.splits)
  show ?thesis
  proof (cases f)
    case (FRet b)
    with e show ?thesis
      by (cases "(w, b, r)" rule: exec_ret.cases)
        (auto simp: apply_resume_def split: if_splits sum.splits prod.splits)
  next
    case (FRun s cbs)
    show ?thesis
    proof (cases cbs)
      case Nil
      with e FRun show ?thesis by (simp add: run_deferred_def)
    next
      case (Cons cb cs)
      with e FRun show ?thesis
        by (cases "(w, s, cb, FRun s cs # r)" rule: run_callback.cases)
          (auto simp: run_deferred_def)
    qed
  next
    case (FStop s g)
    with e lock show ?thesis by (auto split: prod.splits)
  next
    case (FStopOnIdle s g)
    with e lock show ?thesis by (auto split: prod.splits)
  next
    case (FTimer s)
    with e lock show ?thesis by (auto split: prod.splits)
  next
    case (FDefer s h)
    with e show ?thesis
      by (auto simp: add_deferred_frames_def split: prod.splits bool.splits)
  next
    case (FHook s c h)
    with e show ?thesis by (auto simp: add_stop_hook_frames_def split: prod.splits bool.splits)
  next
    case (FCancelCtx s x)
    with e kf show ?thesis by auto
  qed (use e in auto)
qed

lemma cause_inv_same:
  "cause_inv (w, P) \<Longrightarrow> parents w' = parents w \<Longrightarrow> sh_cause w' = sh_cause w \<Longrightarrow>
     cancelled_at w' = cancelled_at w \<Longrightarrow> cause_inv (w', P')"
  using parents_length [of w' w] by (simp add: cause_inv_def context_cause_def)

lemma cause_step: "gstep c c' \<Longrightarrow> conf_inv c \<Longrightarrow> cause_inv c \<Longrightarrow> cause_inv c'"
proof (induction rule: gstep.induct)
  case (act i P w w' k' sp)
  have w: "wf_heap w" using act(3) by (simp add: conf_inv_def)
  have ki: "goroutine_ok w (P ! i)" using conf_inv_goroutine [OF act(3,1)] .
  have par: "parents w' = parents w" by (rule good_parents [OF conf_inv_good [OF act(3,1,2)]])
  from micro_cause [OF act(2)] show ?case
  proof (elim disjE exE conjE)
    assume "sh_cause w' = sh_cause w" "cancelled_at w' = cancelled_at w"
    from cause_inv_same [OF act(4) par this] show ?thesis .
  next
    fix s e r
    assume a: "P ! i = FCancelCtx s e # r" "sh_heap w' = sh_heap w" "sh_cause w' = sh_cause (cancel_ctx s e w)"
      "cancelled_at w' = insert s (cancelled_at w)"
    have s: "s < length (sh_heap w)" using ki a(1) by (simp add: goroutine_ok_def)
    have cw: "context_cause w' b = context_cause (cancel_ctx s e w) b" for b
      using a(2,3) by (simp add: context_cause_def)
    have len: "length (sh_cause w) = length (sh_heap w)" using w by (simp add: wf_heap_def)
    show ?thesis
      unfolding cause_inv_def fst_conv a(2,4) cw
    proof
      fix b assume "b \<in> insert s (cancelled_at w)"
      with s act(4) cancel_ctx_cause [of w b s e] cancel_ctx_done [OF s len]
      show "b < length (sh_heap w) \<and> context_cause (cancel_ctx s e w) b \<noteq> None"
        unfolding cause_inv_def fst_conv by blast
    qed
  qed
next
  case (user_root i P f k w cfg)
  then show ?case
    by (auto simp: cause_inv_def context_cause_def cancelled_at_def done_marks_def conf_inv_def wf_heap_def
        eff_cause_append alloc_state_def new_state_def less_Suc_eq)
next
  case (user_child i P f k p w cfg g)
  then show ?case
    by (auto simp: cause_inv_def context_cause_def cancelled_at_def done_marks_def conf_inv_def wf_heap_def
        eff_cause_append alloc_state_def new_state_def less_Suc_eq)
next
  case (timer s w i P)
  have "parents (put_st w s (fire_timer i (st_at w s))) = parents w" by (rule put_st_parents) simp
  from cause_inv_same [OF timer(6) this] show ?case by simp
next
  case (outside_cancel s w P e)
  have "cancelled_at (cancel_ctx s e w) = cancelled_at w"
    by (simp add: cancelled_at_def done_marks_def cancel_ctx_def)
  with outside_cancel cancel_ctx_cause [of w _ s e] show ?case by (auto simp: cause_inv_def)
qed (auto simp: cause_inv_def context_cause_def cancelled_at_def done_marks_def)

lemma cause_init: "cause_inv init_conf"
  by (simp add: cause_inv_def init_conf_def cancelled_at_def done_marks_def)

section \<open>Deferred functions that are left\<close>

text \<open>
  After a hard stop a function can only be left behind by a registration that comes while tasks are
  still running, that is, after the grace period expired.
\<close>

lemma crit_step_left_behind:
  assumes "crit_step s fs t cbs" and "wf_core s" and "mu_cancel t = None" and "mu_deferred t \<noteq> []"
  shows "mu_cancel s = None \<and> (mu_deferred s \<noteq> [] \<or> 0 < mu_count s)"
  using assms
proof (induction rule: crit_step.induct)
  case (defer_kept f s t)
  then show ?case by (auto simp: add_deferred_def wf_core_def split: if_splits)
next
  case (applied now d s t cbs r)
  from applied(2) show ?case
  proof (cases rule: apply_locked_cases [of _ d now])
    case (idle g u c)
    from wf_core_count [OF applied(2) order_refl] show ?thesis
    proof (cases rule: soft_stop_cases [of _ now g])
      case (hard e v z)
      with hard_stop_fields [OF hard(2)] idle applied show ?thesis by (auto split: if_splits)
    qed (use idle applied in auto)
  next
    case (last u c)
    with hard_stop_fields [OF last(5)] applied show ?thesis by (auto split: if_splits)
  qed (use applied in \<open>auto split: option.splits\<close>)
next
  case (stop now g s t cbs)
  from stop(2) show ?case
  proof (cases rule: soft_stop_cases [of _ now g])
    case (hard e v z)
    with hard_stop_fields [OF hard(2)] stop show ?thesis by (auto simp: stop_locked_def split: if_splits)
  qed (use stop in \<open>auto simp: stop_locked_def\<close>)
next
  case (stop_on_idle now g s t cbs)
  show ?case
  proof (cases "mu_count s = 0")
    case True
    from wf_core_idle [OF stop_on_idle(2), of "Some g"] show ?thesis
    proof (cases rule: soft_stop_cases [of _ now g])
      case (hard e v z)
      with hard_stop_fields [OF hard(2)] stop_on_idle True show ?thesis
        by (auto simp: stop_on_idle_locked_def split: if_splits)
    qed (use stop_on_idle True in \<open>auto simp: stop_on_idle_locked_def\<close>)
  qed (use stop_on_idle in \<open>auto simp: stop_on_idle_locked_def\<close>)
next
  case (grace s t cbs)
  then show ?case using hard_stop_fields [of ErrGracePeriodExpired s t cbs]
    by (auto simp: grace_timer_locked_def split: if_splits)
qed (auto simp: add_deferred_def add_errors_eq add_stop_hook_locked_def unhook_locked_def Let_def
    split: if_splits option.splits)

definition deferred_inv :: "'cfg conf \<Rightarrow> bool" where
  "deferred_inv c \<longleftrightarrow> (\<forall>a<length (sh_heap (fst c)).
     mu_cancel (st_at (fst c) a) = None \<and> mu_deferred (st_at (fst c) a) \<noteq> [] \<longrightarrow>
       (a, ErrGracePeriodExpired) \<in># conf_marks c)"

lemma marks_of_one: "marks_of a M = 1 \<Longrightarrow> \<exists>m. m \<in># M \<and> fst m = a"
proof -
  assume "marks_of a M = 1"
  then have "{#m \<in># M. fst m = a#} \<noteq> {#}" unfolding marks_of_def by (metis size_empty zero_neq_one)
  then show ?thesis unfolding filter_mset_eq_mempty_iff by blast
qed

lemma grace_mark:
  assumes "cancel_inv c" and "a < length (sh_heap (fst c))" and "mu_cancel (st_at (fst c) a) = None"
    and "0 < mu_count (st_at (fst c) a)"
  shows "(a, ErrGracePeriodExpired) \<in># conf_marks c"
proof -
  have "marks_of a (conf_marks c) = 1" using assms(1-3) by (auto simp: cancel_inv_def armed_def)
  then obtain m where m: "m \<in># conf_marks c" "fst m = a" using marks_of_one by blast
  then have "cancel_ok (fst c) m" using assms(1) by (simp add: cancel_inv_def)
  then have "m = (a, ErrGracePeriodExpired)" using m(2) assms(4) by (cases m) (auto simp: cancel_ok_def)
  with m(1) show ?thesis by simp
qed

lemma deferred_moved:
  assumes inv: "conf_inv c" and mv: "moved c c'" and ci: "cancel_inv c" and d: "deferred_inv c"
  shows "deferred_inv c'"
proof -
  have w: "wf_heap (fst c)" using inv by (cases c) (simp add: conf_inv_def)
  from mv show ?thesis
    unfolding moved_def
  proof (elim disjE exE conjE)
    fix cfg p
    assume "sh_heap (fst c') = sh_heap (fst c) @ [new_state (Cleanup (length (sh_heap (fst c)))) cfg p]"
      "conf_marks c' = conf_marks c"
    with d show ?thesis by (simp add: deferred_inv_def nth_append less_Suc_eq)
  next
    fix s fs x cbs
    assume s: "s < length (sh_heap (fst c))" "sh_heap (fst c') = (sh_heap (fst c))[s := x]"
      "crit_step (st_at (fst c) s) fs x cbs" "conf_marks c' = conf_marks c + mset (cbs_marks cbs)"
    have "(s, ErrGracePeriodExpired) \<in># conf_marks c" if "mu_cancel x = None" "mu_deferred x \<noteq> []"
      using crit_step_left_behind [OF s(3) wf_heapD(3) [OF w s(1)] that] grace_mark [OF ci s(1)] d s(1)
      by (auto simp: deferred_inv_def)
    with d s(1,2,4) show ?thesis by (simp add: deferred_inv_def nth_list_update)
  qed (use d in \<open>simp add: deferred_inv_def\<close>)
qed

lemma deferred_init: "deferred_inv init_conf"
  by (simp add: deferred_inv_def init_conf_def)

section \<open>Everything together\<close>

definition shutdown_inv :: "'cfg conf \<Rightarrow> bool" where
  "shutdown_inv c \<longleftrightarrow> conf_inv c \<and> cancel_inv c \<and> shape_inv c \<and> prop_inv c \<and> cause_inv c \<and> deferred_inv c"

lemma prop_init: "prop_inv init_conf"
  by (simp add: prop_inv_def init_conf_def)

interpretation shutdown: invariant_system "\<lambda>c. c = init_conf" gstep shutdown_inv
proof unfold_locales
  fix c d :: "'a conf"
  assume i: "shutdown_inv c" and g: "gstep c d"
  note j = i [unfolded shutdown_inv_def]
  have mv: "moved c d" using g j gstep_moved by blast
  have "conf_inv d" "shape_inv d" "cause_inv d"
    using conf_inv_step [OF g] shape_step [OF g] cause_step [OF g] j by simp_all
  moreover have "prop_inv d" using prop_step [OF g] j by simp
  moreover have "cancel_inv d" using cancel_inv_moved [OF _ mv] j by simp
  moreover have "deferred_inv d" using deferred_moved [OF _ mv] j by simp
  ultimately show "shutdown_inv d" by (simp add: shutdown_inv_def)
qed (use conf_inv_init cancel_inv_init shape_init prop_init cause_init deferred_init in
    \<open>auto simp: shutdown_inv_def\<close>)

lemma shutdown_drains: "drain_step\<^sup>*\<^sup>* c c' \<Longrightarrow> shutdown_inv c \<Longrightarrow> shutdown_inv c'"
  using drain_gsteps shutdown.inv_steps by blast

text \<open>
  A context is finished: nothing runs on it, its context reports a cause, its cancel function has
  been called and no deferred function is left, except when its grace period ran out.
\<close>

definition finished :: "'cfg shared \<Rightarrow> sid \<Rightarrow> bool" where
  "finished w a \<longleftrightarrow> is_stopping (st_at w a) \<and> len_of (st_at w a) = 0 \<and> context_cause w a \<noteq> None
     \<and> (\<exists>e. EvCancel a e \<in> set (sh_trace w))
     \<and> (mu_deferred (st_at w a) = [] \<or> EvCancel a ErrGracePeriodExpired \<in> set (sh_trace w))"

definition idle_stack :: "frame list \<Rightarrow> bool" where
  "idle_stack k \<longleftrightarrow> set k \<subseteq> {FUser}"

lemma idle_stack_simps:
  "idle_stack k \<Longrightarrow> owes ps a k = 0 \<and> stack_marks k = [] \<and> stack_stops k = {}"
proof (induction k)
  case (Cons f k)
  then have "f = FUser" "idle_stack k" by (auto simp: idle_stack_def)
  with Cons.IH show ?case by simp
qed simp

lemma done_marks_event: "(a, e) \<in> set (done_marks w) \<Longrightarrow> EvCancel a e \<in> set (sh_trace w)"
proof -
  have "(a, e) \<in> set (event_marks x) \<Longrightarrow> x = EvCancel a e" for x by (cases x) auto
  then show "(a, e) \<in> set (done_marks w) \<Longrightarrow> ?thesis" by (auto simp: done_marks_def)
qed

lemma idle_marks: "\<forall>k\<in>set P. idle_stack k \<Longrightarrow> conf_marks (w, P) = mset (done_marks w)"
  using idle_stack_simps by (simp add: conf_marks_def cong: map_cong)

lemma idle_finished:
  assumes inv: "shutdown_inv (w, P)" and P: "\<forall>k\<in>set P. idle_stack k" and a: "a < length (sh_heap w)"
    and st: "is_stopping (st_at w a)"
  shows "finished w a"
proof -
  note i = inv [unfolded shutdown_inv_def]
  have "sum_list (map (owes (parents w) a) P) = 0"
    using P by (induction P) (simp_all add: idle_stack_simps)
  then have c: "mu_count (st_at w a) = 0" using i a by (simp add: conf_inv_def)
  have "wf_state (st_at w a)" using i wf_heapD(2) [of w a] a by (auto simp: conf_inv_def)
  with c st have cn: "mu_cancel (st_at w a) = None" by (simp add: wf_state_def is_stopping_def)
  have "marks_of a (mset (done_marks w)) = 1"
    using i a cn idle_marks [OF P, of w] by (auto simp: cancel_inv_def armed_def)
  then obtain m where m: "m \<in> set (done_marks w)" "fst m = a" using marks_of_one by fastforce
  then have "EvCancel a (snd m) \<in> set (sh_trace w)" using done_marks_event [of a "snd m" w] by (metis prod.collapse)
  moreover have "context_cause w a \<noteq> None" using i m by (auto simp: cause_inv_def cancelled_at_def)
  moreover have "mu_deferred (st_at w a) = [] \<or> EvCancel a ErrGracePeriodExpired \<in> set (sh_trace w)"
    using i a cn idle_marks [OF P, of w] done_marks_event by (fastforce simp: deferred_inv_def)
  ultimately show ?thesis using c st by (auto simp: finished_def len_of_def)
qed

lemma idle_children:
  assumes inv: "shutdown_inv (w, P)" and P: "\<forall>k\<in>set P. idle_stack k"
    and c: "c < length (sh_heap w)" "a \<in> set (ancs (parents w) c)" and st: "is_stopping (st_at w a)"
  shows "is_stopping (st_at w c)"
  using c
proof (induction c rule: less_induct)
  case (less c)
  note i = inv [unfolded shutdown_inv_def]
  show ?case
  proof (cases "c = a")
    case False
    with less.prems obtain p where p: "st_parent (st_at w c) = Some p" "p < c" "a \<in> set (ancs (parents w) p)"
      using mem_ancs [of a "parents w" c] by auto
    have "is_stopping (st_at w p)" using less.IH p less.prems(1) by simp
    moreover have "settled (w, P) c" using i less.prems(1) p(1) by (simp add: prop_inv_def)
    ultimately show ?thesis
      using P idle_stack_simps p(1)
      by (auto simp: settled_def parent_hook_def hook_set_def is_stopping_def)
  qed (use st in simp)
qed

end
