(* ===== verification/Machine_Grace.thy ===== *)
theory Machine_Grace
  imports Machine_Shutdown
begin

text \<open>
  The grace period and the order of a shutdown. A goroutine that runs the callbacks of a stop runs the
  deferred functions of the context before it calls the context's cancel function; the goroutine of
  an expired grace timer has nothing else on its stack; and as long as a stopping context with tasks has
  not handed out its cancel function, either its grace timer is active or it has fired and its
  goroutine has still to run.
\<close>

section \<open>The order of the callbacks of a stop\<close>

definition has_cancel :: "sid \<Rightarrow> callback list \<Rightarrow> bool" where
  "has_cancel s cbs \<longleftrightarrow> (\<exists>e. CbCancel (Cleanup s) e \<in> set cbs)"

text \<open>Every deferred function has the cancel function of the same context after it.\<close>

fun users_first :: "sid \<Rightarrow> callback list \<Rightarrow> bool" where
  "users_first s [] \<longleftrightarrow> True"
| "users_first s (CbUser f # cs) \<longleftrightarrow> has_cancel s cs \<and> users_first s cs"
| "users_first s (_ # cs) \<longleftrightarrow> users_first s cs"

lemma has_cancel_simps [simp]:
  "\<not> has_cancel s []"
  "has_cancel s (CbCancel (Cleanup s) e # cs)"
  "has_cancel s (CbUser f # cs) \<longleftrightarrow> has_cancel s cs"
  "has_cancel s (cs @ ds) \<longleftrightarrow> has_cancel s cs \<or> has_cancel s ds"
  by (auto simp: has_cancel_def)

lemma users_first_none: "user_cbs cbs = [] \<Longrightarrow> users_first s cbs"
  by (induction s cbs rule: users_first.induct) auto

lemma users_first_map:
  "users_first s (map CbUser fs @ CbCancel (Cleanup s) e # cs) \<longleftrightarrow> users_first s cs"
  by (induction fs) auto

lemma user_cbs_rev [simp]: "user_cbs (rev cbs) = rev (user_cbs cbs)"
  by (induction cbs rule: user_cbs.induct) auto

lemma hard_stop_order:
  assumes "hard_stop_locked e s = (t, cbs)" and "\<And>c. mu_cancel s = Some c \<Longrightarrow> c = Cleanup a"
    and "user_cbs ds = []"
  shows "users_first a (rev cbs @ ds)"
  using hard_stop_fields(11) [OF assms(1)] assms(2,3) users_first_none [of ds a]
  by (auto simp: rev_map users_first_map simp del: rev_map [symmetric] split: option.splits)

lemma soft_stop_order:
  assumes "wf_core s" and "soft_stop_locked now g s = Inr (t, cbs)"
    and "\<And>c. mu_cancel s = Some c \<Longrightarrow> c = Cleanup a"
  shows "users_first a (rev cbs)"
  using assms(1)
proof (cases rule: soft_stop_cases [of _ now g])
  case (hard e u d)
  have "users_first a (rev d @ rev (soft_hooks s))"
    by (rule hard_stop_order [OF hard(2)]) (use assms(3) in simp_all)
  with hard(1) assms(2) show ?thesis by simp
next
  case timer
  with assms(2) show ?thesis by (auto intro: users_first_none)
qed

lemma apply_locked_order:
  assumes "wf_core s" and "apply_locked now d s = Inr (t, cbs, r)"
    and "\<And>c. mu_cancel s = Some c \<Longrightarrow> c = Cleanup a"
  shows "users_first a (rev cbs)"
  using assms(1)
proof (cases rule: apply_locked_cases [of _ d now])
  case (idle g u c)
  with soft_stop_order [OF wf_core_count [OF assms(1) order_refl] idle(4)] assms(2,3) show ?thesis by simp
next
  case (last u c)
  have "users_first a (rev c @ [])" by (rule hard_stop_order [OF last(5)]) (use assms(3) in simp_all)
  with last assms(2) show ?thesis by simp
qed (use assms(2) in \<open>auto intro: users_first_none split: option.splits\<close>)

lemma stop_on_idle_order:
  assumes "wf_core s" and "stop_on_idle_locked now g s = Inr (t, cbs)"
    and "\<And>c. mu_cancel s = Some c \<Longrightarrow> c = Cleanup a"
  shows "users_first a (rev cbs)"
proof (cases "mu_count s = 0")
  case True
  with assms(2) have "soft_stop_locked now g (s\<lparr>mu_stopOnIdle := Some g\<rparr>) = Inr (t, cbs)"
    by (simp add: stop_on_idle_locked_def)
  from soft_stop_order [OF wf_core_idle [OF assms(1)] this] assms(3) show ?thesis by simp
next
  case False
  with assms(2) show ?thesis by (auto simp: stop_on_idle_locked_def)
qed

section \<open>Tidy stacks\<close>

fun tidy_top :: "frame \<Rightarrow> frame list \<Rightarrow> bool" where
  "tidy_top (FTimer s) k \<longleftrightarrow> k = []"
| "tidy_top (FRun s cbs) k \<longleftrightarrow> users_first s cbs"
| "tidy_top (FDefer s f) k \<longleftrightarrow> k \<noteq> [] \<and> is_user (hd k)"
| "tidy_top (FUserCb s f) k \<longleftrightarrow> (\<forall>t cbs r. k = FRun t cbs # r \<longrightarrow> t = s \<and> has_cancel s cbs)"
| "tidy_top _ k \<longleftrightarrow> True"

fun tidy :: "frame list \<Rightarrow> bool" where
  "tidy [] \<longleftrightarrow> True"
| "tidy (f # k) \<longleftrightarrow> tidy_top f k \<and> (\<forall>s. FTimer s \<notin> set k) \<and> tidy k"

lemma tidy_tail: "tidy (ks @ k) \<Longrightarrow> tidy k"
  by (induction ks) auto

lemma tidy_timer: "tidy k \<Longrightarrow> FTimer s \<in> set k \<Longrightarrow> k = [FTimer s]"
  by (cases k) auto

lemma run_tidy:
  assumes "run_deferred w s cbs k = (w', k')" and "users_first s cbs" and "tidy k" and "\<forall>s. FTimer s \<notin> set k"
  shows "tidy k'"
proof (cases cbs)
  case (Cons cb cs)
  with assms show ?thesis
    by (cases "(w, s, cb, FRun s cs # k)" rule: run_callback.cases) (auto simp: run_deferred_def)
qed (use assms in \<open>simp add: run_deferred_def\<close>)

lemma after_lock_tidy:
  "after_lock w s (Inr (x, cbs)) k = (w', k') \<Longrightarrow> users_first s (rev cbs) \<Longrightarrow> tidy k \<Longrightarrow>
     \<forall>s. FTimer s \<notin> set k \<Longrightarrow> tidy k'"
  by (auto simp: after_lock_def)

lemma ret_tidy:
  assumes w: "wf_heap w" and ex: "exec_ret w b k = Some (w', k', sp)" and k: "tidy k" and t: "\<forall>s. FTimer s \<notin> set k"
    and ks: "wf_stack (parents w) k"
  shows "\<forall>j\<in>set (k' # sp). tidy j"
proof (cases "(w, b, k)" rule: exec_ret.cases)
  case (1 w1 b1 s d k1)
  have s: "s < length (sh_heap w)" using ks 1 by simp
  have "mu_cancel (st_at w s) = Some c \<Longrightarrow> c = Cleanup s" for c
    using wf_heapD(1) [OF w s] by (simp add: ok_state_def)
  with apply_locked_order [OF wf_heapD(3) [OF w s]] ex 1 k t show ?thesis
    by (fastforce simp: apply_resume_def split: if_splits sum.splits prod.splits)
qed (use ex k t in \<open>auto split: if_splits\<close>)

lemma micro_tidy:
  assumes w: "wf_heap w" and ks: "wf_stack (parents w) k" and ex: "micro w k = Some (w', k', sp)" and k: "tidy k"
  shows "\<forall>j\<in>set (k' # sp). tidy j"
proof -
  obtain f r where kf: "k = f # r" and e: "exec_frame w f r = Some (w', k', sp)"
    using ex by (auto simp: micro_def split: list.splits)
  have r: "tidy r" "\<forall>s. FTimer s \<notin> set r" "tidy_top f r" and kr: "wf_stack (parents w) r" "ok_frame (parents w) f r"
    using k ks kf by auto
  have c: "s < length (sh_heap w) \<Longrightarrow> mu_cancel (st_at w s) = Some c \<Longrightarrow> c = Cleanup s" for c s
    using wf_heapD(1) [OF w] by (simp add: ok_state_def)
  show ?thesis
  proof (cases f)
    case (FApply s d)
    with e r show ?thesis by (auto simp: apply_enter_def split: option.splits if_splits)
  next
    case (FRet b)
    with e r kr ret_tidy [OF w] show ?thesis by simp
  next
    case (FRun s cbs)
    with e r run_tidy show ?thesis by (fastforce split: prod.splits)
  next
    case (FStop s g)
    with kr have s: "s < length (sh_heap w)" by simp
    obtain x cbs where l: "stop_locked (sh_now w) g (st_at w s) = Inr (x, cbs)"
      using soft_stop_no_crash [OF wf_heapD(3) [OF w s]] unfolding stop_locked_def by blast
    from soft_stop_order [OF wf_heapD(3) [OF w s] this [unfolded stop_locked_def] c [OF s]] FStop e r l
    show ?thesis by (auto split: prod.splits dest: after_lock_tidy)
  next
    case (FStopOnIdle s g)
    with kr have s: "s < length (sh_heap w)" by simp
    obtain x cbs where l: "stop_on_idle_locked (sh_now w) g (st_at w s) = Inr (x, cbs)"
      using soft_stop_no_crash [OF wf_core_idle [OF wf_heapD(3) [OF w s]], of "sh_now w" g "Some g"]
      by (cases "mu_count (st_at w s) = 0") (auto simp: stop_on_idle_locked_def)
    from stop_on_idle_order [OF wf_heapD(3) [OF w s] this c [OF s]] FStopOnIdle e r l
    show ?thesis by (auto split: prod.splits dest: after_lock_tidy)
  next
    case (FTimer s)
    with kr have s: "s < length (sh_heap w)" by simp
    obtain x cbs where l: "grace_timer_locked (st_at w s) = (x, cbs)" by fastforce
    have "users_first s (rev cbs @ [])"
      by (rule hard_stop_order [OF l [unfolded grace_timer_locked_def] c [OF s]]) simp_all
    with FTimer e r l show ?thesis by (auto split: prod.splits dest: after_lock_tidy)
  next
    case (FDefer s h)
    with r obtain u q where "r = u # q" "is_user u" by (cases r) auto
    with FDefer e r show ?thesis
      by (auto simp: add_deferred_frames_def split: prod.splits bool.splits)
  next
    case (FHooks hs)
    with e r show ?thesis by (auto simp: run_hooks_def split: list.splits hook.splits)
  next
    case (FHook s c h)
    with e r show ?thesis
      by (auto simp: add_stop_hook_frames_def split: prod.splits bool.splits)
  next
    case (FCleanup s x)
    with e r show ?thesis by (auto simp: cleanup_frames_def split: option.splits)
  qed (use e r in auto)
qed

section \<open>The invariant\<close>

definition timer_pending :: "'cfg conf \<Rightarrow> sid \<Rightarrow> bool" where
  "timer_pending c a \<longleftrightarrow> timer_ok (st_at (fst c) a) \<or> [FTimer a] \<in> set (snd c)"

definition grace_inv :: "'cfg conf \<Rightarrow> bool" where
  "grace_inv c \<longleftrightarrow> (\<forall>k\<in>set (snd c). tidy k) \<and> (\<forall>a<length (sh_heap (fst c)). timer_pending c a)"

lemma grace_inv_same:
  assumes "grace_inv (w, P)" and "sh_heap w' = sh_heap w" and "\<And>a. [FTimer a] \<in> set P \<Longrightarrow> [FTimer a] \<in> set P'"
    and "\<forall>k\<in>set P'. tidy k"
  shows "grace_inv (w', P')"
  using assms by (auto simp: grace_inv_def timer_pending_def)

lemma timer_elsewhere: "i < length P \<Longrightarrow> k \<in> set P \<Longrightarrow> P ! i \<noteq> k \<Longrightarrow> k \<in> set (P[i := q])"
  by (metis in_set_conv_nth length_list_update nth_list_update_neq)

lemma grace_inv_stack:
  assumes "grace_inv (w, P)" and "i < length P" and "\<And>a. P ! i \<noteq> [FTimer a]" and "tidy k"
  shows "grace_inv (w, P[i := k])"
proof (rule grace_inv_same [OF assms(1) refl])
  show "[FTimer a] \<in> set (P[i := k])" if "[FTimer a] \<in> set P" for a
    by (rule timer_elsewhere [OF assms(2) that assms(3)])
  show "\<forall>j\<in>set (P[i := k]). tidy j"
    using assms(1,4) set_update_subset_insert [of P i k] by (auto simp: grace_inv_def)
qed

lemma grace_inv_nth: "grace_inv (w, P) \<Longrightarrow> i < length P \<Longrightarrow> tidy (P ! i)"
  by (simp add: grace_inv_def)

lemma grace_act:
  assumes inv: "conf_inv (w, P)" and i: "i < length P" and m: "micro w (P ! i) = Some (w', k', sp)"
    and g: "grace_inv (w, P)"
  shows "grace_inv (w', P[i := k'] @ sp)"
proof -
  have w: "wf_heap w" using inv by (simp add: conf_inv_def)
  note ki = conf_inv_goroutine [OF inv i]
  have td: "\<forall>j\<in>set (k' # sp). tidy j"
    using micro_tidy [OF w _ m grace_inv_nth [OF g i]] ki by (simp add: goroutine_ok_def)
  have tr: "tracked w (P ! i) w' k'" using micro_tracked [OF w ki m conf_inv_good [OF inv i m]] by simp
  have heap: "length (sh_heap w') = length (sh_heap w) \<and>
      (\<forall>a<length (sh_heap w). timer_ok (st_at w a) \<longrightarrow> timer_ok (st_at w' a))"
    using tr unfolding tracked_def by (auto simp: nth_list_update)
  have "timer_pending (w', P[i := k'] @ sp) a" if a: "a < length (sh_heap w')" for a
  proof (cases "timer_ok (st_at w a)")
    case True
    with heap a show ?thesis by (simp add: timer_pending_def)
  next
    case False
    then have p: "[FTimer a] \<in> set P" using g heap a by (auto simp: grace_inv_def timer_pending_def)
    show ?thesis
    proof (cases "P ! i = [FTimer a]")
      case True
      obtain x cbs where l: "grace_timer_locked (st_at w a) = (x, cbs)" by fastforce
      with True m have "w' = put_st w a x" by (simp add: micro_def after_lock_def)
      moreover have "mu_cancel x = None" using hard_stop_fields(4) l by (metis grace_timer_locked_def)
      ultimately show ?thesis using a heap by (simp add: timer_pending_def)
    next
      case False
      from timer_elsewhere [OF i p this] show ?thesis by (simp add: timer_pending_def)
    qed
  qed
  with td g set_update_subset_insert [of P i k'] show ?thesis by (auto simp: grace_inv_def)
qed

lemma grace_alloc:
  assumes "grace_inv (w, P)"
  shows "grace_inv (alloc_state cfg p w, P)"
proof -
  have "timer_ok (new_state c cfg p)" for c cfg p by (simp add: timer_ok_def new_state_def)
  with assms show ?thesis
    by (auto simp: grace_inv_def timer_pending_def alloc_state_def nth_append less_Suc_eq)
qed

lemma api_call_tidy: "api_call w fs \<Longrightarrow> is_user f \<Longrightarrow> tidy (f # k) \<Longrightarrow> tidy (fs @ f # k)"
  by (induction rule: api_call.induct) auto

lemma user_not_timer: "is_user f \<Longrightarrow> f \<noteq> FTimer a"
  by (cases f) auto

lemma grace_step: "gstep c c' \<Longrightarrow> conf_inv c \<Longrightarrow> grace_inv c \<Longrightarrow> grace_inv c'"
proof (induction rule: gstep.induct)
  case (act i P w w' k' sp)
  then show ?case by (blast intro: grace_act)
next
  case (reorder i P hs k hs' w)
  with grace_inv_nth [of w P i] show ?case by (intro grace_inv_stack) auto
next
  case (user_call i P f k w fs)
  with grace_inv_nth [of w P i] show ?case
    by (intro grace_inv_stack api_call_tidy) (auto dest: user_not_timer)
next
  case (user_root i P f k w cfg)
  then show ?case by (simp add: grace_alloc)
next
  case (user_child i P f k p w cfg g)
  have "tidy (f # k)" using grace_inv_nth user_child by metis
  with user_child show ?case
    by (intro grace_inv_stack grace_alloc) (auto dest: user_not_timer)
next
  case (user_done i P k w)
  with grace_inv_nth [of w P i] show ?case by (intro grace_inv_stack) auto
next
  case (callback_done i P s f k pcs out e w)
  with grace_inv_nth [of w P i] show ?case by (intro grace_inv_stack) auto
next
  case (spawn w P)
  then show ?case by (intro grace_inv_same [OF spawn(2)]) (auto simp: grace_inv_def)
next
  case (timer s w i P)
  have "timer_pending (put_st w s (fire_timer i (st_at w s)), P @ [[FTimer s]]) a"
    if "a < length (sh_heap w)" for a
    using timer that by (cases "a = s") (auto simp: grace_inv_def timer_pending_def)
  with timer show ?case by (auto simp: grace_inv_def)
next
  case (tick w t P)
  then show ?case by (intro grace_inv_same [OF tick(3)]) (auto simp: grace_inv_def)
next
  case (outside_cancel s w e P)
  then show ?case by (intro grace_inv_same [OF outside_cancel(3)]) (auto simp: grace_inv_def cancel_ctx_def)
qed

interpretation grace: invariant_system
  "\<lambda>c. c = init_conf" gstep "\<lambda>c. shutdown_inv c \<and> grace_inv c"
proof unfold_locales
  fix c d :: "'a conf"
  assume i: "shutdown_inv c \<and> grace_inv c" and g: "gstep c d"
  then show "shutdown_inv d \<and> grace_inv d"
    using shutdown.inv_step [OF _ g] grace_step [OF g] by (auto simp: shutdown_inv_def)
next
  fix c :: "'a conf"
  assume "c = init_conf"
  then show "shutdown_inv c \<and> grace_inv c"
    using shutdown.inv_init [of c] by (simp add: grace_inv_def init_conf_def)
qed

section \<open>Deferred functions come before the cancellation\<close>

lemma marks_of_pos: "m \<in># M \<Longrightarrow> fst m = a \<Longrightarrow> 0 < marks_of a M"
  by (cases m) (auto simp: marks_of_def nonempty_has_size [symmetric])

lemma cbs_cancel_mark: "CbCancel (Cleanup a) e \<in> set cbs \<Longrightarrow> (a, e) \<in> set (cbs_marks cbs)"
  by (induction cbs) auto

lemma trace_done_mark: "EvCancel a e \<in> set (sh_trace w) \<Longrightarrow> (a, e) \<in> set (done_marks w)"
  by (force simp: done_marks_def)

lemma cancel_ahead:
  assumes inv: "cancel_inv (w, P)" and a: "a < length (sh_heap w)"
    and k: "k \<in> set P" "FRun a cbs \<in> set k" and c: "has_cancel a cbs"
  shows "EvCancel a e \<notin> set (sh_trace w)"
proof
  assume "EvCancel a e \<in> set (sh_trace w)"
  from trace_done_mark [OF this] have d: "0 < marks_of a (mset (done_marks w))"
    by (intro marks_of_pos [of "(a, e)"]) auto
  obtain x where "CbCancel (Cleanup a) x \<in> set cbs" using c by (auto simp: has_cancel_def)
  from cbs_cancel_mark [OF this] k(2) have "(a, x) \<in> set (stack_marks k)"
    by (force simp: stack_marks_def)
  with k(1) have "0 < marks_of a (mset (concat (map stack_marks P)))"
    by (intro marks_of_pos [of "(a, x)"]) auto
  with d inv a show False by (fastforce simp: cancel_inv_def conf_marks_def)
qed

section \<open>The goroutine of a timer runs to its end\<close>

text \<open>Steps of a goroutine that leave every task count alone and forget no event.\<close>

definition keeps_tasks :: "'cfg shared \<Rightarrow> 'cfg shared \<Rightarrow> bool" where
  "keeps_tasks w w' \<longleftrightarrow> map mu_count (sh_heap w') = map mu_count (sh_heap w) \<and> sh_now w' = sh_now w
     \<and> set (sh_trace w) \<subseteq> set (sh_trace w')"

lemma keeps_tasks_refl [simp]: "keeps_tasks w w"
  by (simp add: keeps_tasks_def)

lemma keeps_tasks_trans: "keeps_tasks u v \<Longrightarrow> keeps_tasks v w \<Longrightarrow> keeps_tasks u w"
  by (auto simp: keeps_tasks_def)

lemma keeps_tasks_put: "mu_count x = mu_count (st_at w s) \<Longrightarrow> keeps_tasks w (put_st w s x)"
  by (cases "s < length (sh_heap w)") (auto simp: keeps_tasks_def map_update intro!: nth_equalityI simp: nth_list_update)

lemma act_frame:
  "i < length P \<Longrightarrow> exec_frame w f k = Some (w', k', []) \<Longrightarrow> gstep (w, P[i := f # k]) (w', P[i := k'])"
  using gstep.act [of i "P[i := f # k]" w w' k' "[]"] by (simp add: micro_def)

lemmas act_then = converse_rtranclp_into_rtranclp [of gstep, OF act_frame]

lemma cancel_runs:
  assumes i: "i < length P"
  shows "\<exists>w'. gstep\<^sup>*\<^sup>* (w, P[i := FCleanup c e # k]) (w', P[i := k]) \<and> keeps_tasks w w' \<and> EvCancel c e \<in> set (sh_trace w')"
proof -
  have last: "\<exists>w'. gstep\<^sup>*\<^sup>* (u, P[i := FCancelCtx c e # k]) (w', P[i := k]) \<and> keeps_tasks u w' \<and> EvCancel c e \<in> set (sh_trace w')"
    for u :: "'a shared"
    by (intro exI conjI act_then [OF i] rtranclp.rtrancl_refl) (auto simp: keeps_tasks_def cancel_ctx_def)
  show ?thesis
  proof (cases "parent_of (st_at w c)")
    case None
    have "gstep (w, P[i := FCleanup c e # k]) (w, P[i := FCancelCtx c e # k])"
      using None by (intro act_frame [OF i]) (simp add: cleanup_frames_def)
    with last [of w] show ?thesis by (meson converse_rtranclp_into_rtranclp)
  next
    case (Some p)
    have 1: "gstep (w, P[i := FCleanup c e # k]) (w, P[i := FUnhook p c # FCancelCtx c e # k])"
      using Some by (intro act_frame [OF i]) (simp add: cleanup_frames_def)
    obtain u where 2: "gstep\<^sup>*\<^sup>* (w, P[i := FUnhook p c # FCancelCtx c e # k]) (u, P[i := FCancelCtx c e # k])"
      and u: "keeps_tasks w u"
    proof (cases "unhook_disarmed (st_at w p)")
      case True
      have "gstep (w, P[i := FUnhook p c # FCancelCtx c e # k]) (w, P[i := FCancelCtx c e # k])"
        using True by (intro act_frame [OF i]) simp
      with that [of w] show ?thesis by (meson r_into_rtranclp keeps_tasks_refl)
    next
      case False
      let ?u = "put_st w p (unhook_locked c (st_at w p))"
      have "gstep (w, P[i := FUnhook p c # FCancelCtx c e # k]) (w, P[i := FUnhookLock p c # FCancelCtx c e # k])"
        using False by (intro act_frame [OF i]) simp
      moreover have "gstep (w, P[i := FUnhookLock p c # FCancelCtx c e # k]) (?u, P[i := FCancelCtx c e # k])"
        by (intro act_frame [OF i]) simp
      moreover have "keeps_tasks w ?u"
        by (rule keeps_tasks_put) (simp add: unhook_locked_def split: option.splits)
      ultimately show ?thesis using that [of ?u] by (meson converse_rtranclp_into_rtranclp r_into_rtranclp)
    qed
    from last [of u] 1 2 u show ?thesis
      by (meson converse_rtranclp_into_rtranclp rtranclp_trans keeps_tasks_trans)
  qed
qed

fun simple_cb :: "callback \<Rightarrow> bool" where
  "simple_cb (CbUser f) \<longleftrightarrow> True"
| "simple_cb (CbCancel c e) \<longleftrightarrow> True"
| "simple_cb _ \<longleftrightarrow> False"

lemma callbacks_run:
  assumes i: "i < length P" and cbs: "\<forall>cb\<in>set cbs. simple_cb cb"
  shows "\<exists>w'. gstep\<^sup>*\<^sup>* (w, P[i := FRun a cbs # k]) (w', P[i := k]) \<and> keeps_tasks w w'
    \<and> (\<forall>c e. CbCancel (Cleanup c) e \<in> set cbs \<longrightarrow> EvCancel c e \<in> set (sh_trace w'))"
  using cbs
proof (induction cbs arbitrary: w)
  case Nil
  have "gstep (w, P[i := FRun a [] # k]) (w, P[i := k])"
    by (intro act_frame [OF i]) (simp add: run_deferred_def)
  then show ?case by (intro exI [of _ w]) auto
next
  case (Cons cb cbs)
  have rest: "\<exists>w'. gstep\<^sup>*\<^sup>* (u, P[i := FRun a cbs # k]) (w', P[i := k]) \<and> keeps_tasks u w'
    \<and> (\<forall>c e. CbCancel (Cleanup c) e \<in> set cbs \<longrightarrow> EvCancel c e \<in> set (sh_trace w'))" for u :: "'a shared"
    using Cons by simp
  show ?case
  proof (cases cb)
    case (CbUser f)
    let ?u = "w\<lparr>sh_trace := sh_trace w @ [EvRan a f]\<rparr>"
    have 1: "gstep (w, P[i := FRun a (cb # cbs) # k]) (?u, P[i := FUserCb a f # FRun a cbs # k])"
      using CbUser by (intro act_frame [OF i]) (simp add: run_deferred_def)
    have 2: "gstep (?u, P[i := FUserCb a f # FRun a cbs # k]) (?u, P[i := FRun a cbs # k])"
      using gstep.callback_done [of i "P[i := FUserCb a f # FRun a cbs # k]" a f "FRun a cbs # k" "[]" "Return None" None ?u] i
      by (simp add: call_e_def safe_call_def)
    have "keeps_tasks w ?u" by (auto simp: keeps_tasks_def)
    with 1 2 rest [of ?u] CbUser show ?thesis
      by (metis (no_types, lifting) callback.distinct(1) converse_rtranclp_into_rtranclp keeps_tasks_trans set_ConsD)
  next
    case (CbCancel q e)
    obtain c where q: "q = Cleanup c" by (cases q)
    have 1: "gstep (w, P[i := FRun a (cb # cbs) # k]) (w, P[i := FCleanup c e # FRun a cbs # k])"
      using CbCancel q by (intro act_frame [OF i]) (simp add: run_deferred_def)
    obtain u where 2: "gstep\<^sup>*\<^sup>* (w, P[i := FCleanup c e # FRun a cbs # k]) (u, P[i := FRun a cbs # k])"
        "keeps_tasks w u" "EvCancel c e \<in> set (sh_trace u)"
      using cancel_runs [OF i] by blast
    obtain v where 3: "gstep\<^sup>*\<^sup>* (u, P[i := FRun a cbs # k]) (v, P[i := k])" "keeps_tasks u v"
        "\<forall>c e. CbCancel (Cleanup c) e \<in> set cbs \<longrightarrow> EvCancel c e \<in> set (sh_trace v)"
      using rest by blast
    have "gstep\<^sup>*\<^sup>* (w, P[i := FRun a (cb # cbs) # k]) (v, P[i := k])"
      using 1 2(1) 3(1) by (meson converse_rtranclp_into_rtranclp rtranclp_trans)
    moreover have "EvCancel c e \<in> set (sh_trace v)" using 2(3) 3(2) by (auto simp: keeps_tasks_def)
    ultimately show ?thesis using 3(3) keeps_tasks_trans [OF 2(2) 3(2)] CbCancel q by auto
  qed (use Cons.prems in simp_all)
qed

lemma timer_runs:
  assumes i: "i < length P" and c: "mu_cancel (st_at w a) = Some (Cleanup a)" and a: "a < length (sh_heap w)"
  shows "\<exists>w'. gstep\<^sup>*\<^sup>* (w, P[i := [FTimer a]]) (w', P[i := []]) \<and> keeps_tasks w w'
    \<and> EvCancel a ErrGracePeriodExpired \<in> set (sh_trace w')"
proof -
  obtain x cbs where l: "hard_stop_locked ErrGracePeriodExpired (st_at w a) = (x, cbs)" by fastforce
  note f = hard_stop_fields [OF l]
  let ?u = "put_st w a x"
  have 1: "gstep (w, P[i := [FTimer a]]) (?u, P[i := [FRun a (rev cbs)]])"
    using l by (intro act_frame [OF i]) (simp add: after_lock_def grace_timer_locked_def)
  have k: "keeps_tasks w ?u" using f(3) by (rule keeps_tasks_put)
  have "\<forall>cb\<in>set (rev cbs). simple_cb cb" using f(11) c by auto
  from callbacks_run [OF i this, of ?u a "[]"] obtain w' where
    "gstep\<^sup>*\<^sup>* (?u, P[i := [FRun a (rev cbs)]]) (w', P[i := []])" "keeps_tasks ?u w'"
    "\<forall>c e. CbCancel (Cleanup c) e \<in> set (rev cbs) \<longrightarrow> EvCancel c e \<in> set (sh_trace w')" by blast
  moreover from this(3) f(11) c have "EvCancel a ErrGracePeriodExpired \<in> set (sh_trace w')" by simp
  ultimately show ?thesis using 1 keeps_tasks_trans [OF k] by (meson converse_rtranclp_into_rtranclp)
qed

end
