(* ===== verification/Shutdown_Claims.thy ===== *)
theory Shutdown_Claims
  imports Machine_Shutdown
begin

text \<open>
  Shutdown of a tree of stopper contexts, end to end: a request to stop, now or when idle, is never
  lost; once the tasks and the deferred functions return, every context below is canceled, in a
  bounded number of steps and whatever the schedule.
\<close>

section \<open>A request to stop stays\<close>

definition stop_requested :: "'cfg shared \<Rightarrow> sid \<Rightarrow> bool" where
  "stop_requested w a \<longleftrightarrow> is_stopping (st_at w a) \<or> is_stop_on_idle (st_at w a)"

lemma crit_step_on_idle:
  assumes "crit_step s fs t cbs" and "wf_core s" and "mu_stopOnIdle s \<noteq> None"
  shows "mu_stopOnIdle t \<noteq> None"
  using assms
proof (induction rule: crit_step.induct)
  case (applied now d s t cbs r)
  from applied(2) show ?case
  proof (cases rule: apply_locked_cases [of _ d now])
    case (idle g u c)
    with soft_stop_fields(7) [OF wf_core_count [OF applied(2) order_refl] idle(4)] applied show ?thesis
      by simp
  next
    case (last u c)
    with hard_stop_fields(6) [OF last(5)] applied show ?thesis by simp
  qed (use applied in \<open>auto split: option.splits\<close>)
next
  case (stop now g s t cbs)
  then show ?case using soft_stop_fields(7) [of s now g t cbs] by (simp add: stop_locked_def)
next
  case (stop_on_idle now g s t cbs)
  then show ?case
    using soft_stop_fields(7) [OF wf_core_idle [OF stop_on_idle(2), of "Some g"], of now g t cbs]
    by (auto simp: stop_on_idle_locked_def Let_def split: if_splits)
next
  case (grace s t cbs)
  then show ?case using hard_stop_fields(6) [of ErrGracePeriodExpired s t cbs]
    by (simp add: grace_timer_locked_def)
qed (auto simp: add_deferred_def add_errors_eq add_stop_hook_locked_def unhook_locked_def Let_def
    split: if_splits option.splits)

lemma gstep_requested:
  assumes "gstep c d" and "conf_inv c" and "a < length (sh_heap (fst c))" and "stop_requested (fst c) a"
  shows "stop_requested (fst d) a"
proof -
  have w: "wf_heap (fst c)" using assms(2) by (cases c) (simp add: conf_inv_def)
  have grows: "stop_grows (st_at (fst c) a) (st_at (fst d) a)" using gstep_grows [OF assms(1-3)] by simp
  have "mu_stopOnIdle (st_at (fst d) a) \<noteq> None" if i: "mu_stopOnIdle (st_at (fst c) a) \<noteq> None"
    using gstep_moved [OF assms(1,2)] unfolding moved_def
  proof (elim disjE exE conjE)
    fix s fs x cbs
    assume "s < length (sh_heap (fst c))" "sh_heap (fst d) = (sh_heap (fst c))[s := x]"
      "crit_step (st_at (fst c) s) fs x cbs"
    moreover from this have "mu_stopOnIdle x \<noteq> None" if "a = s"
      using crit_step_on_idle [of "st_at (fst c) s" fs x cbs] wf_heapD(3) [OF w] i that by blast
    ultimately show ?thesis using i by (cases "a = s") simp_all
  qed (use assms(3) i in \<open>auto simp: nth_append\<close>)
  with grows assms(4) show ?thesis
    by (auto simp: stop_requested_def is_stopping_def is_stop_on_idle_def stop_grows_def)
qed

lemma gsteps_requested:
  assumes "gstep\<^sup>*\<^sup>* c d" and "conf_inv c" and "a < length (sh_heap (fst c))" and "stop_requested (fst c) a"
  shows "a < length (sh_heap (fst d)) \<and> stop_requested (fst d) a"
  using assms(1)
proof (induction rule: rtranclp_induct)
  case (step u v)
  have "conf_inv u" using machine.inv_steps [OF step(1) assms(2)] .
  with gstep_requested [OF step(2)] gstep_grows [OF step(2)] step(3) show ?case by blast
qed (use assms(3,4) in simp)

lemma requested_finished:
  assumes inv: "shutdown_inv (w, P)" and P: "\<forall>k\<in>set P. idle_stack k" and a: "a < length (sh_heap w)"
    and r: "stop_requested w a" and c: "a \<in> set (ancs (parents w) c)"
  shows "finished w c"
proof -
  have "conf_inv (w, P)" using inv by (simp add: shutdown_inv_def)
  then have s: "wf_state (st_at w a)" and n: "mu_count (st_at w a) = sum_list (map (owes (parents w) a) P)"
    using wf_heapD(2) [of w a] a by (auto simp: conf_inv_def)
  have "sum_list (map (owes (parents w) a) P) = 0"
    using P by (induction P) (simp_all add: idle_stack_simps)
  with s n r have st: "is_stopping (st_at w a)"
    by (auto simp: stop_requested_def is_stopping_def is_stop_on_idle_def wf_state_def)
  have "c < length (sh_heap w)" using c mem_ancs [of a "parents w" c] by simp
  with idle_finished [OF inv P] idle_children [OF inv P _ c st] show ?thesis by blast
qed

section \<open>Properties\<close>

text \<open>
  C6: shutdown is complete. When nothing but user code outside tasks is left on the goroutines, a
  context that was asked to stop, at once or when idle, is stopping and so is every context below
  it; each has an empty task count, its cancel function has been called, its \<open>context.Cause\<close> is set,
  and no deferred function is left in it unless its grace period had expired.
\<close>

theorem shutdown_complete:
  assumes "gstep\<^sup>*\<^sup>* init_conf (w, P)" and "\<forall>k\<in>set P. idle_stack k" and "a < length (sh_heap w)"
    and "is_stopping (st_at w a) \<or> is_stop_on_idle (st_at w a)" and "a \<in> set (ancs (parents w) c)"
  shows "is_stopping (st_at w c) \<and> len_of (st_at w c) = 0 \<and> context_cause w c \<noteq> None
    \<and> (\<exists>e. EvCancel c e \<in> set (sh_trace w))
    \<and> (mu_deferred (st_at w c) = [] \<or> EvCancel c ErrGracePeriodExpired \<in> set (sh_trace w))"
  using requested_finished [OF shutdown.inv_reachable [OF refl assms(1)] assms(2,3) _ assms(5)] assms(4)
  by (simp add: finished_def stop_requested_def)

theorem shutdown_complete_witness: "context_cause (fst stopped_conf) 0 \<noteq> None"
proof -
  have "gstep\<^sup>*\<^sup>* init_conf (fst stopped_conf, snd stopped_conf)"
    using rtranclp_trans [OF task_conf_reachable stopped_conf_reachable] by simp
  moreover have "\<forall>k\<in>set (snd stopped_conf). idle_stack k" "0 < length (sh_heap (fst stopped_conf))"
    "is_stopping (st_at (fst stopped_conf) 0)"
    by (simp_all add: stopped_conf_def root_shared_def idle_stack_def is_stopping_def)
  moreover have "0 \<in> set (ancs (parents (fst stopped_conf)) 0)"
    by (simp add: ancs_self stopped_conf_def root_shared_def)
  ultimately show ?thesis using shutdown_complete by blast
qed

text \<open>
  C2: shutdown ends. From any reachable configuration in which a context was asked to stop, let the
  goroutines and the user code finish what they have begun, in any order. The steps are at most
  \<open>conf_cost\<close>, a number read off the configuration; as long as a goroutine has something left, some
  goroutine can go on; when none can, every goroutine has ended and the context and all contexts
  below it are finished as in \<open>shutdown_complete\<close>; and such an end is reachable.
\<close>

theorem stop_completes:
  assumes "gstep\<^sup>*\<^sup>* init_conf (w, P)" and "a < length (sh_heap w)"
    and "is_stopping (st_at w a) \<or> is_stop_on_idle (st_at w a)"
    and "(drain_step ^^ n) (w, P) (w', P')"
  shows "n \<le> conf_cost (w, P)
    \<and> ((\<exists>d. drain_step (w', P') d)
       \<or> (\<forall>k\<in>set P'. k = []) \<and> (\<forall>c. a \<in> set (ancs (parents w') c) \<longrightarrow> finished w' c))
    \<and> (\<exists>d. drain_step\<^sup>*\<^sup>* (w', P') d \<and> (\<forall>k\<in>set (snd d). k = []))"
proof -
  have inv: "shutdown_inv (w, P)" using shutdown.inv_reachable [OF refl assms(1)] .
  then have ci: "conf_inv (w, P)" by (simp add: shutdown_inv_def)
  note run = relpowp_imp_rtranclp [OF assms(4)]
  have inv': "shutdown_inv (w', P')" using shutdown_drains [OF run inv] .
  have r: "a < length (sh_heap w') \<and> stop_requested w' a"
    using gsteps_requested [OF drain_gsteps [OF run] ci] assms(2,3) by (simp add: stop_requested_def)
  have "(\<forall>k\<in>set P'. k = []) \<and> (\<forall>c. a \<in> set (ancs (parents w') c) \<longrightarrow> finished w' c)"
    if no: "\<nexists>d. drain_step (w', P') d"
  proof -
    have e: "\<forall>k\<in>set P'. k = []" using drain_done [OF _ _ no] inv' by (simp add: shutdown_inv_def)
    then have "\<forall>k\<in>set P'. idle_stack k" by (auto simp: idle_stack_def)
    with requested_finished [OF inv'] r e show ?thesis by blast
  qed
  moreover have "\<exists>d. drain_step\<^sup>*\<^sup>* (w', P') d \<and> (\<forall>k\<in>set (snd d). k = [])"
    using inv' by (intro draining.own_ends) (simp add: shutdown_inv_def)
  moreover have "n \<le> conf_cost (w, P)"
    using draining.own_bounded [OF assms(4)] inv by (simp add: shutdown_inv_def)
  ultimately show ?thesis by blast
qed

lemma run_acts_drain: "run_acts is c = Some c' \<Longrightarrow> drain_step\<^sup>*\<^sup>* c c'"
proof (induction "is" c rule: run_acts.induct)
  case (2 i "is" w P)
  then obtain w' k' sp where m: "i < length P" "micro w (P ! i) = Some (w', k', sp)"
    "run_acts is (w', P[i := k'] @ sp) = Some c'"
    by (auto split: if_splits option.splits prod.splits)
  from 2(1) [OF m(1,2) refl refl m(3)] drain_act [OF m(1,2)] show ?case
    by (rule converse_rtranclp_into_rtranclp [rotated])
qed simp

lemma stopping_drains: "drain_step\<^sup>*\<^sup>* stopping_conf (fst stopped_conf, [[]])"
proof -
  let ?k = "[FApply 0 (-1), FIgnore, FUser]"
  have s: "stopping_conf = (fst stopping_conf, [FUser # ?k])" by (simp add: stopping_conf_def)
  have 1: "drain_step (fst stopping_conf, [FUser # ?k]) (fst stopping_conf, [?k])"
    using drain_user [of 0 "[FUser # ?k]" ?k "fst stopping_conf"] by simp
  have 2: "drain_step (deferring_shared, [FUserCb 0 3 # cancelling_stack]) (deferring_shared, [cancelling_stack])"
    using drain_callback [of 0 "[FUserCb 0 3 # cancelling_stack]" 0 3 cancelling_stack "[]" "Return None"
        None deferring_shared]
    by (simp add: call_e_def safe_call_def)
  have 3: "drain_step stopped_conf (fst stopped_conf, [[]])"
    using drain_user [of 0 "[[FUser]]" "[]" "fst stopped_conf"] by (simp add: stopped_conf_def)
  from 1 2 3 run_acts_drain [OF stopping_acts(1)] run_acts_drain [OF stopping_acts(2)]
  have "drain_step\<^sup>*\<^sup>* (fst stopping_conf, [FUser # ?k]) (fst stopped_conf, [[]])"
    by (meson converse_rtranclp_into_rtranclp rtranclp_trans rtranclp.rtrancl_into_rtrancl)
  with s show ?thesis by simp
qed

theorem stop_completes_witness:
  "\<exists>n. (drain_step ^^ n) stopping_conf (fst stopped_conf, [[]]) \<and> n \<le> conf_cost stopping_conf
     \<and> finished (fst stopped_conf) 0"
proof -
  obtain n where n: "(drain_step ^^ n) stopping_conf (fst stopped_conf, [[]])"
    using rtranclp_imp_relpowp [OF stopping_drains] by blast
  have reach: "gstep\<^sup>*\<^sup>* init_conf (fst stopping_conf, snd stopping_conf)"
    using rtranclp_trans [OF task_conf_reachable stopping_conf_reachable] by simp
  have "0 < length (sh_heap (fst stopping_conf))"
    "is_stopping (st_at (fst stopping_conf) 0)"
    by (simp_all add: stopping_conf_def root_shared_def is_stopping_def)
  note all = stop_completes [OF reach this(1) disjI1 [OF this(2)], of n "fst stopped_conf" "[[]]"]
  have no: "\<nexists>d. drain_step (fst stopped_conf, [[]]) d"
    by (auto simp: micro_def elim: drain_step.cases)
  have "0 \<in> set (ancs (parents (fst stopped_conf)) 0)"
    by (simp add: ancs_self stopped_conf_def root_shared_def)
  with all n no show ?thesis by auto
qed

end
