(* ===== verification/Grace_Claims.thy ===== *)
theory Grace_Claims
  imports Machine_Grace Shutdown_Claims
begin

text \<open>
  What a stop promises while tasks are still running: the deferred functions come before the
  context's own cancel function, and the cancellation comes at the end of the grace period even if no task returns.
\<close>

section \<open>The deadline\<close>

lemma waiting_timer:
  assumes "wf_state s" and "mu_stopping s" and "mu_cancel s \<noteq> None"
  obtains i where "mu_graceTimer s = Some i" "i < length (rt_timers s)" "0 < mu_count s"
    "mu_stopAt s = Some (tm_deadline (rt_timers s ! i))"
proof -
  have c: "wf_timers s" "0 < mu_count s" "mu_graceTimer s \<noteq> None"
    using assms by (auto simp: wf_state_def wf_core_def)
  then obtain i where "mu_graceTimer s = Some i" by auto
  with that c show thesis by (auto simp: wf_timers_def)
qed

lemma deadline_run:
  assumes g: "grace_inv (w, P)" and a: "a < length (sh_heap w)" and c: "mu_cancel (st_at w a) = Some (Cleanup a)"
    and i: "mu_graceTimer (st_at w a) = Some i" "i < length (rt_timers (st_at w a))"
    and d: "d = tm_deadline (rt_timers (st_at w a) ! i)"
  shows "\<exists>w' P'. gstep\<^sup>*\<^sup>* (w, P) (w', P') \<and> sh_now w' = max (sh_now w) d
    \<and> map mu_count (sh_heap w') = map mu_count (sh_heap w)
    \<and> EvCancel a ErrGracePeriodExpired \<in> set (sh_trace w')
    \<and> (P' = P @ [[]] \<or> (\<exists>j<length P. P ! j = [FTimer a] \<and> P' = P[j := []]))"
proof -
  let ?t = "w\<lparr>sh_now := max (sh_now w) d\<rparr>"
  have tick: "gstep (w, P) (?t, P)" by (intro gstep.tick) simp
  show ?thesis
  proof (cases "tm_active (rt_timers (st_at w a) ! i)")
    case True
    let ?f = "put_st ?t a (fire_timer i (st_at w a))"
    have fire: "gstep (?t, P) (?f, P @ [[FTimer a]])"
      using gstep.timer [of a ?t i P] a i(2) True d by simp
    have "mu_cancel (st_at ?f a) = Some (Cleanup a)" using a c by simp
    from timer_runs [OF _ this, of "length P" "P @ [[]]"] a obtain w' where
      run: "gstep\<^sup>*\<^sup>* (?f, P @ [[FTimer a]]) (w', P @ [[]])" "keeps_tasks ?f w'"
        "EvCancel a ErrGracePeriodExpired \<in> set (sh_trace w')" by auto
    have "gstep\<^sup>*\<^sup>* (w, P) (w', P @ [[]])"
      using tick fire run(1) by (meson converse_rtranclp_into_rtranclp)
    moreover have "keeps_tasks ?t ?f" by (intro keeps_tasks_put) simp
    from keeps_tasks_trans [OF this run(2)] have "keeps_tasks ?t w'" .
    ultimately show ?thesis using run(3) by (auto simp: keeps_tasks_def)
  next
    case False
    with i(1) c have "\<not> timer_ok (st_at w a)" by (auto simp: timer_ok_def)
    with g a have "[FTimer a] \<in> set P" by (auto simp: grace_inv_def timer_pending_def)
    then obtain j where j: "j < length P" "P ! j = [FTimer a]" by (auto simp: in_set_conv_nth)
    from timer_runs [OF j(1), of ?t a] c a obtain w' where
      run: "gstep\<^sup>*\<^sup>* (?t, P[j := [FTimer a]]) (w', P[j := []])" "keeps_tasks ?t w'"
        "EvCancel a ErrGracePeriodExpired \<in> set (sh_trace w')" by auto
    have "P[j := [FTimer a]] = P" using j(2) by (metis list_update_id)
    with run(1) tick have "gstep\<^sup>*\<^sup>* (w, P) (w', P[j := []])" by (simp add: converse_rtranclp_into_rtranclp)
    with run(2,3) j show ?thesis by (auto simp: keeps_tasks_def)
  qed
qed

section \<open>Properties\<close>

text \<open>
  C7: the grace period is enforced. In every reachable configuration where a context is stopping and
  its cancel function has not been handed out, tasks are still running and a deadline \<open>stopAt\<close> is
  set. From there the program can, with no task returning and no other goroutine moving, let the clock
  reach the deadline, run the grace timer's goroutine to its end and have the context canceled with
  \<open>ErrGracePeriodExpired\<close>: the timer is active with that deadline or has fired already, whatever stops
  with longer or shorter grace periods have been requested before.
\<close>

theorem grace_enforced:
  assumes "gstep\<^sup>*\<^sup>* init_conf (w, P)" and "a < length (sh_heap w)" and "is_stopping (st_at w a)"
    and "mu_cancel (st_at w a) \<noteq> None"
  shows "0 < len_of (st_at w a) \<and> (\<exists>d w' P'. mu_stopAt (st_at w a) = Some d
    \<and> gstep\<^sup>*\<^sup>* (w, P) (w', P') \<and> sh_now w' = max (sh_now w) d
    \<and> map len_of (sh_heap w') = map len_of (sh_heap w)
    \<and> EvCancel a ErrGracePeriodExpired \<in> set (sh_trace w') \<and> context_cause w' a \<noteq> None
    \<and> (P' = P @ [[]] \<or> (\<exists>j<length P. P ! j = [FTimer a] \<and> P' = P[j := []])))"
proof -
  have inv: "shutdown_inv (w, P)" "grace_inv (w, P)" using grace.inv_reachable [OF refl assms(1)] by auto
  then have w: "ok_state (length (sh_heap w)) a (st_at w a)"
    using wf_heapD(1) assms(2) by (auto simp: shutdown_inv_def conf_inv_def)
  then have c: "mu_cancel (st_at w a) = Some (Cleanup a)" using assms(4) by (auto simp: ok_state_def)
  obtain i where i: "mu_graceTimer (st_at w a) = Some i" "i < length (rt_timers (st_at w a))"
    "0 < mu_count (st_at w a)" "mu_stopAt (st_at w a) = Some (tm_deadline (rt_timers (st_at w a) ! i))"
    using waiting_timer [of "st_at w a"] w assms(3,4) by (auto simp: ok_state_def is_stopping_def)
  from deadline_run [OF inv(2) assms(2) c i(1,2) refl] obtain w' P' where
    run: "gstep\<^sup>*\<^sup>* (w, P) (w', P')" "EvCancel a ErrGracePeriodExpired \<in> set (sh_trace w')"
      "sh_now w' = max (sh_now w) (tm_deadline (rt_timers (st_at w a) ! i))"
      "map mu_count (sh_heap w') = map mu_count (sh_heap w)"
      "P' = P @ [[]] \<or> (\<exists>j<length P. P ! j = [FTimer a] \<and> P' = P[j := []])" by blast
  have "(a, ErrGracePeriodExpired) \<in> set (done_marks w')" using trace_done_mark [OF run(2)] .
  then have "context_cause w' a \<noteq> None"
    using shutdown.inv_steps [OF run(1) inv(1)] by (force simp: shutdown_inv_def cause_inv_def cancelled_at_def)
  with run i(3,4) show ?thesis by (auto simp: len_of_def [abs_def])
qed

theorem grace_enforced_witness:
  "\<exists>w' P'. gstep\<^sup>*\<^sup>* stopping_conf (w', P') \<and> sh_now w' = 5 \<and> map len_of (sh_heap w') = [1]
     \<and> EvCancel 0 ErrGracePeriodExpired \<in> set (sh_trace w')"
proof -
  have "gstep\<^sup>*\<^sup>* init_conf (fst stopping_conf, snd stopping_conf)"
    using rtranclp_trans [OF task_conf_reachable stopping_conf_reachable] by simp
  note run = grace_enforced [OF this]
  have f: "0 < length (sh_heap (fst stopping_conf))" "is_stopping (st_at (fst stopping_conf) 0)"
    "mu_cancel (st_at (fst stopping_conf) 0) \<noteq> None" "mu_stopAt (st_at (fst stopping_conf) 0) = Some 5"
    "sh_now (fst stopping_conf) = 0" "map len_of (sh_heap (fst stopping_conf)) = [1]"
    by (simp_all add: stopping_conf_def root_shared_def alloc_state_def init_conf_def is_stopping_def
        sample_state_def len_of_def)
  from run [OF f(1-3)] obtain d w' P' where x: "mu_stopAt (st_at (fst stopping_conf) 0) = Some d"
    "gstep\<^sup>*\<^sup>* (fst stopping_conf, snd stopping_conf) (w', P')" "sh_now w' = max (sh_now (fst stopping_conf)) d"
    "map len_of (sh_heap w') = map len_of (sh_heap (fst stopping_conf))"
    "EvCancel 0 ErrGracePeriodExpired \<in> set (sh_trace w')" by (elim conjE exE)
  have "sh_now w' = 5" "map len_of (sh_heap w') = [1]" using x(1,3,4) f(4-6) by simp_all
  with x(2,5) show ?thesis unfolding prod.collapse by (intro exI conjI)
qed

section \<open>The order of deferred functions and cancel function\<close>

lemma before_own_cancel:
  assumes "gstep\<^sup>*\<^sup>* init_conf (w, P)" and "i < length P"
    and "P ! i = fs @ FUserCb a f # FRun b cbs # k"
  shows "b = a \<and> (\<exists>e. CbCancel (Cleanup a) e \<in> set cbs) \<and> (\<forall>e. EvCancel a e \<notin> set (sh_trace w))"
proof -
  have inv: "conf_inv (w, P)" "cancel_inv (w, P)" "grace_inv (w, P)"
    using grace.inv_reachable [OF refl assms(1)] by (auto simp: shutdown_inv_def)
  have "tidy (fs @ FUserCb a f # FRun b cbs # k)" using grace_inv_nth [OF inv(3) assms(2)] assms(3) by simp
  from tidy_tail [OF this] have t: "b = a" "has_cancel a cbs" by auto
  have "wf_stack (parents w) (fs @ FUserCb a f # FRun b cbs # k)"
    using conf_inv_goroutine [OF inv(1) assms(2)] assms(3) by (simp add: goroutine_ok_def)
  then have "a < length (sh_heap w)" by (induction fs) auto
  with cancel_ahead [OF inv(2) _ nth_mem [OF assms(2)], of a cbs] assms(3) t show ?thesis
    by (auto simp: has_cancel_def)
qed

text \<open>
  C8: a stop runs the deferred functions of a context before it calls that context's own cancel function. While a
  goroutine is inside a deferred function \<open>f\<close> that a stop of \<open>a\<close> runs, however deep in calls of its own, the
  cancel function of \<open>a\<close> has not been called on any goroutine, and the callback that will call it is still
  waiting below on the same stack. This is what the code does of the promise "The Context passed to the callback will
  be stopped but not yet canceled" (stopper.go): it says nothing of the context of an ancestor, whose
  cancellation reaches \<open>a\<close> too and may come first (Cascade\_Claims), nor of a cancellation from outside.
\<close>

theorem deferred_before_cancel:
  assumes "gstep\<^sup>*\<^sup>* init_conf (w, P)" and "i < length P"
    and "P ! i = fs @ FUserCb a f # FRun b cbs # k"
  shows "b = a \<and> (\<exists>e. CbCancel (Cleanup a) e \<in> set cbs) \<and> (\<forall>e. EvCancel a e \<notin> set (sh_trace w))"
  using before_own_cancel [OF assms] .
lemma deferring_reachable: "gstep\<^sup>*\<^sup>* init_conf (deferring_shared, [FUserCb 0 3 # cancelling_stack])"
proof -
  let ?k = "[FApply 0 (-1), FIgnore, FUser]"
  have s: "stopping_conf = (fst stopping_conf, [FUser # ?k])" by (simp add: stopping_conf_def)
  have "gstep (fst stopping_conf, [FUser # ?k]) (fst stopping_conf, [?k])"
    using gstep.user_done [of 0 "[FUser # ?k]" ?k "fst stopping_conf"] by simp
  from converse_rtranclp_into_rtranclp [of gstep, OF this run_acts_gsteps [OF stopping_acts(1)]]
  have "gstep\<^sup>*\<^sup>* stopping_conf (deferring_shared, [FUserCb 0 3 # cancelling_stack])" by (simp only: s [symmetric])
  from rtranclp_trans [OF rtranclp_trans [OF task_conf_reachable stopping_conf_reachable] this] show ?thesis .
qed

theorem deferred_before_cancel_witness: "EvCancel 0 ErrStopped \<notin> set (sh_trace deferring_shared)"
proof -
  have "[FUserCb 0 3 # cancelling_stack] ! 0 = [] @ FUserCb 0 3 # cancelling_stack" by simp
  from deferred_before_cancel [OF deferring_reachable _ this] show ?thesis by simp
qed

end
