(* ===== verification/Machine_Admit.thy ===== *)
theory Machine_Admit
  imports Machine_Claims
begin

text \<open>
  Admission and release of a task, against their abstract specification: \<open>Apply(s, 1)\<close> admits a unit at a
  state and all its ancestors, or at none of them, and it admits exactly when none of them is
  stopping; \<open>Apply(s, -1)\<close> takes it back from all of them. The code climbs to the root before it takes a
  lock and comes back one critical section at a time; run without interference it is the one
  abstract step.
\<close>

section \<open>The abstract steps\<close>

definition admissible :: "'cfg shared \<Rightarrow> sid \<Rightarrow> bool" where
  "admissible w s \<longleftrightarrow> (\<forall>a\<in>set (ancs (parents w) s). \<not> is_stopping (st_at w a))"

abbreviation add_count :: "int \<Rightarrow> 'cfg gostate \<Rightarrow> 'cfg gostate" where
  "add_count d s \<equiv> s\<lparr>mu_count := mu_count s + d\<rparr>"

definition bump :: "sid set \<Rightarrow> int \<Rightarrow> 'cfg shared \<Rightarrow> 'cfg shared" where
  "bump A d w = w\<lparr>sh_heap := map (\<lambda>i. if i \<in> A then add_count d (st_at w i) else st_at w i)
       [0..<length (sh_heap w)]\<rparr>"

definition admit_step :: "sid \<Rightarrow> 'cfg shared \<Rightarrow> 'cfg shared \<times> bool" where
  "admit_step s w = (if admissible w s then (bump (set (ancs (parents w) s)) 1 w, True) else (w, False))"

definition release_step :: "sid \<Rightarrow> 'cfg shared \<Rightarrow> 'cfg shared" where
  "release_step s w = bump (set (ancs (parents w) s)) (- 1) w"

lemma bump_length [simp]: "length (sh_heap (bump A d w)) = length (sh_heap w)"
  by (simp add: bump_def)

lemma bump_nth [simp]:
  "i < length (sh_heap w) \<Longrightarrow> st_at (bump A d w) i = (if i \<in> A then add_count d (st_at w i) else st_at w i)"
  by (simp add: bump_def)

lemma bump_now [simp]: "sh_now (bump A d w) = sh_now w"
  by (simp add: bump_def)

lemma bump_parents [simp]: "parents (bump A d w) = parents w"
  by (intro nth_equalityI) auto

lemma bump_empty [simp]: "bump {} d w = w"
  by (cases w) (simp add: bump_def map_nth)

lemma bump_insert:
  assumes "s < length (sh_heap w)" and "s \<notin> A"
  shows "put_st (bump A d w) s (add_count d (st_at w s)) = bump (insert s A) d w"
proof -
  have "sh_heap (put_st (bump A d w) s (add_count d (st_at w s))) = sh_heap (bump (insert s A) d w)"
    using assms by (intro nth_equalityI) (auto simp: nth_list_update)
  then show ?thesis by (simp add: put_st_def bump_def)
qed

lemma bump_undo [simp]: "bump A (- d) (bump A d w) = w"
proof -
  have "sh_heap (bump A (- d) (bump A d w)) = sh_heap w"
    by (intro nth_equalityI) auto
  then show ?thesis by (cases w) (simp add: bump_def)
qed

section \<open>Runs of one goroutine\<close>

inductive solo :: "nat \<Rightarrow> 'cfg conf \<Rightarrow> 'cfg conf \<Rightarrow> bool" for i where
  solo_refl: "solo i c c"
| solo_act: "i < length P \<Longrightarrow> micro w (P ! i) = Some (w', k', []) \<Longrightarrow> solo i (w', P[i := k']) c \<Longrightarrow>
     solo i (w, P) c"

lemma solo_gsteps: "solo i c d \<Longrightarrow> gstep\<^sup>*\<^sup>* c d"
proof (induction rule: solo.induct)
  case (solo_act P w w' k' c)
  with gstep.act [OF solo_act(1,2)] show ?case by simp
qed simp

lemma solo_frame:
  "i < length P \<Longrightarrow> exec_frame w f k = Some (w', k', []) \<Longrightarrow> solo i (w', P[i := k']) c \<Longrightarrow>
     solo i (w, P[i := f # k]) c"
  using solo_act [of i "P[i := f # k]" w w' k' c] by (simp add: micro_def)

lemma solo_trans: "solo i c d \<Longrightarrow> solo i d e \<Longrightarrow> solo i c e"
  by (induction rule: solo.induct) (auto intro: solo_act)

text \<open>The own critical section of \<open>Apply\<close>, when it only counts.\<close>

lemma lock_solo:
  assumes i: "i < length P" and s: "s < length (sh_heap w)" and A: "s \<notin> A"
    and a: "apply_locked (sh_now w) d (st_at w s) = Inr (add_count d (st_at w s), [], True)"
  shows "solo i (bump A d w, P[i := FRet True # FApplyLock s d # k]) (bump (insert s A) d w, P[i := FRet True # k])"
proof (rule solo_frame [OF i _ solo_frame [OF i]])
  show "exec_frame (bump A d w) (FRet True) (FApplyLock s d # k)
      = Some (bump (insert s A) d w, FRun s [] # FRet True # k, [])"
    using a A s bump_insert [OF s A, of d] by (simp add: apply_resume_def)
  show "exec_frame (bump (insert s A) d w) (FRun s []) (FRet True # k) = Some (bump (insert s A) d w, FRet True # k, [])"
    by (simp add: run_deferred_def)
qed (rule solo_refl)

text \<open>The parent and the ancestors of a state in the heap.\<close>

lemma heap_ancs:
  assumes "wf_heap w" and "s < length (sh_heap w)"
  shows "case st_parent (st_at w s) of
      None \<Rightarrow> ancs (parents w) s = [s]
    | Some p \<Rightarrow> p < s \<and> ancs (parents w) s = s # ancs (parents w) p \<and> s \<notin> set (ancs (parents w) p)"
proof (cases "st_parent (st_at w s)")
  case None
  with assms(2) show ?thesis by (simp add: ancs_root)
next
  case (Some p)
  then have "p < s" using assms wf_parentsD [of "parents w" s p] by (simp add: wf_heap_def)
  with Some assms(2) ancs_le [of s "parents w" p] show ?thesis by (auto simp: ancs_child)
qed

lemma admit_solo:
  assumes w: "wf_heap w" and i: "i < length P" and s: "s < length (sh_heap w)"
  shows "solo i (w, P[i := FApply s 1 # k])
    (case admit_step s w of (w', b) \<Rightarrow> (w', P[i := FRet b # k]))"
  using s
proof (induction s arbitrary: k rule: less_induct)
  case (less s)
  have core: "wf_core (st_at w s)" using wf_heapD(3) [OF w less.prems] .
  show ?case
  proof (cases "is_stopping (st_at w s)")
    case True
    then have "\<not> admissible w s" using less.prems ancs_self [of s "parents w"] by (auto simp: admissible_def)
    with True show ?thesis
      by (intro solo_frame [OF i]) (auto simp: admit_step_def apply_enter_def intro: solo_refl)
  next
    case False
    have "apply_locked (sh_now w) 1 (st_at w s) = Inr (add_count 1 (st_at w s), [], True)"
      using False core by (auto simp: apply_locked_def is_stopping_def wf_core_def)
    note lock = lock_solo [OF i less.prems _ this, of _ k]
    show ?thesis
    proof (cases "st_parent (st_at w s)")
      case None
      then have an: "ancs (parents w) s = [s]" using heap_ancs [OF w less.prems] by simp
      with lock [of "{}"] False None show ?thesis
        by (intro solo_frame [OF i]) (auto simp: admit_step_def admissible_def apply_enter_def parent_of_def)
    next
      case (Some p)
      then have p: "p < s" and an: "ancs (parents w) s = s # ancs (parents w) p"
        and "s \<notin> set (ancs (parents w) p)" using heap_ancs [OF w less.prems] by simp_all
      note lk = lock [OF this(3)]
      note up = less.IH [OF p, of "FApplyLock s 1 # k"]
      have enter: "exec_frame w (FApply s 1) k = Some (w, FApply p 1 # FApplyLock s 1 # k, [])"
        using False Some by (simp add: apply_enter_def parent_of_def)
      show ?thesis
      proof (cases "admissible w p")
        case True
        with False an have "admissible w s" by (simp add: admissible_def)
        with True up lk p less.prems an show ?thesis
          by (intro solo_frame [OF i enter]) (auto simp: admit_step_def intro: solo_trans)
      next
        case no: False
        with an have ns: "\<not> admissible w s" by (simp add: admissible_def)
        have ret: "solo i (w, P[i := FRet False # FApplyLock s 1 # k]) (w, P[i := FRet False # k])"
          by (intro solo_frame [OF i]) (auto simp: apply_resume_def intro: solo_refl)
        from no ns up ret p less.prems show ?thesis
          by (intro solo_frame [OF i enter]) (auto simp: admit_step_def intro: solo_trans)
      qed
    qed
  qed
qed

text \<open>A release that leaves no context idle which was asked to stop.\<close>

definition not_last :: "'cfg shared \<Rightarrow> sid \<Rightarrow> bool" where
  "not_last w s \<longleftrightarrow> (\<forall>a\<in>set (ancs (parents w) s). 1 \<le> len_of (st_at w a)
     \<and> (len_of (st_at w a) = 1 \<longrightarrow> \<not> is_stopping (st_at w a) \<and> \<not> is_stop_on_idle (st_at w a)))"

lemma release_solo:
  assumes w: "wf_heap w" and i: "i < length P" and s: "s < length (sh_heap w)" and n: "not_last w s"
  shows "solo i (w, P[i := FApply s (- 1) # k]) (release_step s w, P[i := FRet True # k])"
  using s n
proof (induction s arbitrary: k rule: less_induct)
  case (less s)
  have "s \<in> set (ancs (parents w) s)" using less.prems(1) by (simp add: ancs_self)
  then have "1 \<le> len_of (st_at w s) \<and> (len_of (st_at w s) = 1 \<longrightarrow> \<not> is_stopping (st_at w s) \<and> \<not> is_stop_on_idle (st_at w s))"
    using less.prems(2) unfolding not_last_def by blast
  then have "apply_locked (sh_now w) (- 1) (st_at w s) = Inr (add_count (- 1) (st_at w s), [], True)"
    by (auto simp: apply_locked_def is_stopping_def is_stop_on_idle_def len_of_def Let_def)
  note lock = lock_solo [OF i less.prems(1) _ this, of _ k]
  show ?case
  proof (cases "st_parent (st_at w s)")
    case None
    then have "ancs (parents w) s = [s]" using heap_ancs [OF w less.prems(1)] by simp
    with lock [of "{}"] None show ?thesis
      by (intro solo_frame [OF i]) (auto simp: release_step_def apply_enter_def parent_of_def)
  next
    case (Some p)
    then have p: "p < s" and an: "ancs (parents w) s = s # ancs (parents w) p"
      and "s \<notin> set (ancs (parents w) p)" using heap_ancs [OF w less.prems(1)] by simp_all
    note lk = lock [OF this(3)]
    have "not_last w p" using less.prems(2) an by (simp add: not_last_def)
    then have "solo i (w, P[i := FApply p (- 1) # FApplyLock s (- 1) # k]) (release_step s w, P[i := FRet True # k])"
      using solo_trans [OF less.IH [OF p, of "FApplyLock s (- 1) # k", unfolded release_step_def] lk]
        p less.prems(1) an by (simp add: release_step_def)
    then show ?thesis
      by (rule solo_frame [OF i, rotated]) (simp add: apply_enter_def parent_of_def Some)
  qed
qed

section \<open>Properties\<close>

text \<open>
  C10: admission refines one abstract step. In every reachable configuration, a goroutine about to
  execute \<open>Apply(s, 1)\<close>, run on its own, comes back with the result of \<open>admit_step\<close>: \<open>true\<close>, and one
  unit more in \<open>s\<close> and each of its ancestors and nothing else changed, if none of them is stopping;
  otherwise \<open>false\<close>, and nothing at all has changed.
\<close>

theorem admission_refines:
  assumes "gstep\<^sup>*\<^sup>* init_conf (w, P)" and "i < length P" and "P ! i = FApply s 1 # k"
  shows "solo i (w, P) (case admit_step s w of (w', b) \<Rightarrow> (w', P[i := FRet b # k]))"
proof -
  have inv: "conf_inv (w, P)" using machine.inv_reachable [OF refl assms(1)] .
  then have "wf_heap w" "s < length (sh_heap w)"
    using conf_inv_goroutine [OF inv assms(2)] assms(3) by (simp_all add: conf_inv_def goroutine_ok_def)
  from admit_solo [OF this(1) assms(2) this(2), of k] show ?thesis
    using assms(3) by (metis list_update_id)
qed

theorem admission_refines_witness:
  "\<exists>w'. gstep\<^sup>*\<^sup>* init_conf (w' :: nat shared, [[FRet True, FTask 0, FUser]]) \<and> map len_of (sh_heap w') = [1]"
proof -
  have one: "length (sh_heap root_shared) = 1" and new: "st_at root_shared 0 = new_state (Cleanup 0) 7 None"
    by (simp_all add: root_shared_def alloc_state_def init_conf_def)
  have an: "ancs (parents root_shared) 0 = [0]" using one new by (simp add: ancs_root)
  then have ad: "admit_step 0 root_shared = (bump {0} 1 root_shared, True)"
    using new by (simp add: admit_step_def admissible_def is_stopping_def)
  have nth: "[[FApply 0 1, FTask 0, FUser]] ! 0 = FApply 0 1 # [FTask 0, FUser]" by simp
  from admission_refines [OF calling_reachable _ nth] ad
  have "solo 0 (root_shared, [[FApply 0 1, FTask 0, FUser]]) (bump {0} 1 root_shared, [[FRet True, FTask 0, FUser]])"
    by simp
  from rtranclp_trans [OF calling_reachable solo_gsteps [OF this]] one new show ?thesis
    by (intro exI [of _ "bump {0} 1 root_shared"]) (simp add: bump_def len_of_def)
qed

text \<open>
  C11: a task leaves no trace. In every reachable configuration in which \<open>Call\<close> is about to take its unit on
  a context with no stopping ancestor, it takes one unit of the context and of each ancestor, and
  when the task returns without having called anything, giving the unit back restores the shared state
  exactly, whatever the states are (a context that is to stop when idle included).
\<close>

theorem task_leaves_no_trace:
  assumes "gstep\<^sup>*\<^sup>* init_conf (w, P)" and "i < length P" and "P ! i = FApply s 1 # FTask s # k"
    and "admissible w s"
  shows "\<exists>w1. solo i (w, P) (w1, P[i := FUser # FApply s (- 1) # FIgnore # k])
    \<and> (\<forall>a<length (sh_heap w). len_of (st_at w1 a) = len_of (st_at w a) + (if a \<in> set (ancs (parents w) s) then 1 else 0))
    \<and> solo i (w1, P[i := FApply s (- 1) # FIgnore # k]) (w, P[i := k])"
proof -
  have inv: "conf_inv (w, P)" using machine.inv_reachable [OF refl assms(1)] .
  then have w: "wf_heap w" and s: "s < length (sh_heap w)"
    using conf_inv_goroutine [OF inv assms(2)] assms(3) by (simp_all add: conf_inv_def goroutine_ok_def)
  let ?A = "set (ancs (parents w) s)"
  let ?w1 = "bump ?A 1 w"
  have P: "P[i := FApply s 1 # FTask s # k] = P" using assms(3) by (metis list_update_id)
  have enter: "solo i (w, P) (?w1, P[i := FUser # FApply s (- 1) # FIgnore # k])"
  proof (rule solo_trans)
    show "solo i (w, P) (?w1, P[i := FRet True # FTask s # k])"
      using admit_solo [OF w assms(2) s, of "FTask s # k"] assms(4) P by (simp add: admit_step_def)
    show "solo i (?w1, P[i := FRet True # FTask s # k]) (?w1, P[i := FUser # FApply s (- 1) # FIgnore # k])"
      by (rule solo_frame [OF assms(2) _ solo_refl]) simp
  qed
  have w1: "wf_heap ?w1"
    using machine.inv_steps [OF solo_gsteps [OF enter] inv] by (simp add: conf_inv_def)
  have "1 \<le> len_of (st_at ?w1 a) \<and> (len_of (st_at ?w1 a) = 1 \<longrightarrow> \<not> is_stopping (st_at ?w1 a) \<and> \<not> is_stop_on_idle (st_at ?w1 a))"
    if a: "a \<in> ?A" for a
  proof -
    have "a < length (sh_heap w)" using a mem_ancs [of a "parents w" s] ancs_le [OF a] by simp
    with wf_heapD(2,3) [OF w this] assms(4) a show ?thesis
      by (auto simp: wf_state_def wf_core_def len_of_def is_stopping_def is_stop_on_idle_def admissible_def)
  qed
  then have "not_last ?w1 s" by (simp add: not_last_def)
  with release_solo [OF w1 assms(2), of s "FIgnore # k"] s
  have "solo i (?w1, P[i := FApply s (- 1) # FIgnore # k]) (w, P[i := FRet True # FIgnore # k])"
    by (simp add: release_step_def)
  moreover have "solo i (w, P[i := FRet True # FIgnore # k]) (w, P[i := k])"
    by (rule solo_frame [OF assms(2) _ solo_refl]) simp
  ultimately have "solo i (?w1, P[i := FApply s (- 1) # FIgnore # k]) (w, P[i := k])" by (rule solo_trans)
  with enter show ?thesis by (intro exI [of _ ?w1]) (auto simp: len_of_def)
qed

theorem task_leaves_no_trace_witness:
  "\<exists>w1. len_of (st_at w1 0) = 1
     \<and> solo 0 (w1, [[FApply 0 (- 1), FIgnore, FUser]]) (root_shared, [[FUser]])"
proof -
  have one: "length (sh_heap root_shared) = 1" and new: "st_at root_shared 0 = new_state (Cleanup 0) 7 None"
    by (simp_all add: root_shared_def alloc_state_def init_conf_def)
  have an: "ancs (parents root_shared) 0 = [0]" using one new by (simp add: ancs_root)
  then have ad: "admissible root_shared 0" using new by (simp add: admissible_def is_stopping_def)
  have "len_of (st_at root_shared 0) = 0" using new by (simp add: len_of_def)
  have "0 < length [[FApply 0 1, FTask 0, FUser]]" "[[FApply 0 1, FTask 0, FUser]] ! 0 = FApply 0 1 # FTask 0 # [FUser]"
    by simp_all
  from task_leaves_no_trace [OF calling_reachable this ad] obtain w1 where
    c: "\<forall>a<length (sh_heap root_shared). len_of (st_at w1 a)
       = len_of (st_at root_shared a) + (if a \<in> set (ancs (parents root_shared) 0) then 1 else 0)"
    and r: "solo 0 (w1, [[FApply 0 1, FTask 0, FUser]][0 := FApply 0 (- 1) # FIgnore # [FUser]])
       (root_shared, [[FApply 0 1, FTask 0, FUser]][0 := [FUser]])" by blast
  have "len_of (st_at w1 0) = 1"
    using c [rule_format, of 0] one \<open>len_of (st_at root_shared 0) = 0\<close> unfolding an by simp
  with r show ?thesis unfolding list_update.simps nat.case by blast
qed

end
