(* ===== verification/Cascade_Claims.thy ===== *)
theory Cascade_Claims
  imports Grace_Claims Machine_Admit
begin

text \<open>
  Deferred functions of a child context when its parent is stopping too. \<open>Apply(-1)\<close> gives the parent's unit
  back before it takes the child's lock, so the parent's hard stop, with its cancel function, comes first:
  the child's context is canceled through its parent before the child's deferred functions run.
\<close>

text \<open>The last unit of a stopping state: the deferred functions and the cancel function are handed out.\<close>

lemma last_unit:
  assumes "mu_stopping x" and "mu_count x = 1" and "mu_stopOnIdle x = None" and "mu_cancel x = Some c"
  shows "\<exists>x'. apply_locked now (- 1) x = Inr (x', CbCancel c ErrStopped # map CbUser (mu_deferred x), True)
    \<and> st_parent x' = st_parent x"
  using assms by (auto simp: apply_locked_def hard_stop_locked_def Let_def split: option.splits)

lemma cause_below:
  assumes "wf_heap w" and "s < length (sh_heap w)" and "st_parent (st_at w s) = Some p"
    and "context_cause w p \<noteq> None"
  shows "context_cause w s \<noteq> None"
proof -
  have "length (sh_cause w) = length (sh_heap w)" "p < s"
    using assms(1-3) wf_parentsD [of "parents w" s p] by (auto simp: wf_heap_def)
  with assms show ?thesis
    unfolding context_cause_def by (subst eff_cause.simps) (auto split: option.splits)
qed

text \<open>The release at the child, up to the end of the release at its parent, a root.\<close>

lemma parent_released:
  assumes i: "i < length P" and p: "p < length (sh_heap w)" "st_parent (st_at w p) = None"
    and a: "apply_locked (sh_now w) (- 1) (st_at w p) = Inr (x, [CbCancel (Cleanup p) ErrStopped], True)"
    and x: "st_parent x = None"
  shows "solo i (w, P[i := FApply p (- 1) # k])
    ((cancel_ctx p ErrStopped (put_st w p x))\<lparr>sh_trace := sh_trace w @ [EvCancel p ErrStopped]\<rparr>, P[i := FRet True # k])"
proof -
  let ?w = "put_st w p x"
  let ?w' = "(cancel_ctx p ErrStopped ?w)\<lparr>sh_trace := sh_trace ?w @ [EvCancel p ErrStopped]\<rparr>"
  have e: "exec_frame w (FApply p (- 1)) k = Some (w, FRet True # FApplyLock p (- 1) # k, [])"
    using p by (simp add: apply_enter_def parent_of_def)
  have l: "exec_frame w (FRet True) (FApplyLock p (- 1) # k)
      = Some (?w, FRun p [CbCancel (Cleanup p) ErrStopped] # FRet True # k, [])"
    using a by (simp add: apply_resume_def)
  have r: "exec_frame ?w (FRun p [CbCancel (Cleanup p) ErrStopped]) (FRet True # k)
      = Some (?w, FCleanup p ErrStopped # FRun p [] # FRet True # k, [])"
    by (simp add: run_deferred_def)
  have c: "exec_frame ?w (FCleanup p ErrStopped) (FRun p [] # FRet True # k)
      = Some (?w, FCancelCtx p ErrStopped # FRun p [] # FRet True # k, [])"
    using p(1) x by (simp add: cleanup_frames_def parent_of_def put_st_def)
  have f: "exec_frame ?w (FCancelCtx p ErrStopped) (FRun p [] # FRet True # k) = Some (?w', FRun p [] # FRet True # k, [])"
    by simp
  have n: "exec_frame ?w' (FRun p []) (FRet True # k) = Some (?w', FRet True # k, [])"
    by (simp add: run_deferred_def)
  have "solo i (w, P[i := FApply p (- 1) # k]) (?w', P[i := FRet True # k])"
    by (intro solo_frame [OF i e] solo_frame [OF i l] solo_frame [OF i r] solo_frame [OF i c]
        solo_frame [OF i f] solo_frame [OF i n] solo_refl)
  then show ?thesis by (simp add: put_st_def)
qed

section \<open>Property\<close>

text \<open>
  C26: a context is canceled before its deferred functions run when its last task is also the last task of a
  stopping parent, contrary to the comment of \<open>Defer\<close> ("The Context passed to the callback will be stopped
  but not yet canceled"). In a reachable configuration a goroutine is about to give back the last unit of a
  stopping child \<open>s\<close> and of its stopping parent, a root; neither has been asked to stop when idle, and the
  parent has no deferred functions of its own. Left alone, that goroutine calls the parent's
  cancel function and then enters the deferred function of \<open>s\<close> that was registered last, when the context of \<open>s\<close> is
  already canceled, although its own cancel function is still to be called.
\<close>

theorem parent_cancels_first:
  assumes "gstep\<^sup>*\<^sup>* init_conf (w, P)" and "i < length P" and "P ! i = FApply s (- 1) # k"
    and "s < length (sh_heap w)" and "st_parent (st_at w s) = Some p" and "st_parent (st_at w p) = None"
    and "\<And>a. a \<in> {s, p} \<Longrightarrow> is_stopping (st_at w a) \<and> len_of (st_at w a) = 1
      \<and> \<not> is_stop_on_idle (st_at w a) \<and> mu_cancel (st_at w a) \<noteq> None"
    and "mu_deferred (st_at w p) = []" and "mu_deferred (st_at w s) = fs @ [f]"
  shows "\<exists>w'. gstep\<^sup>*\<^sup>* (w, P) (w', P[i := FUserCb s f
        # FRun s (map CbUser (rev fs) @ [CbCancel (Cleanup s) ErrStopped]) # FRet True # k])
    \<and> sh_trace w' = sh_trace w @ [EvCancel p ErrStopped, EvRan s f]
    \<and> (\<forall>e. EvCancel s e \<notin> set (sh_trace w')) \<and> context_cause w' s \<noteq> None"
proof -
  have wf: "wf_heap w" using grace.inv_reachable [OF refl assms(1)] by (simp add: shutdown_inv_def conf_inv_def)
  have ps: "p < s" using wf assms(4,5) wf_parentsD [of "parents w" s p] by (auto simp: wf_heap_def)
  then have p: "p < length (sh_heap w)" using assms(4) by simp
  have c: "mu_cancel (st_at w a) = Some (Cleanup a)" if "a \<in> {s, p}" for a
    using wf_heapD(1) [OF wf, where s = a] assms(4) assms(7) [of a] p that by (auto simp: ok_state_def)
  have last: "\<exists>x'. apply_locked now (- 1) (st_at w a)
        = Inr (x', CbCancel (Cleanup a) ErrStopped # map CbUser (mu_deferred (st_at w a)), True)
      \<and> st_parent x' = st_parent (st_at w a)" if "a \<in> {s, p}" for a now
    using last_unit [of "st_at w a" "Cleanup a"] assms(7) [OF that] c [OF that]
    by (simp add: is_stopping_def len_of_def is_stop_on_idle_def)
  from last [of p "sh_now w"] obtain x where x:
    "apply_locked (sh_now w) (- 1) (st_at w p) = Inr (x, [CbCancel (Cleanup p) ErrStopped], True)"
    "st_parent x = None" using assms(6,8) by auto
  from last [of s "sh_now w"] obtain y where y:
    "apply_locked (sh_now w) (- 1) (st_at w s)
       = Inr (y, CbCancel (Cleanup s) ErrStopped # map CbUser (fs @ [f]), True)"
    "st_parent y = Some p" using assms(5,9) by auto
  let ?wp = "(cancel_ctx p ErrStopped (put_st w p x))\<lparr>sh_trace := sh_trace w @ [EvCancel p ErrStopped]\<rparr>"
  let ?ws = "put_st ?wp s y" and ?r = "map CbUser (rev fs) @ [CbCancel (Cleanup s) ErrStopped]"
  let ?w' = "?ws\<lparr>sh_trace := sh_trace ?ws @ [EvRan s f]\<rparr>"
  have at: "st_at ?wp s = st_at w s" "sh_now (cancel_ctx p ErrStopped (put_st w p x)) = sh_now w"
    using ps by (simp_all add: put_st_def cancel_ctx_def)
  have e: "exec_frame w (FApply s (- 1)) k = Some (w, FApply p (- 1) # FApplyLock s (- 1) # k, [])"
    using assms(5) by (simp add: apply_enter_def parent_of_def)
  have l: "exec_frame ?wp (FRet True) (FApplyLock s (- 1) # k)
      = Some (?ws, FRun s (CbUser f # ?r) # FRet True # k, [])"
    using y(1) ps by (simp add: apply_resume_def nth_list_update rev_map at(2))
  have d: "exec_frame ?ws (FRun s (CbUser f # ?r)) (FRet True # k)
      = Some (?w', FUserCb s f # FRun s ?r # FRet True # k, [])"
    by (simp add: run_deferred_def)
  note tail = solo_frame [OF assms(2) l solo_frame [OF assms(2) d solo_refl]]
  have "solo i (w, P[i := FApply s (- 1) # k]) (?w', P[i := FUserCb s f # FRun s ?r # FRet True # k])"
    by (rule solo_frame [OF assms(2) e solo_trans [OF parent_released [OF assms(2) p assms(6) x] tail]])
  moreover have "P[i := FApply s (- 1) # k] = P" using assms(3) by (metis list_update_id)
  ultimately have run: "gstep\<^sup>*\<^sup>* (w, P) (?w', P[i := FUserCb s f # FRun s ?r # FRet True # k])"
    using solo_gsteps by metis
  let ?Q = "P[i := FUserCb s f # FRun s ?r # FRet True # k]"
  have inv: "conf_inv (?w', ?Q)" using grace.inv_reachable [OF refl rtranclp_trans [OF assms(1) run]]
    by (simp add: shutdown_inv_def)
  have "context_cause ?wp p \<noteq> None"
    using cancel_ctx_done [of p "put_st w p x" ErrStopped] p wf
    by (simp add: context_cause_def wf_heap_def put_st_def)
  moreover have "context_cause ?w' p = context_cause ?wp p"
  proof -
    have "parents ?ws = parents ?wp" by (rule put_st_parents) (simp only: y(2) at(1) assms(5))
    then have "parents ?w' = parents ?wp" by simp
    moreover have "sh_cause ?w' = sh_cause ?wp" by (simp add: put_st_def)
    ultimately show ?thesis by (simp only: context_cause_def)
  qed
  moreover have "wf_heap ?w'" using inv by (simp add: conf_inv_def)
  moreover have "s < length (sh_heap ?w')" "st_parent (st_at ?w' s) = Some p"
    using assms(4) y(2) by (simp_all add: put_st_def)
  ultimately have "context_cause ?w' s \<noteq> None" using cause_below by metis
  moreover have "\<forall>e. EvCancel s e \<notin> set (sh_trace ?w')"
  proof -
    have "i < length ?Q" "?Q ! i = [] @ FUserCb s f # FRun s ?r # FRet True # k" using assms(2) by simp_all
    from before_own_cancel [OF rtranclp_trans [OF assms(1) run] this] show ?thesis by blast
  qed
  moreover have "sh_trace ?w' = sh_trace w @ [EvCancel p ErrStopped, EvRan s f]" by (simp add: put_st_def)
  ultimately show ?thesis using run by (intro exI [of _ ?w'] conjI)
qed

text \<open>
  User code makes a root context and a child, calls a task on the child, and inside the task registers a
  deferred function on the child and stops the root; then the task returns.
\<close>

definition two_states :: "nat gostate \<Rightarrow> nat gostate \<Rightarrow> nat shared" where
  "two_states r c = \<lparr>sh_heap = [r, c], sh_cause = [None, None], sh_now = 0, sh_trace = []\<rparr>"

definition root_st :: "nat gostate" where
  "root_st = (new_state (Cleanup 0) 7 None)\<lparr>mu_stopHooks := Some [(1, StopImpl 1 5)]\<rparr>"

definition child_st :: "nat gostate" where
  "child_st = new_state (Cleanup 1) 8 (Some 0)"

definition draining :: "nat gostate \<Rightarrow> nat gostate" where
  "draining s = s\<lparr>mu_count := 1, mu_stopping := True, stopping_closed := True, mu_stopHooks := None,
     mu_stopAt := Some 5, mu_graceTimer := Some 0, rt_timers := [\<lparr>tm_deadline = 5, tm_active = True\<rparr>]\<rparr>"

definition cascade_shared :: "nat shared" where
  "cascade_shared = two_states (draining root_st) (draining (child_st\<lparr>mu_deferred := [3]\<rparr>))"

lemmas cascade_eval = machine_eval run_hooks_def add_stop_hook_frames_def add_stop_hook_locked_def
  two_states_def root_st_def child_st_def draining_def

lemma cascade_acts:
  "run_acts [0] (two_states (root_st\<lparr>mu_stopHooks := None\<rparr>) child_st, [FHook 0 1 (StopImpl 1 5) # k])
      = Some (two_states root_st child_st, [k])"
  "run_acts [0, 0, 0, 0, 0, 0, 0] (two_states root_st child_st, [FApply 1 1 # FTask 1 # k])
      = Some (two_states (root_st\<lparr>mu_count := 1\<rparr>) (child_st\<lparr>mu_count := 1\<rparr>), [FUser # FApply 1 (- 1) # FIgnore # k])"
  "run_acts [0] (two_states (root_st\<lparr>mu_count := 1\<rparr>) (child_st\<lparr>mu_count := 1\<rparr>), [FDefer 1 3 # k])
      = Some (two_states (root_st\<lparr>mu_count := 1\<rparr>) (child_st\<lparr>mu_count := 1, mu_deferred := [3]\<rparr>), [k])"
  "run_acts [0, 0, 0, 0, 0, 0, 0]
      (two_states (root_st\<lparr>mu_count := 1\<rparr>) (child_st\<lparr>mu_count := 1, mu_deferred := [3]\<rparr>), [FStop 0 5 # k])
      = Some (cascade_shared, [k])"
  by (simp_all add: cascade_eval cascade_shared_def)

lemma cascade_reachable: "gstep\<^sup>*\<^sup>* init_conf (cascade_shared, [[FApply 1 (- 1), FIgnore, FUser]])"
proof -
  let ?w0 = "fst init_conf :: nat shared"
  let ?w1 = "alloc_state 7 None ?w0"
  let ?w2 = "two_states (root_st\<lparr>mu_stopHooks := None\<rparr>) child_st" and ?w3 = "two_states root_st child_st"
  let ?w4 = "two_states (root_st\<lparr>mu_count := 1\<rparr>) (child_st\<lparr>mu_count := 1\<rparr>)"
  let ?w5 = "two_states (root_st\<lparr>mu_count := 1\<rparr>) (child_st\<lparr>mu_count := 1, mu_deferred := [3]\<rparr>)"
  let ?k = "[FUser, FApply 1 (- 1), FIgnore, FUser]"
  have len: "0 < length (sh_heap ?w1)" "1 < length (sh_heap ?w3)" "1 < length (sh_heap ?w4)" "0 < length (sh_heap ?w5)"
    by (simp_all add: alloc_state_def two_states_def)
  have w2: "alloc_state 8 (Some 0) ?w1 = ?w2" "length (sh_heap ?w1) = 1"
    by (simp_all add: alloc_state_def init_conf_def two_states_def root_st_def child_st_def new_state_def)
  have 1: "gstep (?w0, []) (?w0, [[FUser]])" using gstep.spawn [of ?w0 "[]"] by simp
  have 2: "gstep (?w0, [[FUser]]) (?w1, [[FUser]])" by (rule gstep.user_root [of 0]) auto
  have 3: "gstep (?w1, [[FUser]]) (?w2, [[FHook 0 1 (StopImpl 1 5), FUser]])"
    using gstep.user_child [of 0 "[[FUser]]" FUser "[]" 0 ?w1 8 5] len(1) w2 by simp
  have 4: "gstep (?w3, [[FUser]]) (?w3, [[FApply 1 1, FTask 1, FUser]])"
    using gstep.user_call [of 0 "[[FUser]]" FUser "[]" ?w3 "[FApply 1 1, FTask 1]"] api_call.intros(1) [OF len(2)] by simp
  have 5: "gstep (?w4, [?k]) (?w4, [FDefer 1 3 # ?k])"
    using gstep.user_call [of 0 "[?k]" FUser "tl ?k" ?w4 "[FDefer 1 3]"] api_call.intros(5) [OF len(3)] by simp
  have 6: "gstep (?w5, [?k]) (?w5, [FStop 0 5 # ?k])"
    using gstep.user_call [of 0 "[?k]" FUser "tl ?k" ?w5 "[FStop 0 5]"] api_call.intros(3) [OF len(4)] by simp
  have 7: "gstep (cascade_shared, [?k]) (cascade_shared, [tl ?k])"
    using gstep.user_done [of 0 "[?k]" "tl ?k" cascade_shared] by simp
  note into = converse_rtranclp_into_rtranclp [of gstep] and acts = run_acts_gsteps [THEN rtranclp_trans]
  have "gstep\<^sup>*\<^sup>* (?w0, []) (cascade_shared, [tl ?k])"
    by (rule into [OF 1 into [OF 2 into [OF 3 acts [OF cascade_acts(1) into [OF 4 acts [OF cascade_acts(2)
      into [OF 5 acts [OF cascade_acts(3) into [OF 6 acts [OF cascade_acts(4) into [OF 7 rtranclp.rtrancl_refl]]]]]]]]]]])
  moreover have "(?w0, []) = (init_conf :: nat conf)" by (simp add: init_conf_def)
  ultimately show ?thesis by simp
qed

theorem parent_cancels_first_witness:
  "\<exists>w' :: nat shared. gstep\<^sup>*\<^sup>* init_conf (w', [[FUserCb 1 3, FRun 1 [CbCancel (Cleanup 1) ErrStopped], FRet True, FIgnore, FUser]])
     \<and> (\<forall>e. EvCancel 1 e \<notin> set (sh_trace w')) \<and> context_cause w' 1 \<noteq> None"
proof -
  let ?P = "[[FApply 1 (- 1), FIgnore, FUser]]"
  have i: "0 < length ?P" "?P ! 0 = FApply 1 (- 1) # [FIgnore, FUser]" by simp_all
  have s: "1 < length (sh_heap cascade_shared)" "st_parent (st_at cascade_shared 1) = Some 0"
    "st_parent (st_at cascade_shared 0) = None" "mu_deferred (st_at cascade_shared 0) = []"
    "mu_deferred (st_at cascade_shared 1) = [] @ [3]"
    by (simp_all add: cascade_shared_def cascade_eval)
  have d: "is_stopping (st_at cascade_shared a) \<and> len_of (st_at cascade_shared a) = 1
      \<and> \<not> is_stop_on_idle (st_at cascade_shared a) \<and> mu_cancel (st_at cascade_shared a) \<noteq> None" if "a \<in> {1, 0}" for a
    using that by (auto simp: cascade_shared_def cascade_eval len_of_def is_stop_on_idle_def)
  from parent_cancels_first [OF cascade_reachable i s(1-3) d s(4,5)] obtain w' where
    "gstep\<^sup>*\<^sup>* (cascade_shared, ?P) (w', ?P[0 := FUserCb 1 3
        # FRun 1 (map CbUser (rev []) @ [CbCancel (Cleanup 1) ErrStopped]) # FRet True # [FIgnore, FUser]])"
    "\<forall>e. EvCancel 1 e \<notin> set (sh_trace w')" "context_cause w' 1 \<noteq> None" by blast
  with rtranclp_trans [OF cascade_reachable this(1)] show ?thesis by (intro exI [of _ w']) simp
qed

end
