(* ===== verification/Machine_Watch.thy ===== *)
theory Machine_Watch
  imports Shutdown_Claims
begin

text \<open>
  The watchers of \<open>newContext\<close> (stopper.go): \<open>context.AfterFunc(ctx, func() { s.Stop() })\<close> turns the
  cancellation of a context, by whatever cause, into a \<open>Stop\<close> of its state, and \<open>cleanup\<close> disarms the
  watcher before it cancels the context itself. A configuration of the interleaved machine gets two
  lists beside it: the constructor calls that have not registered their watcher yet, and the watchers
  that are armed, each with the grace period of its state's configuration. Every step here is a run of
  the machine below, so all its invariants carry over.

  The pointer in which \<open>cleanup\<close> finds the watcher's \<open>stop\<close> function is stored after the registration.
  A cleanup that comes in between finds nil and cancels the context with the watcher armed; the watcher's
  \<open>Stop\<close> then meets a state that has given its cancel function away. In the model registering and
  storing are one step; the additional \<open>Stop\<close> is one that user code may do at any time.
\<close>

type_synonym watcher = "sid \<times> int"
type_synonym 'cfg watched = "'cfg conf \<times> watcher list \<times> watcher list"

text \<open>The goroutine that the runtime starts for the watcher.\<close>

definition watch_goroutine :: "watcher \<Rightarrow> frame list" where
  "watch_goroutine x = (case x of (s, g) \<Rightarrow> [FStop s g, FUser])"

text \<open>The first statement of \<open>cleanup\<close>: a goroutine leaves its frame \<open>FCleanup s e\<close>.\<close>

definition cleans :: "frame list list \<Rightarrow> frame list list \<Rightarrow> sid \<Rightarrow> bool" where
  "cleans P P' s \<longleftrightarrow> (\<exists>i<length P. \<exists>e k. P ! i = FCleanup s e # k \<and> P' ! i \<noteq> P ! i)"

definition disarm :: "frame list list \<Rightarrow> frame list list \<Rightarrow> watcher list \<Rightarrow> watcher list" where
  "disarm P P' A = filter (\<lambda>x. \<not> cleans P P' (fst x)) A"

text \<open>The hook of \<open>s\<close> is not at its parent yet: its constructor is still in \<open>AddStopHook\<close>.\<close>

definition hooking :: "frame list list \<Rightarrow> sid \<Rightarrow> bool" where
  "hooking P s \<longleftrightarrow> (\<exists>k\<in>set P. \<exists>p h. FHook p s h \<in> set k)"

definition watch_init :: "'cfg watched" where
  "watch_init = (init_conf, [], [])"

inductive wstep :: "'cfg watched \<Rightarrow> 'cfg watched \<Rightarrow> bool" where
  run: "gstep (w, P) (w', P') \<Longrightarrow> length (sh_heap w') = length (sh_heap w) \<Longrightarrow>
     wstep ((w, P), R, A) ((w', P'), R, disarm P P' A)"
| make_root: "i < length P \<Longrightarrow> P ! i = f # k \<Longrightarrow> is_user f \<Longrightarrow>
     wstep ((w, P), R, A) ((alloc_state cfg None w, P), (length (sh_heap w), g) # R, A)"
| make_child: "i < length P \<Longrightarrow> P ! i = f # k \<Longrightarrow> is_user f \<Longrightarrow> p < length (sh_heap w) \<Longrightarrow>
     wstep ((w, P), R, A)
       ((alloc_state cfg (Some p) w, P[i := FHook p (length (sh_heap w)) (StopImpl (length (sh_heap w)) g) # f # k]),
        (length (sh_heap w), g) # R, A)"
| register: "x \<in> set R \<Longrightarrow> \<not> hooking P (fst x) \<Longrightarrow> wstep ((w, P), R, A) ((w, P), remove1 x R, x # A)"
| fire: "x \<in> set A \<Longrightarrow> context_cause w (fst x) \<noteq> None \<Longrightarrow>
     wstep ((w, P), R, A) ((w, P @ [watch_goroutine x]), R, remove1 x A)"

text \<open>The steps that finish what has begun, as in Machine\_Drain; watchers are part of it.\<close>

inductive wdrain :: "'cfg watched \<Rightarrow> 'cfg watched \<Rightarrow> bool" where
  wdrain_run: "drain_step (w, P) (w', P') \<Longrightarrow> wdrain ((w, P), R, A) ((w', P'), R, disarm P P' A)"
| wdrain_register: "x \<in> set R \<Longrightarrow> \<not> hooking P (fst x) \<Longrightarrow> wdrain ((w, P), R, A) ((w, P), remove1 x R, x # A)"
| wdrain_fire: "x \<in> set A \<Longrightarrow> context_cause w (fst x) \<noteq> None \<Longrightarrow>
     wdrain ((w, P), R, A) ((w, P @ [watch_goroutine x]), R, remove1 x A)"

definition watch_done :: "'cfg watched \<Rightarrow> bool" where
  "watch_done d \<longleftrightarrow> (case d of ((w, P), R, A) \<Rightarrow>
     (\<forall>k\<in>set P. k = []) \<and> R = [] \<and> (\<forall>x\<in>set A. context_cause w (fst x) = None))"

definition watch_cost :: "'cfg watched \<Rightarrow> nat" where
  "watch_cost d = (case d of (c, R, A) \<Rightarrow> conf_cost c + 5 * length R + 4 * length A)"

section \<open>What a step of the machine below keeps\<close>

lemma exec_keeps_tail:
  assumes "exec_frame w f r = Some (w', k', sp)" and "FStop s g \<in> set r"
  shows "FStop s g \<in> set k'"
  using assms
proof (cases f)
  case (FRet b)
  with assms show ?thesis
    by (cases "(w, b, r)" rule: exec_ret.cases)
      (auto simp: apply_resume_def split: if_splits sum.splits prod.splits)
next
  case (FRun t cbs)
  show ?thesis
  proof (cases cbs)
    case (Cons cb cs)
    with assms FRun show ?thesis
      by (cases "(w, t, cb, FRun t cs # r)" rule: run_callback.cases) (auto simp: run_deferred_def)
  qed (use assms FRun in \<open>simp add: run_deferred_def\<close>)
qed (use assms in \<open>auto simp: apply_enter_def after_lock_def add_deferred_frames_def run_hooks_def add_stop_hook_frames_def
    cleanup_frames_def split: option.splits sum.splits prod.splits bool.splits list.splits hook.splits if_splits\<close>)

text \<open>A pending \<open>Stop\<close> is only consumed by stopping.\<close>

definition stop_pending :: "'cfg conf \<Rightarrow> sid \<Rightarrow> bool" where
  "stop_pending c s \<longleftrightarrow> mu_stopping (st_at (fst c) s) \<or> (\<exists>k\<in>set (snd c). \<exists>g. FStop s g \<in> set k)"

lemma micro_keeps_stop:
  assumes w: "wf_heap w" and k: "goroutine_ok w k" and m: "micro w k = Some (w', k', sp)"
    and s: "FStop s g \<in> set k"
  shows "mu_stopping (st_at w' s) \<or> FStop s g \<in> set k'"
proof -
  obtain f r where kf: "k = f # r" and e: "exec_frame w f r = Some (w', k', sp)"
    using m by (auto simp: micro_def split: list.splits)
  show ?thesis
  proof (cases "FStop s g \<in> set r")
    case True
    then show ?thesis using exec_keeps_tail [OF e] by blast
  next
    case False
    then have f: "f = FStop s g" using s kf by simp
    then have l: "s < length (sh_heap w)" using k kf by (simp add: goroutine_ok_def)
    obtain x cbs where c: "stop_locked (sh_now w) g (st_at w s) = Inr (x, cbs)"
      using soft_stop_no_crash [OF wf_heapD(3) [OF w l]] unfolding stop_locked_def by blast
    have "mu_stopping x" using soft_stop_fields(1) [OF wf_heapD(3) [OF w l] c [unfolded stop_locked_def]] .
    with e f c l show ?thesis by (auto simp: after_lock_def)
  qed
qed

lemma stop_pending_stack:
  assumes "stop_pending (w, P) s" and "i < length P" and "\<And>g. FStop s g \<in> set (P ! i) \<Longrightarrow> FStop s g \<in> set k"
  shows "stop_pending (w, P[i := k]) s"
proof -
  have "\<exists>j\<in>set (P[i := k]). FStop s g \<in> set j" if q: "q \<in> set P" "FStop s g \<in> set q" for q g
  proof -
    obtain j where j: "j < length P" "P ! j = q" using q(1) by (auto simp: in_set_conv_nth)
    have "(P[i := k]) ! j \<in> set (P[i := k])" using j by (intro nth_mem) simp
    moreover have "FStop s g \<in> set ((P[i := k]) ! j)" using j q(2) assms(2,3) by (cases "j = i") auto
    ultimately show ?thesis by blast
  qed
  with assms(1) show ?thesis unfolding stop_pending_def fst_conv snd_conv by blast
qed

lemma pending_grows:
  assumes "stop_pending (w, P) s" and "mu_stopping (st_at w s) \<Longrightarrow> mu_stopping (st_at w' s)" and "set P \<subseteq> set P'"
  shows "stop_pending (w', P') s"
  using assms by (auto simp: stop_pending_def)

lemma pending_step:
  "gstep c c' \<Longrightarrow> conf_inv c \<Longrightarrow> s < length (sh_heap (fst c)) \<Longrightarrow> stop_pending c s \<Longrightarrow> stop_pending c' s"
proof (induction rule: gstep.induct)
  case (act i P w w' k' sp)
  have w: "wf_heap w" using act(3) by (simp add: conf_inv_def)
  note ki = conf_inv_goroutine [OF act(3,1)] and g = conf_inv_good [OF act(3,1,2)]
  have up: "mu_stopping (st_at w s) \<Longrightarrow> mu_stopping (st_at w' s)"
    using g act(4) by (auto simp: good_action_def)
  show ?case
  proof (cases "\<exists>g. FStop s g \<in> set (P ! i)")
    case True
    then obtain g where "FStop s g \<in> set (P ! i)" by blast
    from micro_keeps_stop [OF w ki act(2) this] set_update_memI [OF act(1), of k']
    show ?thesis by (auto simp: stop_pending_def)
  next
    case False
    with stop_pending_stack [OF act(5,1), of k'] have "stop_pending (w, P[i := k']) s" by blast
    then show ?thesis by (rule pending_grows) (use up in auto)
  qed
next
  case (reorder i P hs k hs' w)
  then show ?case by (intro stop_pending_stack) auto
next
  case (user_call i P f k w fs)
  then show ?case by (intro stop_pending_stack) auto
next
  case (user_root i P f k w cfg)
  then show ?case by (intro pending_grows [OF user_root(6)]) (auto simp: nth_append)
next
  case (user_child i P f k p w cfg g)
  have "stop_pending (w, P[i := FHook p (length (sh_heap w)) (StopImpl (length (sh_heap w)) g) # f # k]) s"
    using user_child by (intro stop_pending_stack) auto
  then show ?case by (rule pending_grows) (use user_child in \<open>auto simp: nth_append\<close>)
next
  case (user_done i P k w)
  then show ?case by (intro stop_pending_stack) auto
next
  case (callback_done i P s f k pcs out e w)
  then show ?case by (intro stop_pending_stack) auto
next
  case (spawn w P)
  then show ?case by (intro pending_grows [OF spawn(3)]) auto
next
  case (timer t w i P)
  have "mu_stopping (st_at (put_st w t (fire_timer i (st_at w t))) s) = mu_stopping (st_at w s)"
    using timer(1) by (auto simp: nth_list_update fire_timer_def)
  then show ?case by (intro pending_grows [OF timer(7)]) auto
next
  case (tick w t P)
  then show ?case by (intro pending_grows [OF tick(4)]) auto
next
  case (outside_cancel t w P e)
  then show ?case by (intro pending_grows [OF outside_cancel(4)]) auto
qed

lemma cause_kept:
  "gstep c c' \<Longrightarrow> conf_inv c \<Longrightarrow> a < length (sh_heap (fst c)) \<Longrightarrow> context_cause (fst c) a \<noteq> None \<Longrightarrow>
     context_cause (fst c') a \<noteq> None"
proof (induction rule: gstep.induct)
  case (act i P w w' k' sp)
  have par: "parents w' = parents w" by (rule good_parents [OF conf_inv_good [OF act(3,1,2)]])
  from micro_cause [OF act(2)] show ?case
  proof (elim disjE exE conjE)
    assume "sh_cause w' = sh_cause w"
    with par act(5) show ?thesis by (simp add: context_cause_def)
  next
    fix s e r assume "sh_cause w' = sh_cause (cancel_ctx s e w)" "sh_heap w' = sh_heap w"
    with cancel_ctx_cause [of w a s e] act(5) show ?thesis by (simp add: context_cause_def)
  qed
next
  case (user_root i P f k w cfg)
  then show ?case
    by (simp add: context_cause_def conf_inv_def wf_heap_def eff_cause_append alloc_state_def new_state_def)
next
  case (user_child i P f k p w cfg g)
  then show ?case
    by (simp add: context_cause_def conf_inv_def wf_heap_def eff_cause_append alloc_state_def new_state_def)
next
  case (timer s w i P)
  have "parents (put_st w s (fire_timer i (st_at w s))) = parents w" by (rule put_st_parents) simp
  with timer show ?case by (simp add: context_cause_def)
next
  case (outside_cancel s w P e)
  with cancel_ctx_cause [of w a s e] show ?case by simp
qed (simp_all add: context_cause_def)

section \<open>No context is left without a watcher\<close>

definition guarded :: "'cfg watched \<Rightarrow> sid \<Rightarrow> bool" where
  "guarded d s \<longleftrightarrow> (case d of (c, R, A) \<Rightarrow> s \<in> fst ` set R \<or> s \<in> fst ` set A \<or> stop_pending c s)"

definition watch_inv :: "'cfg watched \<Rightarrow> bool" where
  "watch_inv d \<longleftrightarrow> (case d of (c, R, A) \<Rightarrow> shutdown_inv c
     \<and> (\<forall>x\<in>set R \<union> set A. fst x < length (sh_heap (fst c)))
     \<and> (\<forall>s<length (sh_heap (fst c)). guarded d s))"

lemma watch_invI:
  assumes "shutdown_inv (w, P)" and "\<And>x. x \<in> set R \<Longrightarrow> fst x < length (sh_heap w)"
    and "\<And>x. x \<in> set A \<Longrightarrow> fst x < length (sh_heap w)"
    and "\<And>s. s < length (sh_heap w) \<Longrightarrow> s \<in> fst ` set R \<or> s \<in> fst ` set A \<or> stop_pending (w, P) s"
  shows "watch_inv ((w, P), R, A)"
  using assms by (auto simp: watch_inv_def guarded_def)

lemma watch_invD:
  assumes "watch_inv ((w, P), R, A)"
  shows "shutdown_inv (w, P)" "conf_inv (w, P)" "x \<in> set R \<Longrightarrow> fst x < length (sh_heap w)"
    "x \<in> set A \<Longrightarrow> fst x < length (sh_heap w)"
    "s < length (sh_heap w) \<Longrightarrow> s \<in> fst ` set R \<or> s \<in> fst ` set A \<or> stop_pending (w, P) s"
  using assms by (auto simp: watch_inv_def guarded_def shutdown_inv_def)

lemma cleans_stopping:
  assumes "shutdown_inv (w, P)" and "cleans P P' s"
  shows "mu_stopping (st_at w s)"
proof -
  obtain i e k where i: "i < length P" "P ! i = FCleanup s e # k" using assms(2) by (auto simp: cleans_def)
  have "(s, e) \<in> set (stack_marks (P ! i))" using i(2) by simp
  then have "(s, e) \<in># conf_marks (w, P)" using nth_mem [OF i(1)] by (fastforce simp: conf_marks_def)
  then show ?thesis using assms(1) by (auto simp: shutdown_inv_def cancel_inv_def cancel_ok_def)
qed

lemma watch_inv_run:
  assumes inv: "watch_inv ((w, P), R, A)" and g: "gstep (w, P) (w', P')"
    and len: "length (sh_heap w') = length (sh_heap w)"
  shows "watch_inv ((w', P'), R, disarm P P' A)"
proof -
  note i = watch_invD [OF inv]
  have keep: "stop_pending (w', P') s" if "s < length (sh_heap w)" "stop_pending (w, P) s" for s
    using pending_step [OF g i(2)] that by simp
  show ?thesis
  proof (rule watch_invI)
    show "shutdown_inv (w', P')" using shutdown.inv_step [OF i(1) g] .
    show "fst x < length (sh_heap w')" if "x \<in> set R" for x using i(3) that len by simp
    show "fst x < length (sh_heap w')" if "x \<in> set (disarm P P' A)" for x
      using i(4) that len by (simp add: disarm_def)
    fix s assume "s < length (sh_heap w')"
    then have s: "s < length (sh_heap w)" using len by simp
    show "s \<in> fst ` set R \<or> s \<in> fst ` set (disarm P P' A) \<or> stop_pending (w', P') s"
    proof (cases "cleans P P' s")
      case True
      then have "stop_pending (w, P) s" using cleans_stopping [OF i(1)] by (simp add: stop_pending_def)
      with keep s show ?thesis by blast
    next
      case False
      then have "s \<in> fst ` set (disarm P P' A)" if "s \<in> fst ` set A" using that by (auto simp: disarm_def)
      with i(5) [OF s] keep s show ?thesis by blast
    qed
  qed
qed

lemma fst_remove1: "s \<in> fst ` set xs \<Longrightarrow> s \<in> fst ` set (remove1 x xs) \<or> s = fst x"
  by (metis (no_types, lifting) image_iff in_set_remove1)

lemma watch_inv_register:
  "watch_inv ((w, P), R, A) \<Longrightarrow> x \<in> set R \<Longrightarrow> watch_inv ((w, P), remove1 x R, x # A)"
proof (rule watch_invI)
  assume inv: "watch_inv ((w, P), R, A)" and x: "x \<in> set R"
  note i = watch_invD [OF inv]
  show "shutdown_inv (w, P)" by (rule i(1))
  show "fst y < length (sh_heap w)" if "y \<in> set (remove1 x R)" for y
    using i(3) that set_remove1_subset [of x R] by blast
  show "fst y < length (sh_heap w)" if "y \<in> set (x # A)" for y using i(3) [OF x] i(4) [of y] that by auto
  show "s \<in> fst ` set (remove1 x R) \<or> s \<in> fst ` set (x # A) \<or> stop_pending (w, P) s"
    if "s < length (sh_heap w)" for s
    using i(5) [OF that] fst_remove1 [of s R x] by auto
qed

text \<open>A fired watcher is a goroutine of user code that calls \<open>Stop\<close>.\<close>

lemma fire_gsteps:
  assumes "fst x < length (sh_heap w)"
  shows "gstep\<^sup>*\<^sup>* (w, P) (w, P @ [watch_goroutine x])"
proof -
  obtain s g where x: "x = (s, g)" by (cases x)
  have "gstep (w, P @ [[FUser]]) (w, (P @ [[FUser]])[length P := [FStop s g] @ FUser # []])"
    using assms x by (intro gstep.user_call [of "length P" _ FUser "[]"]) (auto intro: api_call.intros)
  then have "gstep (w, P @ [[FUser]]) (w, P @ [watch_goroutine x])"
    by (simp add: x watch_goroutine_def)
  with gstep.spawn [of w P] show ?thesis by (meson converse_rtranclp_into_rtranclp r_into_rtranclp)
qed

lemma watch_inv_fire:
  assumes inv: "watch_inv ((w, P), R, A)" and x: "x \<in> set A"
  shows "watch_inv ((w, P @ [watch_goroutine x]), R, remove1 x A)"
proof -
  note i = watch_invD [OF inv]
  show ?thesis
  proof (rule watch_invI)
    show "shutdown_inv (w, P @ [watch_goroutine x])"
      using shutdown.inv_steps [OF fire_gsteps i(1)] i(4) x by blast
    show "fst y < length (sh_heap w)" if "y \<in> set R" for y using i(3) that .
    show "fst y < length (sh_heap w)" if "y \<in> set (remove1 x A)" for y
      using i(4) that set_remove1_subset [of x A] by blast
    fix s assume s: "s < length (sh_heap w)"
    have "s \<in> fst ` set (remove1 x A) \<or> stop_pending (w, P @ [watch_goroutine x]) s" if a: "s \<in> fst ` set A"
      using fst_remove1 [OF a, of x] by (cases x) (auto simp: stop_pending_def watch_goroutine_def)
    moreover have "stop_pending (w, P @ [watch_goroutine x]) s" if "stop_pending (w, P) s"
      using that by (rule pending_grows) auto
    ultimately show "s \<in> fst ` set R \<or> s \<in> fst ` set (remove1 x A) \<or> stop_pending (w, P @ [watch_goroutine x]) s"
      using i(5) [OF s] by blast
  qed
qed

lemma watch_inv_make:
  assumes inv: "watch_inv ((w, P), R, A)" and g: "gstep (w, P) (alloc_state cfg p w, P')"
  shows "watch_inv ((alloc_state cfg p w, P'), (length (sh_heap w), gr) # R, A)"
proof -
  note i = watch_invD [OF inv]
  have len: "length (sh_heap (alloc_state cfg p w)) = Suc (length (sh_heap w))" by (simp add: alloc_state_def)
  show ?thesis
  proof (rule watch_invI)
    show "shutdown_inv (alloc_state cfg p w, P')" using shutdown.inv_step [OF i(1) g] .
    show "fst x < length (sh_heap (alloc_state cfg p w))" if "x \<in> set ((length (sh_heap w), gr) # R)" for x
      using i(3) [of x] that len by auto
    show "fst x < length (sh_heap (alloc_state cfg p w))" if "x \<in> set A" for x
      using i(4) [OF that] len by simp
    show "s \<in> fst ` set ((length (sh_heap w), gr) # R) \<or> s \<in> fst ` set A \<or> stop_pending (alloc_state cfg p w, P') s"
      if "s < length (sh_heap (alloc_state cfg p w))" for s
      using that len i(5) [of s] pending_step [OF g i(2), of s] by (auto simp: less_Suc_eq)
  qed
qed

lemma watch_inv_step: "wstep d d' \<Longrightarrow> watch_inv d \<Longrightarrow> watch_inv d'"
proof (induction rule: wstep.induct)
  case (run w P w' P' R A)
  then show ?case by (intro watch_inv_run)
next
  case (make_root i P f k w R A cfg g)
  show ?case by (rule watch_inv_make [OF make_root(4) gstep.user_root [OF make_root(1-3)]])
next
  case (make_child i P f k p w R A cfg g)
  show ?case by (rule watch_inv_make [OF make_child(5) gstep.user_child [OF make_child(1-4)]])
next
  case (register x R P w A)
  then show ?case by (intro watch_inv_register)
next
  case (fire x A w P R)
  then show ?case by (intro watch_inv_fire)
qed

lemma wstep_below: "wstep d d' \<Longrightarrow> watch_inv d \<Longrightarrow> gstep\<^sup>*\<^sup>* (fst d) (fst d')"
proof (induction rule: wstep.induct)
  case (make_root i P f k w R A cfg g)
  from r_into_rtranclp [of gstep, OF gstep.user_root [OF make_root(1-3)]] show ?case by simp
next
  case (make_child i P f k p w R A cfg g)
  from r_into_rtranclp [of gstep, OF gstep.user_child [OF make_child(1-4)]] show ?case by simp
next
  case (fire x A w P R)
  show ?case using fire_gsteps [OF watch_invD(4) [OF fire(3,1)]] by simp
qed auto

interpretation watch: layered_system "\<lambda>d. d = watch_init" wstep watch_inv gstep fst
proof unfold_locales
  fix d :: "'a watched"
  assume "d = watch_init"
  with shutdown.inv_init [OF refl] show "watch_inv d" by (simp add: watch_inv_def watch_init_def init_conf_def)
qed (rule watch_inv_step wstep_below; assumption)+

text \<open>So every configuration with watchers is reachable without them, and all invariants hold in it.\<close>

lemma watched_reachable: "wstep\<^sup>*\<^sup>* watch_init (c, R, A) \<Longrightarrow> gstep\<^sup>*\<^sup>* init_conf c"
  using watch.reachable_below [OF refl] by (fastforce simp: watch_init_def)

section \<open>Draining\<close>

lemma drain_heap: "drain_step (w, P) (w', P') \<Longrightarrow> conf_inv (w, P) \<Longrightarrow> length (sh_heap w') = length (sh_heap w)"
proof (induction "(w, P)" "(w', P')" rule: drain_step.induct)
  case (drain_act i k' sp)
  then show ?case using parents_length [OF good_parents [OF conf_inv_good]] by blast
qed simp_all

lemma wdrain_wstep: "wdrain d d' \<Longrightarrow> watch_inv d \<Longrightarrow> wstep d d'"
proof (induction rule: wdrain.induct)
  case (wdrain_run w P w' P' R A)
  with drain_heap watch_invD(2) show ?case by (blast intro: wstep.run drain_gstep)
qed (blast intro: wstep.intros)+

lemma Suc_length_remove1: "x \<in> set xs \<Longrightarrow> length xs = Suc (length (remove1 x xs))"
  by (induction xs) auto

lemma watch_cost_step: "wdrain d d' \<Longrightarrow> watch_inv d \<Longrightarrow> watch_cost d' < watch_cost d"
proof (induction rule: wdrain.induct)
  case (wdrain_run w P w' P' R A)
  have "conf_cost (w', P') < conf_cost (w, P)"
    using draining.own_cost [OF _ wdrain_run(1)] watch_invD(1) [OF wdrain_run(2)] by (simp add: shutdown_inv_def)
  moreover have "length (disarm P P' A) \<le> length A" by (simp add: disarm_def)
  ultimately show ?case by (simp add: watch_cost_def)
next
  case (wdrain_register x R P w A)
  with Suc_length_remove1 [OF wdrain_register(1)] show ?case by (simp add: watch_cost_def)
next
  case (wdrain_fire x A w P R)
  have "stack_cost (watch_goroutine x) = 3" by (cases x) (simp add: watch_goroutine_def)
  with Suc_length_remove1 [OF wdrain_fire(1)] show ?case by (simp add: watch_cost_def conf_cost_def)
qed

lemma wdrain_progress:
  assumes inv: "watch_inv d" and d: "\<not> watch_done d"
  shows "\<exists>d'. wdrain d d'"
proof -
  obtain w P R A where dd: "d = ((w, P), R, A)" by (metis prod.collapse)
  note i = watch_invD [OF inv [unfolded dd]]
  consider k where "k \<in> set P" "k \<noteq> []" | x where "\<forall>k\<in>set P. k = []" "x \<in> set R"
    | x where "x \<in> set A" "context_cause w (fst x) \<noteq> None"
    using d unfolding dd watch_done_def prod.case by (metis list.set_sel(1))
  then show ?thesis
  proof cases
    case 1
    then obtain c where "drain_step (w, P) c"
      using drain_progress [of w P k] i(1) by (auto simp: shutdown_inv_def)
    then show ?thesis unfolding dd by (cases c) (blast intro: wdrain_run)
  next
    case 2
    then have "\<not> hooking P (fst x)" by (auto simp: hooking_def)
    with 2 show ?thesis unfolding dd by (blast intro: wdrain_register)
  next
    case 3
    then show ?thesis unfolding dd by (blast intro: wdrain_fire)
  qed
qed

interpretation watching: terminating_system wdrain watch_inv watch_cost watch_done
  by unfold_locales (use watch_inv_step wdrain_wstep watch_cost_step wdrain_progress in blast)+

section \<open>Property\<close>

lemma watch_drains:
  assumes "wdrain\<^sup>*\<^sup>* ((w, P), R, A) ((w', P'), R', A')" and "watch_inv ((w, P), R, A)"
    and "a < length (sh_heap w)" and "context_cause w a \<noteq> None"
  shows "a < length (sh_heap w') \<and> context_cause w' a \<noteq> None"
  using assms(1)
proof (induction "((w', P'), R', A')" arbitrary: w' P' R' A' rule: rtranclp_induct)
  case base
  then show ?case using assms(3,4) by simp
next
  case (step d)
  obtain v Q S B where d: "d = ((v, Q), S, B)" by (metis prod.collapse)
  note k = step(3) [OF d]
  have ci: "conf_inv (v, Q)" using watch_invD(2) watching.live_steps [OF step(1) assms(2)] d by blast
  from step(2) [unfolded d] show ?case
  proof (cases rule: wdrain.cases)
    case wdrain_run
    note ds = \<open>drain_step (v, Q) (w', P')\<close>
    show ?thesis using k cause_kept [OF drain_gstep [OF ds] ci, of a] drain_heap [OF ds ci] by simp
  qed (use k in simp_all)
qed

text \<open>
  C3: cancellation stops. From any configuration the program with its watchers can reach and in which a
  context has been canceled, by the library or from outside, let what has begun finish: at most
  \<open>watch_cost\<close> steps are possible, something can go on until everything is done, and then that context
  and every context below it is finished as in \<open>shutdown_complete\<close>: stopping, without tasks, its
  cancel function called, its deferred functions run.
\<close>

theorem cancel_completes:
  assumes "wstep\<^sup>*\<^sup>* watch_init ((w, P), R, A)" and "a < length (sh_heap w)" and "context_cause w a \<noteq> None"
    and "(wdrain ^^ n) ((w, P), R, A) ((w', P'), R', A')"
  shows "n \<le> watch_cost ((w, P), R, A)
    \<and> (watch_done ((w', P'), R', A') \<or> (\<exists>d. wdrain ((w', P'), R', A') d))
    \<and> (watch_done ((w', P'), R', A') \<longrightarrow> (\<forall>c. a \<in> set (ancs (parents w') c) \<longrightarrow> finished w' c))
    \<and> (\<exists>d. wdrain\<^sup>*\<^sup>* ((w', P'), R', A') d \<and> watch_done d)"
proof -
  have inv: "watch_inv ((w, P), R, A)" using watch.inv_reachable [OF refl assms(1)] .
  note drains = relpowp_imp_rtranclp [OF assms(4)]
  have inv': "watch_inv ((w', P'), R', A')" using watching.live_steps [OF drains inv] .
  note a = watch_drains [OF drains inv assms(2,3)]
  have "finished w' c" if d: "watch_done ((w', P'), R', A')" and c: "a \<in> set (ancs (parents w') c)" for c
  proof -
    have e: "\<forall>k\<in>set P'. k = []" and "R' = []" "\<forall>x\<in>set A'. context_cause w' (fst x) = None"
      using d by (simp_all add: watch_done_def)
    with watch_invD(5) [OF inv', of a] a have "stop_requested w' a"
      by (fastforce simp: stop_pending_def stop_requested_def is_stopping_def)
    moreover have "\<forall>k\<in>set P'. idle_stack k" using e by (auto simp: idle_stack_def)
    ultimately show ?thesis using requested_finished [OF watch_invD(1) [OF inv']] a c by blast
  qed
  moreover have "n \<le> watch_cost ((w, P), R, A)" using watching.own_bounded [OF assms(4) inv] by simp
  ultimately show ?thesis using watching.own_progress [OF inv'] watching.own_ends [OF inv'] by blast
qed

lemma disarm_same [simp]: "disarm P P A = A"
  by (simp add: disarm_def cleans_def)

definition cancelled_root :: "nat watched" where
  "cancelled_root = ((cancel_ctx 0 CtxCanceled root_shared, [[FUser]]), [], [(0, 5)])"

lemma cancelled_root_reachable: "wstep\<^sup>*\<^sup>* watch_init cancelled_root"
proof -
  let ?e = "fst (init_conf :: nat conf)"
  have "wstep ((?e, []), [], []) ((?e, [[FUser]]), [], disarm [] [[FUser]] [])"
    using gstep.spawn [of ?e "[]"] by (intro wstep.run) simp_all
  then have "wstep watch_init ((?e, [[FUser]]), [], [])" by (simp add: watch_init_def init_conf_def disarm_def)
  moreover have "wstep ((?e, [[FUser]]), [], []) ((root_shared, [[FUser]]), [(0, 5)], [])"
    using wstep.make_root [of 0 "[[FUser]]" FUser "[]" ?e "[]" "[]" 7 5]
    by (simp add: root_shared_def init_conf_def)
  moreover have "wstep ((root_shared, [[FUser]]), [(0, 5)], []) ((root_shared, [[FUser]]), [], [(0, 5)])"
    using wstep.register [of "(0, 5)" "[(0, 5)]" "[[FUser]]" root_shared "[]"] by (simp add: hooking_def)
  moreover have "wstep ((root_shared, [[FUser]]), [], [(0, 5)]) cancelled_root"
    using wstep.run [OF gstep.outside_cancel [of 0 root_shared "[[FUser]]" CtxCanceled], of "[]" "[(0, 5)]"]
    by (simp add: cancelled_root_def root_shared_def alloc_state_def)
  ultimately show ?thesis by (meson converse_rtranclp_into_rtranclp rtranclp.rtrancl_refl)
qed

theorem cancel_completes_witness:
  "\<exists>w R A P. wdrain\<^sup>*\<^sup>* cancelled_root ((w, P), R, A) \<and> finished w 0 \<and> watch_cost cancelled_root = 10"
proof -
  let ?w = "cancel_ctx 0 CtxCanceled root_shared"
  have one: "length (sh_heap root_shared) = 1" and new: "st_at root_shared 0 = new_state (Cleanup 0) 7 None"
    and c: "sh_cause root_shared = [None]"
    by (simp_all add: root_shared_def alloc_state_def init_conf_def)
  have r: "wstep\<^sup>*\<^sup>* watch_init ((?w, [[FUser]]), [], [(0, 5)])"
    using cancelled_root_reachable by (simp add: cancelled_root_def)
  have l: "0 < length (sh_heap ?w)" using one by simp
  have k: "context_cause ?w 0 \<noteq> None" using cancel_ctx_done [of 0 root_shared CtxCanceled] one c by simp
  note all = cancel_completes [OF r l k]
  from all [of 0 ?w "[[FUser]]" "[]" "[(0, 5)]"] obtain d where
    d: "wdrain\<^sup>*\<^sup>* cancelled_root d" "watch_done d" by (auto simp: cancelled_root_def)
  obtain w P R A where e: "d = ((w, P), R, A)" by (metis prod.collapse)
  from d(1) obtain n where n: "(wdrain ^^ n) ((?w, [[FUser]]), [], [(0, 5)]) ((w, P), R, A)"
    unfolding e cancelled_root_def by (blast dest: rtranclp_imp_relpowp)
  have "0 < length (sh_heap w)"
    using watch_drains [OF relpowp_imp_rtranclp [OF n] watch.inv_reachable [OF refl r] l k] by simp
  then have "0 \<in> set (ancs (parents w) 0)" by (simp add: ancs_self)
  moreover have "watch_cost cancelled_root = 10"
    using new one by (simp add: cancelled_root_def watch_cost_def conf_cost_def heap_cost_def root_shared_def
        alloc_state_def init_conf_def stored_cost_def hooks_of_def new_state_def)
  ultimately show ?thesis using all [OF n] d e by blast
qed

end
