(* ===== verification/Options.thy ===== *)
theory Options
  imports Go_Errors
begin

text \<open>
  options.go: the configuration of contexts, tasks and stops. An option is a function on the record it
  amends, as in the source. A middleware is an abstract value (\<open>'mw\<close>), an error handler one of the two
  of the package or a user's, a task group its address. \<open>runtime.Caller\<close> is the parameter \<open>caller\<close>: the
  file and line at a stack offset, if any. Cloning a nil \<open>*task\<close> is a nil dereference: \<open>None\<close>.
\<close>

type_synonym gid = nat
type_synonym caller = "int \<Rightarrow> (string \<times> nat) option"

datatype err_handler = ErrorHandlerStop | ErrorHandlerRecord | ErrorHandlerUser nat

record 'mw task =
  callerOffset :: int
  errHandler :: "err_handler option"
  task_name :: string
  task_noInherit :: bool
  task_mw :: "'mw list"

record 'mw config =
  cfg_name :: string
  cfg_noInherit :: bool
  cfg_noTaskInfo :: bool
  cfg_gracePeriod :: "int option"
  cfg_group :: "gid option"
  cfg_taskOpts :: "'mw task option"

record stop_cfg =
  stop_gracePeriod :: "int option"
  stop_onIdle :: bool

type_synonym 'mw task_option = "'mw task \<Rightarrow> 'mw task"
type_synonym 'mw config_option = "'mw config \<Rightarrow> 'mw config"
type_synonym stop_option = "stop_cfg \<Rightarrow> stop_cfg"

definition DefaultGracePeriod :: int where
  "DefaultGracePeriod = 10 * 1000000000"

definition zero_task :: "'mw task" where
  "zero_task = \<lparr>callerOffset = 0, errHandler = None, task_name = '''', task_noInherit = False, task_mw = []\<rparr>"

definition zero_config :: "'mw config" where
  "zero_config = \<lparr>cfg_name = '''', cfg_noInherit = False, cfg_noTaskInfo = False,
     cfg_gracePeriod = None, cfg_group = None, cfg_taskOpts = None\<rparr>"

section \<open>Task options\<close>

definition TaskErrHandler :: "err_handler option \<Rightarrow> 'mw task_option" where
  "TaskErrHandler h t = t\<lparr>errHandler := h\<rparr>"

definition TaskMiddleware :: "'mw list \<Rightarrow> 'mw task_option" where
  "TaskMiddleware mw t = t\<lparr>task_mw := task_mw t @ mw\<rparr>"

definition TaskName :: "string \<Rightarrow> 'mw task_option" where
  "TaskName n t = t\<lparr>task_name := n\<rparr>"

definition TaskNoInherit :: "'mw task_option" where
  "TaskNoInherit t = t\<lparr>task_noInherit := True\<rparr>"

definition withCallerOffset :: "int \<Rightarrow> 'mw task_option" where
  "withCallerOffset off t = t\<lparr>callerOffset := off\<rparr>"

definition task_clone :: "'mw task option \<Rightarrow> 'mw task option" where
  "task_clone t = (case t of None \<Rightarrow> None | Some x \<Rightarrow> Some
     \<lparr>callerOffset = callerOffset x, errHandler = errHandler x, task_name = task_name x,
      task_noInherit = task_noInherit x, task_mw = task_mw x\<rparr>)"

definition task_merge :: "'mw task \<Rightarrow> 'mw task \<Rightarrow> 'mw task" where
  "task_merge t o' =
     (let t1 = (if callerOffset o' \<noteq> 0 then t\<lparr>callerOffset := callerOffset o'\<rparr> else t);
          t2 = (if errHandler o' \<noteq> None then t1\<lparr>errHandler := errHandler o'\<rparr> else t1);
          t3 = (if task_name o' \<noteq> '''' then t2\<lparr>task_name := task_name o'\<rparr> else t2)
      in if task_mw o' \<noteq> [] then t3\<lparr>task_mw := task_mw t3 @ task_mw o'\<rparr> else t3)"

definition task_sanitize :: "'mw task \<Rightarrow> 'mw task" where
  "task_sanitize t = (if errHandler t = None then t\<lparr>errHandler := Some ErrorHandlerStop\<rparr> else t)"

text \<open>The name made from \<open>runtime.Caller\<close> when no name is set.\<close>

definition caller_name :: "caller \<Rightarrow> int \<Rightarrow> string \<Rightarrow> string" where
  "caller_name caller offset name =
     (if name = '''' then
        (case caller offset of
           None \<Rightarrow> name
         | Some (file, line) \<Rightarrow> file @ '':'' @ nat_str line)
      else name)"

definition run_task_options :: "'mw task_option list \<Rightarrow> 'mw task" where
  "run_task_options opts = fold (\<lambda>opt t. opt t) opts zero_task"

definition apply_task_opts ::
  "caller \<Rightarrow> 'mw task option \<Rightarrow> 'mw task_option list \<Rightarrow> 'mw task" where
  "apply_task_opts caller base opts =
     (let partial = run_task_options opts;
          offset = 3 + callerOffset partial
      in case (if task_noInherit partial then None else task_clone base) of
           None \<Rightarrow> task_sanitize (partial\<lparr>task_name := caller_name caller offset (task_name partial)\<rparr>)
         | Some ret \<Rightarrow>
             let ret1 = task_merge ret partial
             in task_sanitize (ret1\<lparr>task_name := caller_name caller offset (task_name ret1)\<rparr>))"

section \<open>Context options\<close>

definition WithGracePeriod :: "int \<Rightarrow> 'mw config_option" where
  "WithGracePeriod g c = c\<lparr>cfg_gracePeriod := Some g\<rparr>"

definition WithName :: "string \<Rightarrow> 'mw config_option" where
  "WithName n c = c\<lparr>cfg_name := n\<rparr>"

definition WithNoInherit :: "'mw config_option" where
  "WithNoInherit c = c\<lparr>cfg_noInherit := True\<rparr>"

definition WithNoTaskInfo :: "'mw config_option" where
  "WithNoTaskInfo c = c\<lparr>cfg_noTaskInfo := True\<rparr>"

definition WithTaskOptions :: "caller \<Rightarrow> 'mw task_option list \<Rightarrow> 'mw config_option" where
  "WithTaskOptions caller opts c =
     c\<lparr>cfg_taskOpts := Some (apply_task_opts caller (cfg_taskOpts c) opts)\<rparr>"

definition config_clone :: "'mw config \<Rightarrow> 'mw config option" where
  "config_clone c =
     (case task_clone (cfg_taskOpts c) of
        None \<Rightarrow> None
      | Some t \<Rightarrow> Some
          \<lparr>cfg_name = cfg_name c, cfg_noInherit = cfg_noInherit c, cfg_noTaskInfo = cfg_noTaskInfo c,
           cfg_gracePeriod = cfg_gracePeriod c, cfg_group = cfg_group c, cfg_taskOpts = Some t\<rparr>)"

definition config_merge :: "'mw config \<Rightarrow> 'mw config \<Rightarrow> 'mw config" where
  "config_merge c o' =
     (let c0 = (if cfg_noInherit o' then zero_config else c);
          c1 = (if cfg_group o' \<noteq> None then c0\<lparr>cfg_group := cfg_group o'\<rparr> else c0);
          c2 = (if cfg_name o' \<noteq> '''' then
                  (if cfg_name c1 = '''' then c1\<lparr>cfg_name := cfg_name o'\<rparr>
                   else c1\<lparr>cfg_name := cfg_name c1 @ ''.'' @ cfg_name o'\<rparr>)
                else c1);
          c3 = (if cfg_noTaskInfo o' then c2\<lparr>cfg_noTaskInfo := True\<rparr> else c2);
          c4 = (if cfg_gracePeriod o' \<noteq> None then c3\<lparr>cfg_gracePeriod := cfg_gracePeriod o'\<rparr> else c3)
      in case cfg_taskOpts o' of
           None \<Rightarrow> c4
         | Some to \<Rightarrow>
             (case cfg_taskOpts c4 of
                None \<Rightarrow> c4\<lparr>cfg_taskOpts := Some to\<rparr>
              | Some t \<Rightarrow> c4\<lparr>cfg_taskOpts := Some (task_merge t to)\<rparr>))"

definition config_sanitize :: "'mw config \<Rightarrow> 'mw config" where
  "config_sanitize c =
     (let c1 = (if cfg_gracePeriod c = None then c\<lparr>cfg_gracePeriod := Some DefaultGracePeriod\<rparr> else c);
          t = (case cfg_taskOpts c1 of None \<Rightarrow> zero_task | Some t \<Rightarrow> t)
      in c1\<lparr>cfg_taskOpts := Some (task_sanitize t)\<rparr>)"

definition run_config_options :: "'mw config_option list \<Rightarrow> 'mw config" where
  "run_config_options opts = fold (\<lambda>opt c. opt c) opts zero_config"

text \<open>
  The configuration part of \<open>newContext\<close>: the merged configuration, before the group is made, from the
  parent state's configuration (if the parent context is managed) and the options. \<open>None\<close> is the nil
  dereference in \<open>Clone\<close>.
\<close>

definition new_config :: "caller \<Rightarrow> 'mw config option \<Rightarrow> 'mw config \<Rightarrow> 'mw config option" where
  "new_config caller parent partial =
     (let partial1 = partial\<lparr>cfg_name := caller_name caller 2 (cfg_name partial)\<rparr>
      in map_option config_sanitize
           (case parent of
              None \<Rightarrow> Some partial1
            | Some p \<Rightarrow>
                (case config_clone p of
                   None \<Rightarrow> None
                 | Some cfg \<Rightarrow> Some (config_merge cfg partial1))))"

text \<open>The task group of the new context: \<open>fresh\<close> is its address; the result has its parent group.\<close>

definition new_group :: "gid \<Rightarrow> 'mw config \<Rightarrow> 'mw config \<times> (string \<times> gid option) option" where
  "new_group fresh cfg =
     (if cfg_noTaskInfo cfg then (cfg\<lparr>cfg_group := None\<rparr>, None)
      else (cfg\<lparr>cfg_group := Some fresh\<rparr>, Some (cfg_name cfg, cfg_group cfg)))"

section \<open>Stop options\<close>

definition StopGracePeriod :: "int \<Rightarrow> stop_option" where
  "StopGracePeriod g s = s\<lparr>stop_gracePeriod := Some g\<rparr>"

definition StopOnIdle :: "stop_option" where
  "StopOnIdle s = s\<lparr>stop_onIdle := True\<rparr>"

definition stop_sanitize :: "stop_cfg \<Rightarrow> stop_cfg" where
  "stop_sanitize s = s"

definition stop_options :: "'mw config \<Rightarrow> stop_option list \<Rightarrow> stop_cfg" where
  "stop_options cfg opts =
     stop_sanitize (fold (\<lambda>opt s. opt s) opts
       \<lparr>stop_gracePeriod = cfg_gracePeriod cfg, stop_onIdle = False\<rparr>)"

section \<open>Merging is associative, sanitizing idempotent\<close>

lemma task_clone_eq [simp]: "task_clone t = t"
  by (cases t) (simp_all add: task_clone_def)

lemma task_merge_fields [simp]:
  "callerOffset (task_merge t u) = (if callerOffset u \<noteq> 0 then callerOffset u else callerOffset t)"
  "errHandler (task_merge t u) = (if errHandler u \<noteq> None then errHandler u else errHandler t)"
  "task_name (task_merge t u) = (if task_name u \<noteq> '''' then task_name u else task_name t)"
  "task_noInherit (task_merge t u) = task_noInherit t"
  "task_mw (task_merge t u) = task_mw t @ task_mw u"
  by (simp_all add: task_merge_def Let_def)

lemma task_sanitize_fields [simp]:
  "callerOffset (task_sanitize t) = callerOffset t" "task_name (task_sanitize t) = task_name t"
  "task_noInherit (task_sanitize t) = task_noInherit t" "task_mw (task_sanitize t) = task_mw t"
  "errHandler (task_sanitize t) = Some (case errHandler t of None \<Rightarrow> ErrorHandlerStop | Some h \<Rightarrow> h)"
  by (auto simp: task_sanitize_def)

lemma task_merge_assoc: "task_merge (task_merge a b) c = task_merge a (task_merge b c)"
  for a :: "'mw task"
  by (rule task.equality) auto

lemma task_merge_zero [simp]: "task_merge t zero_task = t"
  by (simp add: task_merge_def zero_task_def)

lemma task_sanitize_idem [simp]: "task_sanitize (task_sanitize t) = task_sanitize t"
  by (simp add: task_sanitize_def)

lemma config_clone_eq: "config_clone c = (if cfg_taskOpts c = None then None else Some c)"
  by (cases "cfg_taskOpts c") (simp_all add: config_clone_def)

lemma config_sanitize_fields [simp]:
  "cfg_name (config_sanitize c) = cfg_name c" "cfg_noInherit (config_sanitize c) = cfg_noInherit c"
  "cfg_noTaskInfo (config_sanitize c) = cfg_noTaskInfo c" "cfg_group (config_sanitize c) = cfg_group c"
  "cfg_gracePeriod (config_sanitize c)
     = Some (case cfg_gracePeriod c of None \<Rightarrow> DefaultGracePeriod | Some g \<Rightarrow> g)"
  "cfg_taskOpts (config_sanitize c)
     = Some (task_sanitize (case cfg_taskOpts c of None \<Rightarrow> zero_task | Some t \<Rightarrow> t))"
  by (auto simp: config_sanitize_def Let_def)

text \<open>The middleware a configuration gives to its tasks.\<close>

definition cfg_mw :: "'mw config \<Rightarrow> 'mw list" where
  "cfg_mw c = (case cfg_taskOpts c of None \<Rightarrow> [] | Some t \<Rightarrow> task_mw t)"

lemma cfg_mw_merge:
  "cfg_mw (config_merge c d) = (if cfg_noInherit d then cfg_mw d else cfg_mw c @ cfg_mw d)"
  by (auto simp: config_merge_def cfg_mw_def zero_config_def Let_def split: option.splits)

lemma config_merge_fields:
  assumes "\<not> cfg_noInherit d"
  shows "cfg_name (config_merge c d) = (if cfg_name d = '''' then cfg_name c
      else if cfg_name c = '''' then cfg_name d else cfg_name c @ ''.'' @ cfg_name d)"
    "cfg_noTaskInfo (config_merge c d) = (cfg_noTaskInfo c \<or> cfg_noTaskInfo d)"
    "cfg_gracePeriod (config_merge c d)
      = (if cfg_gracePeriod d \<noteq> None then cfg_gracePeriod d else cfg_gracePeriod c)"
    "cfg_group (config_merge c d) = (if cfg_group d \<noteq> None then cfg_group d else cfg_group c)"
  using assms by (auto simp: config_merge_def Let_def split: option.splits)

definition opt_merge :: "'mw task option \<Rightarrow> 'mw task option \<Rightarrow> 'mw task option" where
  "opt_merge t u =
     (case u of None \<Rightarrow> t | Some y \<Rightarrow> (case t of None \<Rightarrow> Some y | Some x \<Rightarrow> Some (task_merge x y)))"

lemma opt_merge_assoc: "opt_merge (opt_merge t u) v = opt_merge t (opt_merge u v)"
  by (auto simp: opt_merge_def task_merge_assoc split: option.splits)

lemma config_merge_rest:
  assumes "\<not> cfg_noInherit d"
  shows "cfg_noInherit (config_merge c d) = cfg_noInherit c"
    "cfg_taskOpts (config_merge c d) = opt_merge (cfg_taskOpts c) (cfg_taskOpts d)"
  using assms by (auto simp: config_merge_def opt_merge_def Let_def split: option.splits)

text \<open>With \<open>WithNoInherit\<close> only the right-hand side remains.\<close>

lemma config_merge_noInherit:
  assumes "cfg_noInherit d"
  shows "config_merge c d = d\<lparr>cfg_noInherit := False\<rparr>"
  using assms
  by (intro config.equality) (auto simp: config_merge_def zero_config_def Let_def split: option.splits)

lemma cfg_mw_sanitize [simp]: "cfg_mw (config_sanitize c) = cfg_mw c"
  by (auto simp: cfg_mw_def zero_task_def split: option.splits)

section \<open>Chains of contexts\<close>

text \<open>
  The configuration of a context at the end of a chain of nested contexts, from the options of each,
  the root first; the group of a context is its depth in the chain.
\<close>

fun chain_config :: "caller \<Rightarrow> gid \<Rightarrow> 'mw config option \<Rightarrow> 'mw config list \<Rightarrow> 'mw config option" where
  "chain_config caller n p [] = p"
| "chain_config caller n p (c # cs) =
     (case new_config caller p c of
        None \<Rightarrow> None
      | Some cfg \<Rightarrow> chain_config caller (Suc n) (Some (fst (new_group n cfg))) cs)"

fun chain_mw :: "'mw list \<Rightarrow> 'mw config list \<Rightarrow> 'mw list" where
  "chain_mw acc [] = acc"
| "chain_mw acc (c # cs) = chain_mw (if cfg_noInherit c then cfg_mw c else acc @ cfg_mw c) cs"

definition sanitized :: "'mw config \<Rightarrow> bool" where
  "sanitized c \<longleftrightarrow> cfg_gracePeriod c \<noteq> None
     \<and> (case cfg_taskOpts c of None \<Rightarrow> False | Some t \<Rightarrow> errHandler t \<noteq> None)"

lemma sanitized_sanitize [simp]: "sanitized (config_sanitize c)"
  by (simp add: sanitized_def)

lemma cfg_mw_name [simp]: "cfg_mw (c\<lparr>cfg_name := n\<rparr>) = cfg_mw c" "cfg_mw (c\<lparr>cfg_group := g\<rparr>) = cfg_mw c"
  by (simp_all add: cfg_mw_def)

lemma new_config_child:
  assumes "case p of None \<Rightarrow> True | Some q \<Rightarrow> sanitized q"
  shows "\<exists>cfg. new_config caller p c = Some cfg \<and> sanitized (fst (new_group n cfg))
    \<and> cfg_mw (fst (new_group n cfg))
        = (if cfg_noInherit c \<or> p = None then cfg_mw c else cfg_mw (the p) @ cfg_mw c)"
proof (cases p)
  case None
  then show ?thesis by (auto simp: new_config_def new_group_def sanitized_def)
next
  case (Some q)
  then have "cfg_taskOpts q \<noteq> None" using assms by (auto simp: sanitized_def split: option.splits)
  then have "new_config caller p c
      = Some (config_sanitize (config_merge q (c\<lparr>cfg_name := caller_name caller 2 (cfg_name c)\<rparr>)))"
    using Some by (simp add: new_config_def config_clone_eq)
  with Some show ?thesis by (auto simp: new_group_def sanitized_def cfg_mw_merge)
qed

lemma chain_config_ok:
  assumes "case p of None \<Rightarrow> cs \<noteq> [] | Some q \<Rightarrow> sanitized q"
  shows "\<exists>cfg. chain_config caller n p cs = Some cfg \<and> sanitized cfg
    \<and> cfg_mw cfg = chain_mw (case p of None \<Rightarrow> [] | Some q \<Rightarrow> cfg_mw q) cs"
  using assms
proof (induction cs arbitrary: n p)
  case Nil
  then show ?case by (cases p) auto
next
  case (Cons c cs)
  have "case p of None \<Rightarrow> True | Some q \<Rightarrow> sanitized q" using Cons(2) by (cases p) auto
  from new_config_child [OF this, of caller c n] obtain cfg where
    n: "new_config caller p c = Some cfg" "sanitized (fst (new_group n cfg))"
      "cfg_mw (fst (new_group n cfg))
        = (if cfg_noInherit c \<or> p = None then cfg_mw c else cfg_mw (the p) @ cfg_mw c)"
    by blast
  with Cons(1) [of "Some (fst (new_group n cfg))" "Suc n"] show ?case by (cases p) auto
qed

section \<open>Properties\<close>

text \<open>
  C33: building a context never fails, and a task started on it runs under the middleware of its
  whole chain of contexts, outermost context first, then the call's own: starting from the last
  context with \<open>WithNoInherit\<close>, and only the call's own with \<open>TaskNoInherit\<close>. There is always an
  error handler and a grace period.
\<close>

theorem task_middleware_of_chain:
  assumes "cs \<noteq> []"
  shows "\<exists>cfg. chain_config caller n None cs = Some cfg
    \<and> cfg_gracePeriod cfg \<noteq> None
    \<and> errHandler (apply_task_opts caller' (cfg_taskOpts cfg) opts) \<noteq> None
    \<and> task_mw (apply_task_opts caller' (cfg_taskOpts cfg) opts)
        = (if task_noInherit (run_task_options opts) then [] else chain_mw [] cs)
          @ task_mw (run_task_options opts)"
proof -
  obtain cfg where c: "chain_config caller n None cs = Some cfg" "sanitized cfg"
      "cfg_mw cfg = chain_mw [] cs"
    using chain_config_ok [where p = None and cs = cs and caller = caller and n = n] assms by auto
  then obtain t where t: "cfg_taskOpts cfg = Some t" "task_mw t = chain_mw [] cs"
    by (auto simp: sanitized_def cfg_mw_def split: option.splits)
  with c show ?thesis
    by (auto simp: apply_task_opts_def Let_def sanitized_def)
qed

definition no_caller :: caller where
  "no_caller off = None"

theorem task_middleware_of_chain_witness:
  "\<exists>cfg. chain_config no_caller 0 None
       [WithTaskOptions no_caller [TaskMiddleware [1, 2]] zero_config,
        WithTaskOptions no_caller [TaskMiddleware [3::nat]] zero_config] = Some cfg
     \<and> task_mw (apply_task_opts no_caller (cfg_taskOpts cfg) [TaskMiddleware [4]]) = [1, 2, 3, 4]"
proof -
  let ?cs = "[WithTaskOptions no_caller [TaskMiddleware [1, 2]] zero_config,
        WithTaskOptions no_caller [TaskMiddleware [3::nat]] zero_config]"
  have "chain_mw [] ?cs = [1, 2, 3]"
    by (simp add: WithTaskOptions_def zero_config_def cfg_mw_def apply_task_opts_def Let_def
        run_task_options_def TaskMiddleware_def zero_task_def)
  moreover have "task_mw (run_task_options [TaskMiddleware [4::nat]]) = [4]"
      "\<not> task_noInherit (run_task_options [TaskMiddleware [4::nat]])"
    by (simp_all add: run_task_options_def TaskMiddleware_def zero_task_def)
  ultimately show ?thesis
    using task_middleware_of_chain [of ?cs no_caller 0 no_caller "[TaskMiddleware [4]]"] by auto
qed

text \<open>
  A child context's settings. Names are dotted, the observability switch is sticky, the nearest
  explicit grace period wins; with \<open>WithNoInherit\<close> nothing of the parent remains, not even its group.
\<close>

theorem child_config:
  assumes "sanitized p"
  shows "\<exists>cfg. new_config caller (Some p) c = Some cfg \<and> sanitized cfg
    \<and> (let name = caller_name caller 2 (cfg_name c) in
        if cfg_noInherit c then
          new_config caller None (c\<lparr>cfg_noInherit := False\<rparr>) = Some cfg
        else
          cfg_name cfg = (if name = '''' then cfg_name p else if cfg_name p = '''' then name
                          else cfg_name p @ ''.'' @ name)
          \<and> cfg_noTaskInfo cfg = (cfg_noTaskInfo p \<or> cfg_noTaskInfo c)
          \<and> cfg_gracePeriod cfg
              = (if cfg_gracePeriod c \<noteq> None then cfg_gracePeriod c else cfg_gracePeriod p)
          \<and> cfg_group cfg = (if cfg_group c \<noteq> None then cfg_group c else cfg_group p))"
proof -
  let ?c = "c\<lparr>cfg_name := caller_name caller 2 (cfg_name c)\<rparr>"
  have n: "new_config caller (Some p) c = Some (config_sanitize (config_merge p ?c))"
    using assms by (auto simp: new_config_def config_clone_eq sanitized_def split: option.splits)
  have g: "cfg_gracePeriod p \<noteq> None" using assms by (simp add: sanitized_def)
  show ?thesis
  proof (cases "cfg_noInherit c")
    case True
    then have "config_merge p ?c = (?c\<lparr>cfg_noInherit := False\<rparr>)"
      by (simp add: config_merge_noInherit)
    moreover have "?c\<lparr>cfg_noInherit := False\<rparr> = c\<lparr>cfg_noInherit := False, cfg_name := cfg_name ?c\<rparr>"
      by simp
    ultimately have "new_config caller None (c\<lparr>cfg_noInherit := False\<rparr>)
        = Some (config_sanitize (config_merge p ?c))"
      by (simp add: new_config_def)
    with True n show ?thesis by simp
  next
    case False
    with n g config_merge_fields [of ?c p] show ?thesis by (auto simp: Let_def)
  qed
qed

theorem child_config_witness:
  "\<exists>cfg. new_config no_caller
      (Some (config_sanitize (WithName ''api'' (WithGracePeriod 7 zero_config))))
      (WithName ''db'' zero_config :: nat config) = Some cfg
    \<and> cfg_name cfg = ''api.db'' \<and> cfg_gracePeriod cfg = Some 7"
  using child_config [OF sanitized_sanitize,
      of no_caller "WithName ''api'' (WithGracePeriod 7 zero_config)" "WithName ''db'' zero_config :: nat config"]
  by (auto simp: WithName_def WithGracePeriod_def zero_config_def caller_name_def no_caller_def Let_def)

text \<open>
  Merging configurations is associative, so it does not matter where a chain of contexts is cut;
  the exception is a right-hand side that disables inheritance, which resets what is on its left.
\<close>

theorem config_merge_assoc:
  assumes "\<not> cfg_noInherit c"
  shows "config_merge (config_merge a b) c = config_merge a (config_merge b c)"
proof -
  have plain: "config_merge (config_merge x b) c = config_merge x (config_merge b c)"
    if b: "\<not> cfg_noInherit b" for x
  proof -
    have bc: "\<not> cfg_noInherit (config_merge b c)" using b config_merge_rest(1) [OF assms] by simp
    note fields = config_merge_fields [OF assms] config_merge_rest [OF assms]
      config_merge_fields [OF b] config_merge_rest [OF b]
      config_merge_fields [OF bc] config_merge_rest [OF bc]
    show ?thesis by (rule config.equality) (auto simp: fields opt_merge_assoc)
  qed
  show ?thesis
  proof (cases "cfg_noInherit b")
    case False
    then show ?thesis by (rule plain)
  next
    case True
    have bc: "cfg_noInherit (config_merge b c)" using True config_merge_rest(1) [OF assms] by simp
    have "config_merge (b\<lparr>cfg_noInherit := False\<rparr>) c = (config_merge b c)\<lparr>cfg_noInherit := False\<rparr>"
      by (rule config.equality)
        (auto simp: config_merge_fields [OF assms] config_merge_rest [OF assms])
    then show ?thesis
      using config_merge_noInherit [OF True] config_merge_noInherit [OF bc] by simp
  qed
qed

theorem config_merge_assoc_witness:
  "config_merge (config_merge (WithName ''a'' zero_config) (WithName ''b'' zero_config))
      (WithName ''c'' zero_config :: nat config)
    = config_merge (WithName ''a'' zero_config)
       (config_merge (WithName ''b'' zero_config) (WithName ''c'' zero_config))"
  by (rule config_merge_assoc) (simp add: WithName_def zero_config_def)

text \<open>
  \<open>WithTaskOptions\<close> on a child context replaces the error handler inherited from the parent by the
  default \<open>ErrorHandlerStop\<close> even if no handler is among the options: with no base configuration
  \<open>applyTaskOpts\<close> fills in the default at once, and the merge then takes it for an explicit setting.
\<close>

theorem child_task_options_reset_handler:
  assumes "sanitized p" and "errHandler (run_task_options opts) = None"
  shows "\<exists>cfg t. new_config caller (Some p) (run_config_options [WithTaskOptions caller opts]) = Some cfg
    \<and> cfg_taskOpts cfg = Some t \<and> errHandler t = Some ErrorHandlerStop"
proof -
  let ?c = "run_config_options [WithTaskOptions caller opts]"
  have ne: "cfg_taskOpts p \<noteq> None" using assms(1) by (auto simp: sanitized_def split: option.splits)
  have t: "cfg_taskOpts ?c = Some (apply_task_opts caller None opts)" "\<not> cfg_noInherit ?c"
    by (simp_all add: run_config_options_def WithTaskOptions_def zero_config_def)
  have h: "errHandler (apply_task_opts caller None opts) = Some ErrorHandlerStop"
    using assms(2) by (simp add: apply_task_opts_def Let_def)
  from ne t h show ?thesis
    by (auto simp: new_config_def config_clone_eq config_merge_def Let_def split: option.splits)
qed

theorem child_task_options_reset_handler_witness:
  "\<exists>cfg t. new_config no_caller
      (Some (config_sanitize (run_config_options
         [WithTaskOptions no_caller [TaskErrHandler (Some ErrorHandlerRecord)]])))
      (run_config_options [WithTaskOptions no_caller [TaskMiddleware [1::nat]]]) = Some cfg
    \<and> cfg_taskOpts cfg = Some t \<and> errHandler t = Some ErrorHandlerStop"
  by (rule child_task_options_reset_handler [OF sanitized_sanitize])
    (simp add: run_task_options_def TaskMiddleware_def zero_task_def)

end
