(* ===== verification/Go_Context.thy ===== *)
theory Go_Context
  imports Machine Options
begin

text \<open>
  stopper.go and stopping_ctx.go: contexts as values, their \<open>Value\<close>, \<open>Done\<close>, \<open>Err\<close> and
  \<open>context.Cause\<close>, construction of stopper contexts, and the facade methods that act on the state.
  The world is the \<open>shared\<close> record of Machine.thy, whose configurations are those of Options.thy:
  the context that \<open>newContext\<close> cancels for state \<open>s\<close> is \<open>CancelCtx _ s\<close>, and its own cause is entry
  \<open>s\<close> of \<open>sh_cause\<close>. A context of another library with a cancellation of its own is \<open>ExtCtx _ n\<close>; the
  parameter \<open>ext\<close> gives its \<open>Err\<close> and cause once it is canceled.
\<close>

datatype key = KeyStopper | KeyImpl | KeyTaskGroup | KeyTaskInfo | KeyTrace | KeyUser nat

datatype gctx =
    Background
  | WithValue gctx key gval
  | CancelCtx gctx sid
  | ExtCtx gctx nat
  | Impl gctx sid
  | StoppingCtx gctx sid
and gval =
    VContext gctx
  | VImpl gctx sid
  | VGroup "gid option"
  | VTaskInfo nat
  | VTrace string
  | VUser nat

type_synonym 'mw cworld = "'mw config shared"
type_synonym ext = "nat \<Rightarrow> (goerr \<times> goerr) option"

definition config_at :: "'mw cworld \<Rightarrow> sid \<Rightarrow> 'mw config" where
  "config_at w s = config_of (st_at w s)"

section \<open>Value\<close>

text \<open>\<open>(*stoppingCtx).Value\<close> is \<open>impl.Value\<close> of the same receiver.\<close>

definition impl_value ::
  "'mw cworld \<Rightarrow> gctx \<Rightarrow> sid \<Rightarrow> key \<Rightarrow> gval option \<Rightarrow> gval option" where
  "impl_value w d s k below =
     (case k of
        KeyStopper \<Rightarrow> Some (VContext (Impl d s))
      | KeyImpl \<Rightarrow> Some (VImpl d s)
      | KeyTaskGroup \<Rightarrow> Some (VGroup (cfg_group (config_at w s)))
      | _ \<Rightarrow> below)"

fun ctx_value :: "'mw cworld \<Rightarrow> gctx \<Rightarrow> key \<Rightarrow> gval option" where
  "ctx_value w Background k = None"
| "ctx_value w (WithValue c k' v) k = (if k = k' then Some v else ctx_value w c k)"
| "ctx_value w (CancelCtx c s) k = ctx_value w c k"
| "ctx_value w (ExtCtx c n) k = ctx_value w c k"
| "ctx_value w (Impl d s) k = impl_value w d s k (ctx_value w d k)"
| "ctx_value w (StoppingCtx d s) k = impl_value w d s k (ctx_value w d k)"

definition from_ctx :: "'mw cworld \<Rightarrow> gctx \<Rightarrow> gctx option" where
  "from_ctx w c = (case ctx_value w c KeyStopper of Some (VContext i) \<Rightarrow> Some i | _ \<Rightarrow> None)"

definition task_group_from :: "'mw cworld \<Rightarrow> gctx \<Rightarrow> gid option option" where
  "task_group_from w c = (case ctx_value w c KeyTaskGroup of Some (VGroup g) \<Rightarrow> Some g | _ \<Rightarrow> None)"

definition task_info_from :: "'mw cworld \<Rightarrow> gctx \<Rightarrow> nat option" where
  "task_info_from w c = (case ctx_value w c KeyTaskInfo of Some (VTaskInfo t) \<Rightarrow> Some t | _ \<Rightarrow> None)"

section \<open>Done, Err and Cause\<close>

definition errCanceledStopped :: "goerr option" where
  "errCanceledStopped = errors_join [Some CtxCanceled, Some ErrStopped]"

definition own_cause :: "'mw cworld \<Rightarrow> sid \<Rightarrow> goerr option" where
  "own_cause w s = (if s < length (sh_cause w) then sh_cause w ! s else None)"

fun ctx_err :: "'mw cworld \<Rightarrow> ext \<Rightarrow> gctx \<Rightarrow> goerr option" where
  "ctx_err w ext Background = None"
| "ctx_err w ext (WithValue c k v) = ctx_err w ext c"
| "ctx_err w ext (CancelCtx c s) =
     (case own_cause w s of Some e \<Rightarrow> Some CtxCanceled | None \<Rightarrow> ctx_err w ext c)"
| "ctx_err w ext (ExtCtx c n) = (case ext n of Some (e, _) \<Rightarrow> Some e | None \<Rightarrow> ctx_err w ext c)"
| "ctx_err w ext (Impl d s) = ctx_err w ext d"
| "ctx_err w ext (StoppingCtx d s) =
     (if is_stopping (st_at w s) then errCanceledStopped else ctx_err w ext d)"

text \<open>\<open>context.Cause\<close> asks the nearest cancelable context below, through \<open>Value\<close>.\<close>

fun ctx_cause :: "'mw cworld \<Rightarrow> ext \<Rightarrow> gctx \<Rightarrow> goerr option" where
  "ctx_cause w ext Background = None"
| "ctx_cause w ext (WithValue c k v) = ctx_cause w ext c"
| "ctx_cause w ext (CancelCtx c s) =
     (case own_cause w s of Some e \<Rightarrow> Some e | None \<Rightarrow> ctx_cause w ext c)"
| "ctx_cause w ext (ExtCtx c n) = (case ext n of Some (_, e) \<Rightarrow> Some e | None \<Rightarrow> ctx_cause w ext c)"
| "ctx_cause w ext (Impl d s) = ctx_cause w ext d"
| "ctx_cause w ext (StoppingCtx d s) = ctx_cause w ext d"

fun ctx_done :: "'mw cworld \<Rightarrow> ext \<Rightarrow> gctx \<Rightarrow> bool" where
  "ctx_done w ext (StoppingCtx d s) = stopping_closed (st_at w s)"
| "ctx_done w ext (Impl d s) = ctx_done w ext d"
| "ctx_done w ext (WithValue c k v) = ctx_done w ext c"
| "ctx_done w ext Background = False"
| "ctx_done w ext (CancelCtx c s) = (own_cause w s \<noteq> None \<or> ctx_done w ext c)"
| "ctx_done w ext (ExtCtx c n) = (ext n \<noteq> None \<or> ctx_done w ext c)"

section \<open>Construction\<close>

definition with_delegate :: "gctx \<Rightarrow> gctx \<Rightarrow> gctx" where
  "with_delegate c d = (case c of Impl _ s \<Rightarrow> Impl d s | _ \<Rightarrow> c)"

definition stopping_context :: "gctx \<Rightarrow> gctx" where
  "stopping_context c = (case c of Impl d s \<Rightarrow> StoppingCtx d s | _ \<Rightarrow> c)"

text \<open>The state a new context is to be a child of.\<close>

definition parent_state :: "'mw cworld \<Rightarrow> gctx \<Rightarrow> sid option" where
  "parent_state w c = (case ctx_value w c KeyImpl of Some (VImpl d s) \<Rightarrow> Some s | _ \<Rightarrow> None)"

text \<open>\<open>trace.NewTask\<close> returns a context with a value of its own.\<close>

definition trace_task :: "gctx \<Rightarrow> string \<Rightarrow> gctx" where
  "trace_task c name = WithValue c KeyTrace (VTrace name)"

text \<open>
  \<open>newContext\<close>: the configuration, the state, the context, and the call of \<open>AddStopHook\<close> on the parent
  (\<open>s.Stop()\<close> with the grace period of the new configuration). Its registration of
  \<open>context.AfterFunc\<close> is a goroutine that calls \<open>Stop\<close> when the context is canceled. \<open>None\<close> is a panic.
\<close>

definition new_context ::
  "caller \<Rightarrow> gid \<Rightarrow> gctx \<Rightarrow> 'mw config \<Rightarrow> 'mw cworld \<Rightarrow> ('mw cworld \<times> gctx \<times> frame list) option" where
  "new_context caller fresh c partial w =
     (let parent = parent_state w c in
      case new_config caller (map_option (config_at w) parent) partial of
        None \<Rightarrow> None
      | Some cfg0 \<Rightarrow>
          let (cfg, grp) = new_group fresh cfg0;
              s = length (sh_heap w);
              d = CancelCtx (trace_task c (cfg_name cfg)) s;
              w' = alloc_state cfg parent w
          in (case cfg_gracePeriod cfg of
                None \<Rightarrow> None
              | Some g \<Rightarrow>
                  Some (w', Impl d s,
                    case parent of None \<Rightarrow> [] | Some p \<Rightarrow> [FHook p s (StopImpl s g)])))"

definition with_context ::
  "caller \<Rightarrow> gid \<Rightarrow> gctx \<Rightarrow> 'mw config_option list \<Rightarrow> 'mw cworld
     \<Rightarrow> ('mw cworld \<times> gctx \<times> frame list) option" where
  "with_context caller fresh c opts w = new_context caller fresh c (run_config_options opts) w"

definition new_stopper ::
  "caller \<Rightarrow> gid \<Rightarrow> 'mw config_option list \<Rightarrow> 'mw cworld \<Rightarrow> ('mw cworld \<times> gctx \<times> frame list) option" where
  "new_stopper caller fresh opts w = new_context caller fresh Background (run_config_options opts) w"

section \<open>Methods that act on the state\<close>

definition impl_stop :: "'mw cworld \<Rightarrow> sid \<Rightarrow> stop_option list \<Rightarrow> frame list option" where
  "impl_stop w s opts =
     (let st = stop_options (config_at w s) opts in
      case stop_gracePeriod st of
        None \<Rightarrow> None
      | Some g \<Rightarrow> Some (if stop_onIdle st then [FStopOnIdle s g] else [FStop s g]))"

definition impl_add_error :: "sid \<Rightarrow> goerr option list \<Rightarrow> frame list" where
  "impl_add_error s es = [FAddErrors s es]"

definition impl_defer :: "sid \<Rightarrow> fid \<Rightarrow> frame list" where
  "impl_defer s f = [FDefer s f]"

definition impl_is_stopping :: "'mw cworld \<Rightarrow> sid \<Rightarrow> bool" where
  "impl_is_stopping w s = is_stopping (st_at w s)"

definition is_stopping_ctx :: "'mw cworld \<Rightarrow> gctx \<Rightarrow> bool" where
  "is_stopping_ctx w c =
     (case from_ctx w c of Some (Impl d s) \<Rightarrow> impl_is_stopping w s | _ \<Rightarrow> False)"

text \<open>The one-line methods: \<open>Len\<close>, \<open>Done\<close>, \<open>Err\<close> and \<open>Deadline\<close>; \<open>dl\<close> gives the deadline of a foreign context.\<close>

definition impl_len :: "'mw cworld \<Rightarrow> sid \<Rightarrow> int" where
  "impl_len w s = len_of (st_at w s)"

definition impl_done :: "'mw cworld \<Rightarrow> ext \<Rightarrow> gctx \<Rightarrow> bool" where
  "impl_done w ext delegate = ctx_done w ext delegate"

definition impl_err :: "'mw cworld \<Rightarrow> ext \<Rightarrow> gctx \<Rightarrow> goerr option" where
  "impl_err w ext delegate = ctx_err w ext delegate"

definition impl_stopping :: "'mw cworld \<Rightarrow> sid \<Rightarrow> bool" where
  "impl_stopping w s = stopping_closed (st_at w s)"

fun ctx_deadline :: "(nat \<Rightarrow> int option) \<Rightarrow> gctx \<Rightarrow> int option" where
  "ctx_deadline dl Background = None"
| "ctx_deadline dl (WithValue c k v) = ctx_deadline dl c"
| "ctx_deadline dl (CancelCtx c s) = ctx_deadline dl c"
| "ctx_deadline dl (ExtCtx c n) = (case dl n of Some t \<Rightarrow> Some t | None \<Rightarrow> ctx_deadline dl c)"
| "ctx_deadline dl (Impl d s) = ctx_deadline dl d"
| "ctx_deadline dl (StoppingCtx d s) = ctx_deadline dl d"

definition impl_deadline :: "(nat \<Rightarrow> int option) \<Rightarrow> gctx \<Rightarrow> int option" where
  "impl_deadline dl delegate = ctx_deadline dl delegate"

lemma impl_facade:
  "ctx_done w ext (Impl d s) = impl_done w ext d" "ctx_err w ext (Impl d s) = impl_err w ext d"
  "ctx_done w ext (StoppingCtx d s) = impl_stopping w s" "ctx_deadline dl (Impl d s) = impl_deadline dl d"
  by (simp_all add: impl_done_def impl_err_def impl_stopping_def impl_deadline_def)

definition impl_string :: "'mw cworld \<Rightarrow> sid \<Rightarrow> string" where
  "impl_string w s =
     cfg_name (config_at w s) @ '': ('' @ nat_str (nat (impl_len w s)) @ '' tasks) (''
     @ nat_str (length (errors_of (st_at w s))) @ '' errors) (stopping=''
     @ (if is_stopping (st_at w s) then ''true'' else ''false'') @ '')''"

text \<open>
  \<open>WaitCtx\<close>: the value of each case of the select, and the select; \<open>first\<close> is the choice when both are
  ready, and \<open>None\<close> is a call that blocks.
\<close>

definition wait_stopped :: "'mw cworld \<Rightarrow> ext \<Rightarrow> gctx \<Rightarrow> sid \<Rightarrow> goerr option" where
  "wait_stopped w ext d s =
     (let err = errors_join (map Some (errors_of (st_at w s))) in
      if errors_is_opt (ctx_cause w ext (Impl d s)) ErrGracePeriodExpired
      then errors_join [err, Some ErrGracePeriodExpired] else err)"

definition wait_interrupted :: "'mw cworld \<Rightarrow> ext \<Rightarrow> sid \<Rightarrow> gctx \<Rightarrow> goerr option" where
  "wait_interrupted w ext s c = errors_join (map Some (errors_of (st_at w s)) @ [ctx_err w ext c])"

definition wait_ctx :: "'mw cworld \<Rightarrow> ext \<Rightarrow> bool \<Rightarrow> gctx \<Rightarrow> sid \<Rightarrow> gctx \<Rightarrow> goerr option option" where
  "wait_ctx w ext first d s c =
     (if ctx_done w ext (Impl d s) \<and> (first \<or> \<not> ctx_done w ext c) then Some (wait_stopped w ext d s)
      else if ctx_done w ext c then Some (wait_interrupted w ext s c)
      else None)"

section \<open>Lookup through layers\<close>

text \<open>
  What other code puts around a stopper context: values under keys of its own, cancellation, and
  delegation. The keys of the package are unexported, except \<open>Key\<close>, which is for mocks.
\<close>

datatype layer = LValue nat gval | LExt nat | LTask nat | LTrace string

fun add_layer :: "layer \<Rightarrow> gctx \<Rightarrow> gctx" where
  "add_layer (LValue n v) c = WithValue c (KeyUser n) v"
| "add_layer (LExt n) c = ExtCtx c n"
| "add_layer (LTask t) c = WithValue c KeyTaskInfo (VTaskInfo t)"
| "add_layer (LTrace n) c = trace_task c n"

definition layered :: "layer list \<Rightarrow> gctx \<Rightarrow> gctx" where
  "layered ls c = foldr add_layer ls c"

lemma layered_value:
  "k \<in> {KeyStopper, KeyImpl, KeyTaskGroup} \<Longrightarrow> ctx_value w (layered ls c) k = ctx_value w c k"
proof (induction ls)
  case Nil
  then show ?case by (simp add: layered_def)
next
  case (Cons l ls)
  then show ?case by (cases l) (auto simp: layered_def trace_task_def)
qed

text \<open>A closed \<open>Done\<close> channel comes with an error; a context without \<open>StoppingContext\<close> the converse.\<close>

lemma errCanceledStopped_eq: "errCanceledStopped = Some (JoinError [CtxCanceled, ErrStopped])"
  by (simp add: errCanceledStopped_def errors_join_def)

fun plain_ctx :: "gctx \<Rightarrow> bool" where
  "plain_ctx (StoppingCtx d s) = False"
| "plain_ctx (Impl d s) = plain_ctx d"
| "plain_ctx (WithValue c k v) = plain_ctx c"
| "plain_ctx (CancelCtx c s) = plain_ctx c"
| "plain_ctx (ExtCtx c n) = plain_ctx c"
| "plain_ctx Background = True"

lemma ctx_done_err: "plain_ctx c \<Longrightarrow> ctx_err w ext c \<noteq> None \<longleftrightarrow> ctx_done w ext c"
  by (induction c rule: plain_ctx.induct) (auto split: option.splits)

lemma in_join: "Some e \<in> set es \<Longrightarrow> errors_is_opt (errors_join es) e"
proof -
  assume "Some e \<in> set es"
  then have "e \<in> set (non_nil es)" by (simp add: set_non_nil)
  then show ?thesis
    by (auto simp: errors_join_def Let_def errors_is_opt_def errors_is_Join intro: errors_is_refl)
qed

lemma in_join_nested: "Some x \<in> set es \<Longrightarrow> errors_is x e \<Longrightarrow> errors_is_opt (errors_join es) e"
proof -
  assume "Some x \<in> set es" "errors_is x e"
  then have "x \<in> set (non_nil es)" by (simp add: set_non_nil)
  with \<open>errors_is x e\<close> show ?thesis
    by (auto simp: errors_join_def Let_def errors_is_opt_def errors_is_Join)
qed

section \<open>Properties\<close>

text \<open>
  \<open>From\<close> recovers the innermost stopper context through any stack of values, traces and foreign
  cancellation, through \<open>WithDelegate\<close> and from a \<open>StoppingContext\<close>; a context built on such a stack is
  a child of that stopper's state.
\<close>

theorem from_finds_innermost:
  "from_ctx w (layered ls (Impl d s)) = Some (Impl d s)
   \<and> from_ctx w (layered ls (stopping_context (Impl d s))) = Some (Impl d s)
   \<and> from_ctx w (with_delegate (Impl d s) (layered ls (Impl d s)))
       = Some (Impl (layered ls (Impl d s)) s)
   \<and> parent_state w (layered ls (Impl d s)) = Some s
   \<and> parent_state w (layered ls (stopping_context (Impl d s))) = Some s
   \<and> task_group_from w (layered ls (Impl d s)) = Some (cfg_group (config_at w s))
   \<and> from_ctx w (layered ls Background) = None \<and> parent_state w (layered ls Background) = None"
  by (simp add: from_ctx_def parent_state_def task_group_from_def layered_value impl_value_def
      stopping_context_def with_delegate_def)

text \<open>
  \<open>StoppingContext\<close> keeps the contract of its documentation: once the stopper is stopping, \<open>Done\<close> is
  closed and \<open>Err\<close> is both \<open>context.Canceled\<close> and \<open>ErrStopped\<close>; before that \<open>Done\<close> is open and \<open>Err\<close> is
  that of the stopper context.
\<close>

theorem stopping_context_spec:
  assumes "wf_state (st_at w s)"
  shows "let c = stopping_context (Impl d s) in
    (is_stopping (st_at w s) \<longleftrightarrow> ctx_done w ext c)
    \<and> (ctx_done w ext c \<longrightarrow>
        errors_is_opt (ctx_err w ext c) CtxCanceled \<and> errors_is_opt (ctx_err w ext c) ErrStopped)
    \<and> (\<not> ctx_done w ext c \<longrightarrow> ctx_err w ext c = ctx_err w ext (Impl d s))
    \<and> ctx_cause w ext c = ctx_cause w ext (Impl d s)"
  using assms
  by (auto simp: stopping_context_def errCanceledStopped_eq errors_is_simps is_stopping_def
      wf_state_def wf_core_def)

theorem stopping_context_spec_witness:
  "errors_is_opt (ctx_err (\<lparr>sh_heap = [(new_state (Cleanup 0) (zero_config :: nat config) None)
        \<lparr>mu_stopping := True, stopping_closed := True, mu_cancel := None\<rparr>],
      sh_cause = [None], sh_now = 0, sh_trace = []\<rparr>) (\<lambda>_. None)
    (stopping_context (Impl Background 0))) ErrStopped"
proof -
  let ?w = "\<lparr>sh_heap = [(new_state (Cleanup 0) (zero_config :: nat config) None)
        \<lparr>mu_stopping := True, stopping_closed := True, mu_cancel := None\<rparr>],
      sh_cause = [None], sh_now = 0, sh_trace = []\<rparr>"
  have "wf_state (st_at ?w 0)"
    by (simp add: new_state_def wf_state_def wf_core_def wf_timers_def)
  from stopping_context_spec [OF this, of Background "\<lambda>_. None"] show ?thesis
    by (simp add: Let_def is_stopping_def)
qed

lemma new_context_Some:
  assumes "\<And>p. parent_state w c = Some p \<Longrightarrow> sanitized (config_at w p)"
  obtains cfg gr where "sanitized cfg" and "cfg_gracePeriod cfg = Some gr" and "new_context caller fresh c partial w
    = Some (alloc_state cfg (parent_state w c) w,
        Impl (CancelCtx (trace_task c (cfg_name cfg)) (length (sh_heap w))) (length (sh_heap w)),
        case parent_state w c of None \<Rightarrow> []
        | Some p \<Rightarrow> [FHook p (length (sh_heap w)) (StopImpl (length (sh_heap w)) gr)])"
proof -
  have "case map_option (config_at w) (parent_state w c) of None \<Rightarrow> True | Some q \<Rightarrow> sanitized q"
    using assms by (cases "parent_state w c") auto
  from new_config_child [OF this, of caller partial fresh] obtain cfg0 where
    n: "new_config caller (map_option (config_at w) (parent_state w c)) partial = Some cfg0"
      "sanitized (fst (new_group fresh cfg0))"
    by blast
  obtain cfg grp where g: "new_group fresh cfg0 = (cfg, grp)" by fastforce
  then have san: "sanitized cfg" using n(2) by simp
  then obtain gr where gr: "cfg_gracePeriod cfg = Some gr" by (auto simp: sanitized_def)
  show thesis by (rule that [OF san gr]) (use n(1) g gr in \<open>simp add: new_context_def Let_def\<close>)
qed

text \<open>
  C19: \<open>newContext\<close> never fails on managed contexts (whose configurations are sanitized), and what it
  does is exactly one step of the interleaved machine by the goroutine that calls it: a fresh idle
  state under the nearest managed state, with a sanitized configuration, and the registration of
  its stop hook at that parent. \<open>From\<close> of the new context is the new context.
\<close>

theorem new_context_refines:
  assumes "i < length P" and "P ! i = FUser # k"
    and "\<And>p. parent_state w c = Some p \<Longrightarrow> p < length (sh_heap w) \<and> sanitized (config_at w p)"
  shows "\<exists>w' ctx fs. new_context caller fresh c partial w = Some (w', ctx, fs)
    \<and> gstep (w, P) (w', P[i := fs @ FUser # k])
    \<and> parent_state w' ctx = Some (length (sh_heap w)) \<and> from_ctx w' ctx = Some ctx
    \<and> st_parent (st_at w' (length (sh_heap w))) = parent_state w c
    \<and> sanitized (config_at w' (length (sh_heap w)))"
proof -
  let ?p = "parent_state w c" and ?n = "length (sh_heap w)"
  obtain cfg gr where san: "sanitized cfg" and n0: "new_context caller fresh c partial w
    = Some (alloc_state cfg ?p w, Impl (CancelCtx (trace_task c (cfg_name cfg)) ?n) ?n,
        case ?p of None \<Rightarrow> [] | Some p \<Rightarrow> [FHook p ?n (StopImpl ?n gr)])"
    using assms(3) by (blast intro: new_context_Some)
  let ?w = "alloc_state cfg ?p w" and ?ctx = "Impl (CancelCtx (trace_task c (cfg_name cfg)) ?n) ?n"
  let ?fs = "case ?p of None \<Rightarrow> [] | Some p \<Rightarrow> [FHook p ?n (StopImpl ?n gr)]"
  have nc: "new_context caller fresh c partial w = Some (?w, ?ctx, ?fs)" using n0 .
  have "gstep (w, P) (?w, P[i := ?fs @ FUser # k])"
  proof (cases ?p)
    case None
    have "P[i := FUser # k] = P" using assms(1,2) by (metis list_update_id)
    with None gstep.user_root [OF assms(1,2), where cfg = cfg and w = w] show ?thesis by simp
  next
    case (Some p)
    with gstep.user_child [OF assms(1,2), where p = p and w = w and cfg = cfg and g = gr] assms(3) show ?thesis by simp
  qed
  with nc san show ?thesis
    by (auto simp: parent_state_def from_ctx_def impl_value_def alloc_state_def nth_append
        new_state_def config_at_def config_of_def)
qed

theorem new_context_refines_witness:
  "\<exists>w' ctx fs. new_context no_caller 0 Background (zero_config :: nat config) (fst init_conf) = Some (w', ctx, fs)
    \<and> parent_state w' ctx = Some 0"
proof -
  have "parent_state (fst init_conf :: nat cworld) Background = None" by (simp add: parent_state_def)
  from new_context_refines [of 0 "[[FUser]]" "[]" "fst init_conf" Background no_caller 0
      "zero_config :: nat config"] this
  show ?thesis by (auto simp: init_conf_def)
qed

lemma wait_stopped_spec:
  assumes "errors_is_opt (ctx_cause w ext (Impl d s)) ErrGracePeriodExpired = expired"
  shows "(\<forall>e\<in>set (errors_of (st_at w s)). errors_is_opt (wait_stopped w ext d s) e)
      \<and> (expired \<longrightarrow> errors_is_opt (wait_stopped w ext d s) ErrGracePeriodExpired)
      \<and> (wait_stopped w ext d s = None \<longleftrightarrow> errors_of (st_at w s) = [] \<and> \<not> expired)"
proof (cases expired)
  case True
  have g: "wait_stopped w ext d s = errors_join [errors_join (map Some (errors_of (st_at w s))), Some ErrGracePeriodExpired]"
    using True assms by (simp add: wait_stopped_def Let_def)
  have "errors_is_opt (wait_stopped w ext d s) e" if "e \<in> set (errors_of (st_at w s))" for e
  proof -
    have "errors_is_opt (errors_join (map Some (errors_of (st_at w s)))) e" using that by (intro in_join) auto
    then obtain x where "errors_join (map Some (errors_of (st_at w s))) = Some x" "errors_is x e"
      by (auto simp: errors_is_opt_def split: option.splits)
    then show ?thesis unfolding g by (intro in_join_nested [of x]) auto
  qed
  moreover have "errors_is_opt (wait_stopped w ext d s) ErrGracePeriodExpired"
    unfolding g by (rule in_join) simp
  ultimately show ?thesis using True g by (auto simp: errors_join_None_iff)
next
  case False
  then have "wait_stopped w ext d s = errors_join (map Some (errors_of (st_at w s)))"
    using assms by (simp add: wait_stopped_def Let_def)
  with False show ?thesis by (auto simp: errors_join_None_iff intro!: in_join)
qed

text \<open>
  \<open>Wait\<close> and \<open>WaitCtx\<close>: the call returns exactly when the context is done or the argument is; its
  error then contains every error collected so far, the expired grace period if that is why the
  context was canceled, and the argument's error if the argument interrupted it; it is nil only
  when there is none of these.
\<close>

theorem wait_ctx_spec:
  assumes "plain_ctx c" and "errors_is_opt (ctx_cause w ext (Impl d s)) ErrGracePeriodExpired = expired"
  shows "case wait_ctx w ext first d s c of
      None \<Rightarrow> \<not> ctx_done w ext (Impl d s) \<and> \<not> ctx_done w ext c
    | Some r \<Rightarrow> (\<forall>e\<in>set (errors_of (st_at w s)). errors_is_opt r e)
        \<and> (ctx_done w ext (Impl d s) \<and> \<not> ctx_done w ext c \<longrightarrow>
             (expired \<longrightarrow> errors_is_opt r ErrGracePeriodExpired)
             \<and> (r = None \<longleftrightarrow> errors_of (st_at w s) = [] \<and> \<not> expired))
        \<and> (\<not> ctx_done w ext (Impl d s) \<longrightarrow>
             (\<exists>e. ctx_err w ext c = Some e \<and> errors_is_opt r e))"
proof -
  note stopped = wait_stopped_spec [OF assms(2)]
  have inter: "(\<forall>e\<in>set (errors_of (st_at w s)). errors_is_opt (wait_interrupted w ext s c) e)
      \<and> (ctx_done w ext c \<longrightarrow> (\<exists>e. ctx_err w ext c = Some e \<and> errors_is_opt (wait_interrupted w ext s c) e))"
    using ctx_done_err [OF assms(1), of w ext] by (auto simp: wait_interrupted_def intro!: in_join)
  from stopped inter show ?thesis by (auto simp: wait_ctx_def)
qed

definition stopped_world :: "nat cworld" where
  "stopped_world = \<lparr>sh_heap = [(new_state (Cleanup 0) zero_config None)
       \<lparr>mu_stopping := True, stopping_closed := True, mu_cancel := None, mu_count := 1,
        mu_errs := [OpaqueError 1 ''boom'']\<rparr>],
     sh_cause = [Some ErrGracePeriodExpired], sh_now = 0, sh_trace = []\<rparr>"

theorem wait_ctx_spec_witness:
  "\<exists>r. wait_ctx stopped_world (\<lambda>_. None) True (CancelCtx Background 0) 0 Background = Some r
     \<and> errors_is_opt r ErrGracePeriodExpired"
proof -
  have d: "ctx_done stopped_world (\<lambda>_. None) (Impl (CancelCtx Background 0) 0)"
    by (simp add: stopped_world_def own_cause_def)
  have e: "errors_is_opt (ctx_cause stopped_world (\<lambda>_. None) (Impl (CancelCtx Background 0) 0))
      ErrGracePeriodExpired = True"
    by (simp add: stopped_world_def own_cause_def errors_is_opt_def)
  from wait_ctx_spec [OF _ e, of Background True] d show ?thesis
    by (auto split: option.splits)
qed

text \<open>The exported stop options, as data.\<close>

datatype stop_choice = ChooseGrace int | ChooseIdle

fun apply_choice :: "stop_choice \<Rightarrow> stop_option" where
  "apply_choice (ChooseGrace g) = StopGracePeriod g"
| "apply_choice ChooseIdle = StopOnIdle"

fun graces :: "stop_choice list \<Rightarrow> int list" where
  "graces [] = []"
| "graces (ChooseGrace g # os) = g # graces os"
| "graces (ChooseIdle # os) = graces os"

lemma stop_options_fold:
  "fold (\<lambda>opt s. opt s) (map apply_choice os) s
     = s\<lparr>stop_gracePeriod := (if graces os = [] then stop_gracePeriod s else Some (last (graces os))),
         stop_onIdle := stop_onIdle s \<or> ChooseIdle \<in> set os\<rparr>"
proof (induction os arbitrary: s)
  case (Cons x os)
  then show ?case by (cases x) (auto simp: StopGracePeriod_def StopOnIdle_def)
qed simp

text \<open>
  The options of \<open>Stop\<close>: whatever exported options are given and in whatever order, the last
  \<open>StopGracePeriod\<close> wins over the configured grace period, \<open>StopOnIdle\<close> anywhere selects the
  idle stop, no nil grace period is dereferenced, and the call is one the machine has.
\<close>

theorem stop_options_spec:
  assumes "s < length (sh_heap w)" and "cfg_gracePeriod (config_at w s) = Some g"
  shows "\<exists>fs. impl_stop w s (map apply_choice os) = Some fs \<and> api_call w fs
    \<and> (let g' = (if graces os = [] then g else last (graces os)) in
        fs = (if ChooseIdle \<in> set os then [FStopOnIdle s g'] else [FStop s g']))"
  using assms
  by (auto simp: impl_stop_def stop_options_def stop_sanitize_def stop_options_fold Let_def
      intro: api_call.intros)

theorem stop_options_spec_witness:
  "impl_stop (alloc_state (config_sanitize (zero_config :: nat config)) None (fst init_conf)) 0
      (map apply_choice [ChooseGrace 3, ChooseIdle, ChooseGrace 4]) = Some [FStopOnIdle 0 4]"
proof -
  let ?w = "alloc_state (config_sanitize (zero_config :: nat config)) None (fst init_conf)"
  have "0 < length (sh_heap ?w)" by (simp add: alloc_state_def)
  moreover have "cfg_gracePeriod (config_at ?w 0) = Some DefaultGracePeriod"
    by (simp add: config_at_def config_of_def alloc_state_def init_conf_def new_state_def zero_config_def)
  ultimately show ?thesis
    using stop_options_spec [of 0 ?w DefaultGracePeriod "[ChooseGrace 3, ChooseIdle, ChooseGrace 4]"]
    by auto
qed

end
