(* ===== verification/Wait_Claims.thy ===== *)
theory Wait_Claims
  imports Machine_Watch Go_Context
begin

text \<open>
  The detailed contexts of Go_Context over the goroutine machine: what \<open>Done\<close>, \<open>Err\<close> and
  \<open>context.Cause\<close> answer on a context that \<open>newContext\<close> has built agrees with the cancellation of the
  machine's tree of states, so \<open>Wait\<close> returns after a shutdown and reports what has been collected.
\<close>

section \<open>Contexts over the tree of states\<close>

text \<open>The state whose \<open>CancelCtx\<close> is the nearest cancelable context of the stopper below \<open>c\<close>.\<close>

fun ctx_base :: "gctx \<Rightarrow> sid option" where
  "ctx_base Background = None"
| "ctx_base (WithValue c k v) = ctx_base c"
| "ctx_base (CancelCtx c s) = Some s"
| "ctx_base (ExtCtx c n) = ctx_base c"
| "ctx_base (Impl d s) = ctx_base d"
| "ctx_base (StoppingCtx d s) = ctx_base d"

text \<open>
  A context is aligned with the tree if the states below it are the states' own chain of parents and
  nobody has put another value under an unexported key. A \<open>CancelCtx\<close> is only seen inside its stopper.
\<close>

definition below :: "'mw cworld \<Rightarrow> gctx \<Rightarrow> sid \<Rightarrow> bool" where
  "below w c s \<longleftrightarrow> s < length (sh_heap w) \<and> st_parent (st_at w s) = ctx_base c"

fun aligned :: "'mw cworld \<Rightarrow> gctx \<Rightarrow> bool" where
  "aligned w Background \<longleftrightarrow> True"
| "aligned w (WithValue c k v) \<longleftrightarrow> k \<noteq> KeyImpl \<and> k \<noteq> KeyStopper \<and> aligned w c"
| "aligned w (CancelCtx c s) \<longleftrightarrow> False"
| "aligned w (ExtCtx c n) \<longleftrightarrow> aligned w c"
| "aligned w (StoppingCtx d s) \<longleftrightarrow> False"
| "aligned w (Impl (CancelCtx c t) s) \<longleftrightarrow> t = s \<and> below w c s \<and> aligned w c"
| "aligned w (Impl d s) \<longleftrightarrow> ctx_base d = Some s \<and> aligned w d"

text \<open>Without outside cancellation, the cause of a context is that of its state.\<close>

lemma own_then_parent:
  assumes "wf_heap w" and "below w c s"
  shows "context_cause w s = (case own_cause w s of Some e \<Rightarrow> Some e
      | None \<Rightarrow> (case ctx_base c of None \<Rightarrow> None | Some q \<Rightarrow> context_cause w q))"
proof -
  have "length (sh_cause w) = length (sh_heap w)" "wf_parents (parents w)"
    using assms(1) by (simp_all add: wf_heap_def)
  with assms(2) wf_parentsD [of "parents w" s] show ?thesis
    by (subst context_cause_def, subst eff_cause.simps)
      (auto simp: context_cause_def own_cause_def below_def split: option.splits)
qed

lemma aligned_cause:
  assumes "\<And>n. ext n = None"
  shows "wf_heap w \<Longrightarrow> aligned w c \<Longrightarrow>
    ctx_cause w ext c = (case ctx_base c of None \<Rightarrow> None | Some s \<Rightarrow> context_cause w s)"
proof (induction w c rule: aligned.induct)
  case (6 w c t s)
  with own_then_parent [of w c s] show ?case by (simp split: option.splits)
qed (use assms in \<open>auto split: option.splits\<close>)

lemma aligned_done:
  assumes "\<And>n. ext n = None"
  shows "aligned w c \<Longrightarrow> ctx_done w ext c \<longleftrightarrow> ctx_cause w ext c \<noteq> None"
  by (induction w c rule: aligned.induct) (use assms in \<open>auto split: option.splits\<close>)

text \<open>What \<open>newContext\<close> builds is aligned, and a context stays so.\<close>

lemma aligned_parent: "aligned w c \<Longrightarrow> parent_state w c = ctx_base c"
  by (induction w c rule: aligned.induct) (auto simp: parent_state_def impl_value_def split: option.splits)

lemma aligned_alloc: "aligned w c \<Longrightarrow> aligned (alloc_state cfg p w) c"
  by (induction w c rule: aligned.induct) (auto simp: below_def alloc_state_def nth_append)

lemma new_context_aligned:
  assumes "aligned w c" and "new_context caller fresh c partial w = Some (w', ctx, fs)"
  shows "aligned w' ctx \<and> ctx_base ctx = Some (length (sh_heap w))"
proof -
  obtain cfg name where w: "w' = alloc_state cfg (ctx_base c) w"
    and ctx: "ctx = Impl (CancelCtx (trace_task c name) (length (sh_heap w))) (length (sh_heap w))"
    using assms(2) aligned_parent [OF assms(1)]
    by (auto simp: new_context_def Let_def split: option.splits prod.splits)
  have "below w' (trace_task c name) (length (sh_heap w))"
    by (simp add: below_def w alloc_state_def trace_task_def nth_append new_state_def)
  with aligned_alloc [OF assms(1), of cfg "ctx_base c"] show ?thesis
    by (simp add: ctx w trace_task_def)
qed

text \<open>
  With its watcher, \<open>newContext\<close> is one step of the program: the watcher that is about to be registered
  calls \<open>Stop\<close> with the grace period of the new context's configuration.
\<close>

lemma new_context_watched:
  assumes "i < length P" and "P ! i = FUser # k"
    and "\<And>p. parent_state w c = Some p \<Longrightarrow> p < length (sh_heap w) \<and> sanitized (config_at w p)"
  shows "\<exists>w' ctx fs g. new_context caller fresh c partial w = Some (w', ctx, fs)
    \<and> cfg_gracePeriod (config_at w' (length (sh_heap w))) = Some g
    \<and> wstep ((w, P), R, A) ((w', P[i := fs @ FUser # k]), (length (sh_heap w), g) # R, A)"
proof -
  let ?p = "parent_state w c" and ?n = "length (sh_heap w)"
  obtain cfg gr where gr: "cfg_gracePeriod cfg = Some gr" and n: "new_context caller fresh c partial w
    = Some (alloc_state cfg ?p w, Impl (CancelCtx (trace_task c (cfg_name cfg)) ?n) ?n,
        case ?p of None \<Rightarrow> [] | Some p \<Rightarrow> [FHook p ?n (StopImpl ?n gr)])"
    using assms(3) by (blast intro: new_context_Some)
  have "config_at (alloc_state cfg ?p w) ?n = cfg"
    by (simp add: config_at_def config_of_def alloc_state_def new_state_def nth_append)
  moreover have "wstep ((w, P), R, A) ((alloc_state cfg ?p w,
      P[i := (case ?p of None \<Rightarrow> [] | Some p \<Rightarrow> [FHook p ?n (StopImpl ?n gr)]) @ FUser # k]), (?n, gr) # R, A)"
  proof (cases ?p)
    case None
    have "P[i := FUser # k] = P" using assms(1,2) by (metis list_update_id)
    with None wstep.make_root [OF assms(1,2), of w R A cfg gr] show ?thesis by simp
  next
    case (Some p)
    with wstep.make_child [OF assms(1,2), of p w R A cfg gr] assms(3) show ?thesis by simp
  qed
  ultimately show ?thesis using n gr by auto
qed

section \<open>Property\<close>

text \<open>What \<open>errors.Is\<close> finds in the value of \<open>Wait\<close>; an error that is a join itself may be the value.\<close>

lemma wait_stopped_is:
  assumes "\<And>es. t \<noteq> JoinError es"
  shows "errors_is_opt (wait_stopped w ext d s) t \<longleftrightarrow>
    (\<exists>e\<in>set (errors_of (st_at w s)). errors_is e t)
    \<or> (t = ErrGracePeriodExpired \<and> errors_is_opt (ctx_cause w ext (Impl d s)) ErrGracePeriodExpired)"
proof -
  have "errors_is_opt (errors_join (map Some (errors_of (st_at w s)))) t
      \<longleftrightarrow> (\<exists>e\<in>set (errors_of (st_at w s)). errors_is e t)"
    unfolding errors_is_join [OF assms] by (simp add: errors_is_opt_def)
  moreover have "errors_is_opt (errors_join [x, Some ErrGracePeriodExpired]) t
      \<longleftrightarrow> errors_is_opt x t \<or> t = ErrGracePeriodExpired" for x
    unfolding errors_is_join [OF assms] by (auto simp: errors_is_opt_def errors_is_leaf)
  ultimately show ?thesis by (auto simp: wait_stopped_def Let_def)
qed

text \<open>
  C30: \<open>Wait\<close> returns after a shutdown, with exactly what has been collected. When only idle user code is
  left in a reachable configuration, and a stopper context that \<open>newContext\<close> has built (or a chain of
  such contexts with values in between) was asked to stop, \<open>Wait\<close> on it returns. Its error contains
  every error of the context. Conversely, an error that is not itself a join is found in it by \<open>errors.Is\<close> exactly
  if it is found in one of the context's errors, or it is \<open>ErrGracePeriodExpired\<close> and that is why the context,
  or one above it, was canceled; so \<open>ErrGracePeriodExpired\<close> is never reported for another cancellation unless
  somebody has added it. And the error is nil exactly if the context has no error and its grace
  period has not expired.
\<close>

theorem wait_reports:
  assumes "gstep\<^sup>*\<^sup>* init_conf (w, P)" and "\<forall>k\<in>set P. idle_stack k"
    and "is_stopping (st_at w a) \<or> is_stop_on_idle (st_at w a)"
    and "aligned w (Impl d a)" and "ctx_base d = Some a" and "a < length (sh_heap w)"
    and "\<And>n. ext n = None"
  shows "\<exists>r. wait_ctx w ext first d a Background = Some r
    \<and> (\<forall>e\<in>set (errors_of (st_at w a)). errors_is_opt r e)
    \<and> (\<forall>t. (\<forall>es. t \<noteq> JoinError es) \<longrightarrow>
         (errors_is_opt r t \<longleftrightarrow> (\<exists>e\<in>set (errors_of (st_at w a)). errors_is e t)
            \<or> (t = ErrGracePeriodExpired \<and> errors_is_opt (context_cause w a) ErrGracePeriodExpired)))
    \<and> (r = None \<longleftrightarrow> errors_of (st_at w a) = []
         \<and> \<not> errors_is_opt (context_cause w a) ErrGracePeriodExpired)"
proof -
  have inv: "shutdown_inv (w, P)" using shutdown.inv_reachable [OF refl assms(1)] .
  then have wf: "wf_heap w" by (simp add: shutdown_inv_def conf_inv_def)
  have "a \<in> set (ancs (parents w) a)" using assms(6) by (simp add: ancs_self)
  with requested_finished [OF inv assms(2,6)] assms(3) have c: "context_cause w a \<noteq> None"
    by (simp add: finished_def stop_requested_def)
  have cause: "ctx_cause w ext (Impl d a) = context_cause w a"
    using aligned_cause [of ext w "Impl d a", OF assms(7) wf assms(4)] assms(5) by simp
  then have dn: "ctx_done w ext (Impl d a)" using aligned_done [of ext w "Impl d a", OF assms(7) assms(4)] c by simp
  then have "wait_ctx w ext first d a Background = Some (wait_stopped w ext d a)" by (simp add: wait_ctx_def)
  moreover have "errors_is_opt (wait_stopped w ext d a) t \<longleftrightarrow> (\<exists>e\<in>set (errors_of (st_at w a)). errors_is e t)
      \<or> (t = ErrGracePeriodExpired \<and> errors_is_opt (context_cause w a) ErrGracePeriodExpired)"
    if "\<forall>es. t \<noteq> JoinError es" for t
    using wait_stopped_is [of t w ext d a] that cause by simp
  ultimately show ?thesis using wait_stopped_spec [of w ext d a, OF refl] cause by simp
qed

text \<open>User code makes a root context, adds an error to it and stops it.\<close>

definition boom :: goerr where
  "boom = OpaqueError 1 ''boom''"

definition failed_conf :: "nat config conf" where
  "failed_conf =
     (\<lparr>sh_heap = [(new_state (Cleanup 0) zero_config None)
          \<lparr>mu_stopping := True, stopping_closed := True, mu_cancel := None, mu_errs := [boom]\<rparr>],
       sh_cause = [Some ErrStopped], sh_now = 0, sh_trace = [EvCancel 0 ErrStopped]\<rparr>, [[FUser]])"

lemma failed_reachable: "gstep\<^sup>*\<^sup>* init_conf failed_conf"
proof -
  let ?w0 = "fst init_conf :: nat config shared"
  let ?w1 = "alloc_state zero_config None ?w0"
  let ?w2 = "put_st ?w1 0 (add_errors [Some boom] (st_at ?w1 0))"
  have len: "0 < length (sh_heap ?w1)" "0 < length (sh_heap ?w2)" by (simp_all add: alloc_state_def)
  have 1: "gstep (?w0, []) (?w0, [[FUser]])" using gstep.spawn [of ?w0 "[]"] by simp
  have 2: "gstep (?w0, [[FUser]]) (?w1, [[FUser]])" by (rule gstep.user_root [of 0]) auto
  have 3: "gstep (?w1, [[FUser]]) (?w1, [[FAddErrors 0 [Some boom], FUser]])"
    using gstep.user_call [of 0 "[[FUser]]" FUser "[]" ?w1 "[FAddErrors 0 [Some boom]]"] api_call.intros(6) [OF len(1)]
    by simp
  have 4: "run_acts [0] (?w1, [[FAddErrors 0 [Some boom], FUser]]) = Some (?w2, [[FUser]])"
    by (simp add: micro_def)
  have 5: "gstep (?w2, [[FUser]]) (?w2, [[FStop 0 5, FUser]])"
    using gstep.user_call [of 0 "[[FUser]]" FUser "[]" ?w2 "[FStop 0 5]"] api_call.intros(3) [OF len(2)] by simp
  have 6: "run_acts [0, 0, 0, 0, 0] (?w2, [[FStop 0 5, FUser]]) = Some failed_conf"
    by (simp add: failed_conf_def machine_eval add_errors_eq)
  note into = converse_rtranclp_into_rtranclp [of gstep]
  have "(?w0, []) = (init_conf :: nat config conf)" by (simp add: init_conf_def)
  with into [OF 1 into [OF 2 into [OF 3 rtranclp_trans [OF run_acts_gsteps [OF 4] into [OF 5 run_acts_gsteps [OF 6]]]]]]
  show ?thesis by (simp only:)
qed

theorem wait_reports_witness:
  "\<exists>r. wait_ctx (fst failed_conf) (\<lambda>_. None) True (CancelCtx (trace_task Background ''app'') 0) 0 Background = Some r
     \<and> errors_is_opt r boom \<and> \<not> errors_is_opt r ErrGracePeriodExpired"
proof -
  have g: "gstep\<^sup>*\<^sup>* init_conf (fst failed_conf, snd failed_conf)" using failed_reachable by simp
  have f: "\<forall>k\<in>set (snd failed_conf). idle_stack k" "is_stopping (st_at (fst failed_conf) 0)"
    "aligned (fst failed_conf) (Impl (CancelCtx (trace_task Background ''app'') 0) 0)"
    "0 < length (sh_heap (fst failed_conf))" "errors_of (st_at (fst failed_conf) 0) = [boom]"
    "context_cause (fst failed_conf) 0 = Some ErrStopped"
    by (simp_all add: failed_conf_def idle_stack_def is_stopping_def below_def trace_task_def errors_of_def
        context_cause_def eff_cause.simps)
  have e: "\<not> errors_is boom ErrGracePeriodExpired" "\<not> errors_is_opt (Some ErrStopped) ErrGracePeriodExpired"
    by (simp_all add: boom_def errors_is_opt_def errors_is_leaf)
  from wait_reports [OF g f(1) disjI1 [OF f(2)] f(3) _ f(4), of "\<lambda>_. None" True] f(5,6) e show ?thesis by auto
qed

end
