(* ===== verification/Stopper.thy ===== *)
theory Stopper
  imports Go_Context
begin

text \<open>
  stopper.go and options.go: running a task. \<open>taskInvoker\<close> with its middleware chain, \<open>Call\<close>, \<open>Go\<close> and
  the error handlers, on the world of one root context: the record holds its state, the callbacks
  its critical sections handed to \<open>callDeferred\<close> in execution order (what they do is the subject of
  Machine.thy), the task groups and infos of task_info.go, and the user's own data. User code
  (tasks, middleware, invokers, handlers) is any function on this world that returns or panics.
\<close>

record task_info =
  ti_context :: gctx
  ti_group :: gid
  ti_started :: int
  ti_name :: string
  ti_error :: "goerr option option"
  ti_done :: bool

record 's tworld =
  tw_user :: 's
  tw_st :: "unit gostate"
  tw_emitted :: "callback list"
  tw_now :: int
  tw_tasks :: "gid \<Rightarrow> nat list"
  tw_infos :: "task_info list"

type_synonym ('s, 'a) comp = "'s tworld \<Rightarrow> 's tworld \<times> 'a outcome"
type_synonym 's tfunc = "gctx \<Rightarrow> ('s, goerr option) comp"
type_synonym 's invoker = "gctx \<Rightarrow> 's tfunc \<Rightarrow> ('s, goerr option) comp"
type_synonym 's middleware = "gctx \<Rightarrow> ('s, gctx \<times> 's invoker) comp"
type_synonym 's user_handlers = "nat \<Rightarrow> gctx \<Rightarrow> goerr \<Rightarrow> ('s, unit) comp"

section \<open>The state of the root context\<close>

definition root_apply :: "int \<Rightarrow> ('s, bool) comp" where
  "root_apply delta w =
     (if delta = 0 then (w, Return False)
      else if is_stopping (tw_st w) \<and> 0 < delta then (w, Return False)
      else case apply_locked (tw_now w) delta (tw_st w) of
             Inl _ \<Rightarrow> (w, Panic (PanicOther ''over-released''))
           | Inr (st, cbs, r) \<Rightarrow>
               (w\<lparr>tw_st := st, tw_emitted := tw_emitted w @ rev cbs\<rparr>, Return r))"

definition root_add_error :: "goerr option list \<Rightarrow> 's tworld \<Rightarrow> 's tworld" where
  "root_add_error es w = w\<lparr>tw_st := add_errors es (tw_st w)\<rparr>"

definition root_stop :: "int \<Rightarrow> ('s, unit) comp" where
  "root_stop g w =
     (case stop_locked (tw_now w) g (tw_st w) of
        Inl _ \<Rightarrow> (w, Panic (PanicOther ''close of closed channel''))
      | Inr (st, cbs) \<Rightarrow>
          (w\<lparr>tw_st := st, tw_emitted := tw_emitted w @ rev cbs\<rparr>, Return ()))"

section \<open>Invokers and middleware\<close>

definition InvokerCall :: "'s invoker" where
  "InvokerCall ctx task = task ctx"

definition InvokerDrop :: "'s invoker" where
  "InvokerDrop ctx task w = (w, Return None)"

definition InvokerErr :: "goerr option \<Rightarrow> 's invoker" where
  "InvokerErr err ctx task w = (w, Return err)"

text \<open>The setup phase, in declaration order; each middleware gets the context of the one before.\<close>

fun setup_mw :: "'s middleware list \<Rightarrow> gctx \<Rightarrow> ('s, gctx \<times> 's invoker list) comp" where
  "setup_mw [] ctx w = (w, Return (ctx, []))"
| "setup_mw (mw # mws) ctx w =
     (case mw ctx w of
        (w1, Panic r) \<Rightarrow> (w1, Panic r)
      | (w1, Return (ctx1, ivk)) \<Rightarrow>
          (case setup_mw mws ctx1 w1 of
             (w2, Panic r) \<Rightarrow> (w2, Panic r)
           | (w2, Return (ctx2, invs)) \<Rightarrow> (w2, Return (ctx2, ivk # invs))))"

text \<open>The loop that builds the chain, from the last invoker up.\<close>

definition link :: "'s invoker \<Rightarrow> 's invoker \<Rightarrow> 's invoker" where
  "link ivk next ctx task = ivk ctx (\<lambda>ctx'. next ctx' task)"

fun chain_loop :: "'s invoker list \<Rightarrow> nat \<Rightarrow> 's invoker \<Rightarrow> 's invoker" where
  "chain_loop invs 0 chain = chain"
| "chain_loop invs (Suc i) chain = chain_loop invs i (link (invs ! i) chain)"

definition build_chain :: "'s invoker list \<Rightarrow> 's invoker" where
  "build_chain invs = chain_loop invs (length invs) InvokerCall"

section \<open>Error handlers\<close>

definition run_handler ::
  "'s user_handlers \<Rightarrow> int \<Rightarrow> err_handler \<Rightarrow> gctx \<Rightarrow> goerr \<Rightarrow> ('s, unit) comp" where
  "run_handler user g h ctx err w =
     (case h of
        ErrorHandlerStop \<Rightarrow> root_stop g (root_add_error [Some err] w)
      | ErrorHandlerRecord \<Rightarrow> (root_add_error [Some err] w, Return ())
      | ErrorHandlerUser n \<Rightarrow> user n ctx err w)"

section \<open>taskInvoker\<close>

definition info_start :: "gctx \<Rightarrow> gid \<Rightarrow> string \<Rightarrow> 's tworld \<Rightarrow> 's tworld \<times> nat" where
  "info_start ctx g name w =
     (let tid = length (tw_infos w);
          ti = \<lparr>ti_context = ctx, ti_group = g, ti_started = tw_now w, ti_name = name,
                ti_error = None, ti_done = False\<rparr>
      in (w\<lparr>tw_infos := tw_infos w @ [ti], tw_tasks := (tw_tasks w)(g := tw_tasks w g @ [tid])\<rparr>, tid))"

definition info_store :: "nat option \<Rightarrow> goerr option \<Rightarrow> 's tworld \<Rightarrow> 's tworld" where
  "info_store info err w =
     (case info of
        None \<Rightarrow> w
      | Some t \<Rightarrow> w\<lparr>tw_infos := (tw_infos w)[t := (tw_infos w ! t)\<lparr>ti_error := Some err\<rparr>]\<rparr>)"

text \<open>The deferred statements: close the done channel, then leave the group.\<close>

definition info_end :: "nat option \<Rightarrow> gid option \<Rightarrow> 's tworld \<Rightarrow> 's tworld" where
  "info_end info grp w =
     (case (info, grp) of
        (Some t, Some g) \<Rightarrow>
          w\<lparr>tw_infos := (tw_infos w)[t := (tw_infos w ! t)\<lparr>ti_done := True\<rparr>],
            tw_tasks := (tw_tasks w)(g := filter (\<lambda>x. x \<noteq> t) (tw_tasks w g))\<rparr>
      | _ \<Rightarrow> w)"

definition decorate :: "string \<Rightarrow> goerr option \<Rightarrow> goerr option" where
  "decorate name err =
     (case err of
        None \<Rightarrow> None
      | Some e \<Rightarrow> if name \<noteq> '''' then Some (WrapError name e) else Some e)"

record 's invocation =
  iv_pcs :: "rt_frame list"
  iv_handlers :: "'s user_handlers"
  iv_grace :: int
  iv_ctx :: gctx
  iv_chain :: "'s invoker"
  iv_name :: string
  iv_handler :: err_handler
  iv_group :: "gid option"
  iv_info :: "nat option"

text \<open>The function that \<open>taskInvoker\<close> returns.\<close>

definition task_body :: "'s invocation \<Rightarrow> bool \<Rightarrow> 's tfunc \<Rightarrow> ('s, goerr option) comp" where
  "task_body iv returnErr task w =
     (let (w1, err0) = call_e (iv_pcs iv) (iv_chain iv (iv_ctx iv) task) w;
          err = decorate (iv_name iv) err0;
          w2 = info_store (iv_info iv) err w1
      in if err = None \<or> returnErr then (info_end (iv_info iv) (iv_group iv) w2, Return err)
         else case run_handler (iv_handlers iv) (iv_grace iv) (iv_handler iv) (iv_ctx iv) (the err) w2 of
                (w3, Panic r) \<Rightarrow> (info_end (iv_info iv) (iv_group iv) w3, Panic r)
              | (w3, Return _) \<Rightarrow> (info_end (iv_info iv) (iv_group iv) w3, Return None))"

record 's env =
  en_caller :: caller
  en_pcs :: "rt_frame list"
  en_handlers :: "'s user_handlers"

definition task_invoker ::
  "'s env \<Rightarrow> 's middleware config \<Rightarrow> gctx \<Rightarrow> 's middleware task_option list \<Rightarrow> ('s, 's invocation) comp" where
  "task_invoker en cfg c opts w =
     (let taskCfg = apply_task_opts (en_caller en) (cfg_taskOpts cfg) opts;
          c1 = with_delegate c (trace_task c (task_name taskCfg));
          (w1, info, c2) =
            (case cfg_group cfg of
               None \<Rightarrow> (w, None, c1)
             | Some g \<Rightarrow>
                 (case info_start c g (task_name taskCfg) w of
                    (w', tid) \<Rightarrow>
                      (w', Some tid, with_delegate c1 (WithValue c1 KeyTaskInfo (VTaskInfo tid)))))
      in case setup_mw (task_mw taskCfg) c2 w1 of
           (w2, Panic r) \<Rightarrow> (w2, Panic r)
         | (w2, Return (c3, invokers)) \<Rightarrow>
             (w2, Return
               \<lparr>iv_pcs = en_pcs en, iv_handlers = en_handlers en,
                iv_grace = (case cfg_gracePeriod cfg of None \<Rightarrow> DefaultGracePeriod | Some g \<Rightarrow> g),
                iv_ctx = c3, iv_chain = build_chain invokers, iv_name = task_name taskCfg,
                iv_handler = (case errHandler taskCfg of None \<Rightarrow> ErrorHandlerStop | Some h \<Rightarrow> h),
                iv_group = cfg_group cfg, iv_info = info\<rparr>))"

section \<open>Call and Go\<close>

text \<open>A Go \<open>defer\<close> of \<open>Apply(-1)\<close> around an outcome.\<close>

definition deferred_release :: "'s tworld \<times> 'a outcome \<Rightarrow> 's tworld \<times> 'a outcome" where
  "deferred_release r =
     (case r of (w, out) \<Rightarrow>
        (case root_apply (- 1) w of
           (w', Panic p) \<Rightarrow> (w', Panic p)
         | (w', Return _) \<Rightarrow> (w', out)))"

definition impl_call ::
  "'s env \<Rightarrow> 's middleware config \<Rightarrow> gctx \<Rightarrow> 's tfunc \<Rightarrow> 's middleware task_option list
     \<Rightarrow> ('s, goerr option) comp" where
  "impl_call en cfg c fn opts w =
     (case root_apply 1 w of
        (w1, Panic r) \<Rightarrow> (w1, Panic r)
      | (w1, Return False) \<Rightarrow> (w1, Return (Some ErrStopped))
      | (w1, Return True) \<Rightarrow>
          deferred_release
            (case task_invoker en cfg c opts w1 of
               (w2, Panic r) \<Rightarrow> (w2, Panic r)
             | (w2, Return iv) \<Rightarrow> task_body iv True fn w2))"

text \<open>\<open>Go\<close> returns its error and the goroutine it starts, if any.\<close>

definition goroutine :: "'s invocation \<Rightarrow> 's tfunc \<Rightarrow> ('s, unit) comp" where
  "goroutine iv fn w =
     deferred_release
       (case task_body iv False fn w of
          (w1, Panic r) \<Rightarrow> (w1, Panic r)
        | (w1, Return _) \<Rightarrow> (w1, Return ()))"

definition impl_go ::
  "'s env \<Rightarrow> 's middleware config \<Rightarrow> gctx \<Rightarrow> 's tfunc \<Rightarrow> 's middleware task_option list
     \<Rightarrow> ('s, goerr option \<times> ('s, unit) comp option) comp" where
  "impl_go en cfg c fn opts w =
     (case root_apply 1 w of
        (w1, Panic r) \<Rightarrow> (w1, Panic r)
      | (w1, Return False) \<Rightarrow> (w1, Return (Some ErrStopped, None))
      | (w1, Return True) \<Rightarrow>
          (case task_invoker en cfg c opts w1 of
             (w2, Panic r) \<Rightarrow> (w2, Panic r)
           | (w2, Return iv) \<Rightarrow> (w2, Return (None, Some (goroutine iv fn)))))"

section \<open>The chain\<close>

lemma chain_loop_foldr:
  "i \<le> length invs \<Longrightarrow> chain_loop invs i chain = foldr link (take i invs) chain"
proof (induction i arbitrary: chain)
  case (Suc i)
  then show ?case by (simp add: take_Suc_conv_app_nth)
qed simp

lemma build_chain_foldr: "build_chain invs = foldr link invs InvokerCall"
  by (simp only: build_chain_def chain_loop_foldr [OF order_refl] take_all [OF order_refl])

lemma build_chain_simps [simp]:
  "build_chain [] = InvokerCall"
  "build_chain (ivk # invs) = link ivk (build_chain invs)"
  by (simp_all add: build_chain_foldr)

text \<open>An invoker that does some work, calls its task, and works on the result.\<close>

definition around ::
  "('s tworld \<Rightarrow> 's tworld) \<Rightarrow> ('s tworld \<times> goerr option outcome \<Rightarrow> 's tworld \<times> goerr option outcome)
     \<Rightarrow> 's invoker" where
  "around pre post ctx task w = post (task ctx (pre w))"

lemma chain_around:
  "build_chain (map (\<lambda>(pre, post). around pre post) hs) ctx task w
     = foldr (\<lambda>(pre, post) r. post r) hs (task ctx (fold (\<lambda>(pre, post) w. pre w) hs w))"
proof (induction hs arbitrary: w)
  case Nil
  then show ?case by (simp add: InvokerCall_def)
next
  case (Cons h hs)
  obtain pre post where "h = (pre, post)" by fastforce
  with Cons show ?case by (simp add: link_def around_def)
qed

lemma chain_append:
  "build_chain (invs @ invs') ctx task = build_chain invs ctx (\<lambda>c. build_chain invs' c task)"
proof (induction invs arbitrary: ctx)
  case (Cons ivk invs)
  then show ?case by (simp add: link_def)
qed (simp add: InvokerCall_def)

text \<open>An invoker that never looks at its task cuts the chain.\<close>

lemma chain_cut:
  assumes "\<And>ctx t t'. ivk ctx t = ivk ctx t'"
  shows "build_chain (invs @ ivk # invs') ctx task = build_chain (invs @ [ivk]) ctx task'"
proof -
  have c: "(\<lambda>c. build_chain (ivk # invs') c task) = (\<lambda>c. build_chain [ivk] c task')"
    by (rule ext) (simp add: link_def assms)
  have "build_chain (invs @ ivk # invs') ctx task = build_chain invs ctx (\<lambda>c. build_chain (ivk # invs') c task)"
    by (rule chain_append)
  also have "\<dots> = build_chain invs ctx (\<lambda>c. build_chain [ivk] c task')" by (simp only: c)
  also have "\<dots> = build_chain (invs @ [ivk]) ctx task'" by (rule chain_append [symmetric])
  finally show ?thesis .
qed

section \<open>The count\<close>

definition tw_ok :: "'s tworld \<Rightarrow> bool" where
  "tw_ok w \<longleftrightarrow> wf_state (tw_st w) \<and> st_parent (tw_st w) = None"

definition tw_len :: "'s tworld \<Rightarrow> int" where
  "tw_len w = len_of (tw_st w)"

text \<open>\<open>Apply(1)\<close> and \<open>Apply(-1)\<close> as a pair.\<close>

definition take_task :: "'s tworld \<Rightarrow> 's tworld \<times> bool" where
  "take_task w = (case root_apply 1 w of (w', Return b) \<Rightarrow> (w', b) | (w', Panic r) \<Rightarrow> (w', False))"

definition end_task :: "'s tworld \<Rightarrow> 's tworld" where
  "end_task w = fst (root_apply (- 1) w)"

lemma root_apply_up:
  assumes "wf_state (tw_st w)"
  shows "root_apply 1 w = (if is_stopping (tw_st w) then (w, Return False)
    else (w\<lparr>tw_st := (tw_st w)\<lparr>mu_count := mu_count (tw_st w) + 1\<rparr>\<rparr>, Return True))"
proof (cases "is_stopping (tw_st w)")
  case True
  then show ?thesis by (simp add: root_apply_def)
next
  case False
  have "0 \<le> mu_count (tw_st w)" using assms by (simp add: wf_state_def wf_core_def)
  with False have "apply_locked (tw_now w) 1 (tw_st w)
      = Inr ((tw_st w)\<lparr>mu_count := mu_count (tw_st w) + 1\<rparr>, [], True)"
    by (simp add: apply_locked_def is_stopping_def Let_def)
  with False show ?thesis by (simp add: root_apply_def)
qed

lemma root_apply_down:
  assumes "tw_ok w" and "0 < tw_len w"
  shows "\<exists>w'. root_apply (- 1) w = (w', Return True) \<and> tw_ok w' \<and> tw_len w' = tw_len w - 1
    \<and> tw_infos w' = tw_infos w \<and> tw_tasks w' = tw_tasks w \<and> tw_user w' = tw_user w
    \<and> mu_errs (tw_st w') = mu_errs (tw_st w)"
proof -
  have wf: "wf_state (tw_st w)" "st_parent (tw_st w) = None" using assms(1) by (simp_all add: tw_ok_def)
  note core = wf_state_core [OF wf(1)]
  have "\<not> (\<exists>c. apply_locked (tw_now w) (- 1) (tw_st w) = Inl c)"
    unfolding apply_locked_crash_iff [OF core] using assms(2) by (simp add: tw_len_def len_of_def)
  then obtain st cbs r where a: "apply_locked (tw_now w) (- 1) (tw_st w) = Inr (st, cbs, r)"
    by (metis old.sum.exhaust prod_cases3)
  note res = apply_locked_result [OF core a]
  from res(1) have "r" by simp
  with a res wf apply_locked_wf [OF wf(1) a] show ?thesis
    by (auto simp: root_apply_def tw_ok_def tw_len_def len_of_def)
qed

lemma wf_count_up:
  assumes "wf_state st" and "\<not> mu_stopping st"
  shows "wf_state (st\<lparr>mu_count := mu_count st + 1\<rparr>)"
proof -
  have "0 \<le> mu_count st" using assms(1) by (simp add: wf_state_def wf_core_def)
  then have "wf_core (st\<lparr>mu_count := mu_count st + 1\<rparr>)"
    using wf_core_count [OF wf_state_core [OF assms(1)]] by simp
  with assms(2) \<open>0 \<le> mu_count st\<close> show ?thesis by (simp add: wf_state_def)
qed

interpretation tasks: counted_resource take_task end_task tw_len tw_ok
proof unfold_locales
  fix w w' :: "'s tworld"
  show "take_task w = (w', False) \<Longrightarrow> w' = w"
    by (auto simp: take_task_def root_apply_def split: if_splits sum.splits outcome.splits prod.splits)
      (auto simp: apply_locked_def is_stopping_def Let_def
        split: if_splits option.splits prod.splits sum.splits)
  show "tw_ok w \<Longrightarrow> take_task w = (w', True) \<Longrightarrow> tw_ok w' \<and> tw_len w' = tw_len w + 1"
    using wf_count_up [of "tw_st w"]
    by (auto simp: take_task_def root_apply_up tw_ok_def tw_len_def len_of_def is_stopping_def
        split: if_splits)
  show "tw_ok w \<Longrightarrow> 0 < tw_len w \<Longrightarrow> tw_ok (end_task w) \<and> tw_len (end_task w) = tw_len w - 1"
    unfolding end_task_def using root_apply_down by (metis fst_conv)
  show "tw_ok w \<Longrightarrow> 0 \<le> tw_len w"
    by (simp add: tw_ok_def tw_len_def len_of_def wf_state_def wf_core_def)
qed

lemma root_apply_stopping:
  assumes "root_apply d w = (w', Return b)" and "tw_ok w" and "is_stopping (tw_st w)"
  shows "is_stopping (tw_st w')"
proof -
  have "wf_core (tw_st w)" using assms(2) wf_state_core by (auto simp: tw_ok_def)
  with assms(1,3) show ?thesis
    by (auto simp: root_apply_def is_stopping_def dest: apply_locked_result(5)
        split: if_splits sum.splits prod.splits)
qed

section \<open>Bookkeeping\<close>

lemma info_frame [simp]:
  "tw_st (info_store i e w) = tw_st w" "tw_st (info_end i g w) = tw_st w"
  "tw_user (info_store i e w) = tw_user w" "tw_user (info_end i g w) = tw_user w"
  "tw_ok (info_store i e w) = tw_ok w" "tw_ok (info_end i g w) = tw_ok w"
  "tw_len (info_store i e w) = tw_len w" "tw_len (info_end i g w) = tw_len w"
  by (auto simp: info_store_def info_end_def tw_ok_def tw_len_def split: option.splits)

lemma root_add_error_frame [simp]:
  "tw_ok w \<Longrightarrow> tw_ok (root_add_error es w)" "tw_len (root_add_error es w) = tw_len w"
  by (auto simp: root_add_error_def tw_ok_def tw_len_def len_of_def add_errors_eq)

text \<open>What a finished task leaves behind in the observability data.\<close>

definition finished :: "nat option \<Rightarrow> gid option \<Rightarrow> goerr option \<Rightarrow> 's tworld \<Rightarrow> bool" where
  "finished info grp err w \<longleftrightarrow>
     (case (info, grp) of
        (Some t, Some g) \<Rightarrow> t < length (tw_infos w) \<longrightarrow>
          ti_done (tw_infos w ! t) \<and> ti_error (tw_infos w ! t) = Some err \<and> t \<notin> set (tw_tasks w g)
      | _ \<Rightarrow> True)"

lemma finished_end: "finished info grp err (info_end info grp (info_store info err w))"
  by (auto simp: finished_def info_end_def info_store_def split: option.splits)

text \<open>The error of an outcome of the chain, as \<open>CallE\<close> returns it, and what \<open>errors.Is\<close> finds in an error for it.\<close>

definition outcome_error :: "rt_frame list \<Rightarrow> goerr option outcome \<Rightarrow> goerr option" where
  "outcome_error pcs out = (case out of Return err \<Rightarrow> err | Panic r \<Rightarrow> Some (recover_e pcs None r))"

lemma call_e_outcome: "fn w = (w', out) \<Longrightarrow> call_e pcs fn w = (w', outcome_error pcs out)"
  by (cases out) (simp_all add: outcome_error_def call_e_return call_e_panic)

definition reports :: "goerr option outcome \<Rightarrow> goerr option \<Rightarrow> bool" where
  "reports out err \<longleftrightarrow>
     (case out of
        Return None \<Rightarrow> err = None
      | Return (Some e) \<Rightarrow> errors_is_opt err e
      | Panic r \<Rightarrow> errors_is_opt err (panic_error r))"

lemma reports_decorate: "reports out (decorate name (outcome_error pcs out))"
proof (cases out)
  case (Return e)
  then show ?thesis
    by (cases e) (auto simp: reports_def decorate_def outcome_error_def errors_is_opt_def errors_is_Wrap)
next
  case (Panic r)
  with panic_error_is [of pcs None r] show ?thesis
    by (auto simp: reports_def decorate_def outcome_error_def errors_is_opt_def errors_is_Wrap)
qed

text \<open>The decoration and the failure, spelled out.\<close>

lemma failed_outcome:
  assumes "out \<noteq> Return None"
  obtains e0 where "outcome_error pcs out = Some e0"
    and "decorate name (outcome_error pcs out) = Some (if name = '''' then e0 else WrapError name e0)"
proof (cases out)
  case (Return e)
  with assms that show thesis by (cases e) (auto simp: outcome_error_def decorate_def)
next
  case (Panic r)
  with that show thesis by (auto simp: outcome_error_def decorate_def)
qed

section \<open>Properties\<close>

text \<open>A middleware that sets up some state, keeps the context and works around its task.\<close>

definition simple_mw ::
  "('s tworld \<Rightarrow> 's tworld) \<times> ('s tworld \<Rightarrow> 's tworld)
     \<times> ('s tworld \<times> goerr option outcome \<Rightarrow> 's tworld \<times> goerr option outcome) \<Rightarrow> 's middleware" where
  "simple_mw m ctx w = (case m of (setup, pre, post) \<Rightarrow> (setup w, Return (ctx, around pre post)))"

text \<open>
  C31: middleware runs in the documented order. All setup phases run in declaration order before the
  task; then the invokers nest, the first declared outermost: the work before the task in
  declaration order, the task, and the work after it in reverse order.
\<close>

theorem middleware_order:
  "setup_mw (map simple_mw ms) ctx w
     = (fold (\<lambda>(setup, pre, post). setup) ms w,
        Return (ctx, map (\<lambda>(setup, pre, post). around pre post) ms))
   \<and> build_chain (map (\<lambda>(setup, pre, post). around pre post) ms) ctx task w
     = foldr (\<lambda>(setup, pre, post). post) ms
         (task ctx (fold (\<lambda>(setup, pre, post). pre) ms w))"
proof
  show "setup_mw (map simple_mw ms) ctx w
     = (fold (\<lambda>(setup, pre, post). setup) ms w,
        Return (ctx, map (\<lambda>(setup, pre, post). around pre post) ms))"
    by (induction ms arbitrary: w) (auto simp: simple_mw_def)
  show "build_chain (map (\<lambda>(setup, pre, post). around pre post) ms) ctx task w
     = foldr (\<lambda>(setup, pre, post). post) ms
         (task ctx (fold (\<lambda>(setup, pre, post). pre) ms w))"
  proof (induction ms arbitrary: w)
    case Nil
    then show ?case by (simp add: InvokerCall_def)
  next
    case (Cons m ms)
    then show ?case by (cases m) (simp add: link_def around_def)
  qed
qed

text \<open>
  An invoker may short-circuit: below \<open>InvokerErr\<close> or \<open>InvokerDrop\<close> neither the later invokers nor
  the task run, whatever they are, and the outer invokers see the invoker's error in their place.
\<close>

theorem short_circuit:
  "build_chain (invs @ InvokerErr err # invs') ctx task w
     = build_chain invs ctx (\<lambda>c w. (w, Return err)) w
   \<and> build_chain (invs @ InvokerDrop # invs') ctx task w
     = build_chain invs ctx (\<lambda>c w. (w, Return None)) w"
proof -
  have "(\<lambda>c. build_chain (InvokerErr err # invs') c task) = (\<lambda>c w. (w, Return err))"
    by (rule ext)+ (simp add: link_def InvokerErr_def)
  moreover have "(\<lambda>c. build_chain (InvokerDrop # invs') c task) = (\<lambda>c w. (w, Return None))"
    by (rule ext)+ (simp add: link_def InvokerDrop_def)
  ultimately show ?thesis
    using chain_append [of invs "InvokerErr err # invs'" ctx task]
      chain_append [of invs "InvokerDrop # invs'" ctx task] by metis
qed

lemma tasks_taken:
  assumes "tw_ok w" and "\<not> is_stopping (tw_st w)"
  obtains w1 where "root_apply 1 w = (w1, Return True)" and "tw_ok w1" and "tw_len w1 = tw_len w + 1"
    and "tw_infos w1 = tw_infos w" and "tw_tasks w1 = tw_tasks w"
proof -
  let ?w1 = "w\<lparr>tw_st := (tw_st w)\<lparr>mu_count := mu_count (tw_st w) + 1\<rparr>\<rparr>"
  have r: "root_apply 1 w = (?w1, Return True)"
    using root_apply_up [of w] assms by (simp add: tw_ok_def)
  then have "take_task w = (?w1, True)" by (simp add: take_task_def)
  from tasks.take_held [OF assms(1) this] r that show thesis by simp
qed

lemma task_invoker_name:
  "task_invoker en cfg c opts w = (w', Return iv) \<Longrightarrow>
     iv_name iv = task_name (apply_task_opts (en_caller en) (cfg_taskOpts cfg) opts)"
  by (auto simp: task_invoker_def Let_def split: prod.splits outcome.splits option.splits)

text \<open>
  C27: \<open>Call\<close> on a root context, on every branch. A stopping context answers \<open>ErrStopped\<close> and nothing has
  changed. Otherwise \<open>Call\<close> takes a unit of the task count. If a middleware's setup phase panics, so does
  \<open>Call\<close>, with the same value; the unit is given back, but the task info is left as it was at the panic.
  If the setup phase returns, \<open>Call\<close> does not panic: its result is the chain's error or the recovered panic
  of the chain, with the task's name in front of it if there is one, and nil exactly if the chain returned
  nil; no error handler runs and no error is added; the unit is given back, and the task info is
  completed and out of its group. What user code does in between is arbitrary as long as it leaves a
  well-formed state that still counts the task.
\<close>

theorem call_spec:
  assumes "tw_ok w"
  shows "if is_stopping (tw_st w) then impl_call en cfg c fn opts w = (w, Return (Some ErrStopped))
    else \<exists>w1. root_apply 1 w = (w1, Return True) \<and> tw_ok w1 \<and> tw_len w1 = tw_len w + 1
      \<and> (case task_invoker en cfg c opts w1 of
           (w2, Panic r) \<Rightarrow> tw_ok w2 \<and> 0 < tw_len w2 \<longrightarrow>
             (\<exists>w'. impl_call en cfg c fn opts w = (w', Panic r) \<and> tw_ok w' \<and> tw_len w' = tw_len w2 - 1
                \<and> tw_infos w' = tw_infos w2 \<and> tw_tasks w' = tw_tasks w2)
         | (w2, Return iv) \<Rightarrow>
             iv_name iv = task_name (apply_task_opts (en_caller en) (cfg_taskOpts cfg) opts)
             \<and> (case iv_chain iv (iv_ctx iv) fn w2 of (w3, out) \<Rightarrow> tw_ok w3 \<and> 0 < tw_len w3 \<longrightarrow>
                  (\<exists>w' err. impl_call en cfg c fn opts w = (w', Return err)
                     \<and> err = decorate (iv_name iv) (outcome_error (iv_pcs iv) out) \<and> reports out err
                     \<and> (err = None \<longleftrightarrow> out = Return None)
                     \<and> tw_ok w' \<and> tw_len w' = tw_len w3 - 1 \<and> tw_user w' = tw_user w3
                     \<and> errors_of (tw_st w') = errors_of (tw_st w3)
                     \<and> finished (iv_info iv) (iv_group iv) err w')))"
proof (cases "is_stopping (tw_st w)")
  case True
  then show ?thesis by (simp add: impl_call_def root_apply_def)
next
  case False
  with assms obtain w1 where up: "root_apply 1 w = (w1, Return True)" "tw_ok w1" "tw_len w1 = tw_len w + 1"
    by (rule tasks_taken)
  have early: "\<exists>w'. impl_call en cfg c fn opts w = (w', Panic r) \<and> tw_ok w' \<and> tw_len w' = tw_len w2 - 1
      \<and> tw_infos w' = tw_infos w2 \<and> tw_tasks w' = tw_tasks w2"
    if "task_invoker en cfg c opts w1 = (w2, Panic r)" "tw_ok w2" "0 < tw_len w2" for w2 r
    using root_apply_down [OF that(2,3)] up(1) that(1) by (auto simp: impl_call_def deferred_release_def)
  have body: "\<exists>w' err. impl_call en cfg c fn opts w = (w', Return err)
      \<and> err = decorate (iv_name iv) (outcome_error (iv_pcs iv) out) \<and> reports out err
      \<and> (err = None \<longleftrightarrow> out = Return None)
      \<and> tw_ok w' \<and> tw_len w' = tw_len w3 - 1 \<and> tw_user w' = tw_user w3
      \<and> errors_of (tw_st w') = errors_of (tw_st w3) \<and> finished (iv_info iv) (iv_group iv) err w'"
    if t: "task_invoker en cfg c opts w1 = (w2, Return iv)" and o: "iv_chain iv (iv_ctx iv) fn w2 = (w3, out)"
      and w3: "tw_ok w3" "0 < tw_len w3" for w2 iv w3 out
  proof -
    let ?err = "decorate (iv_name iv) (outcome_error (iv_pcs iv) out)"
    let ?w4 = "info_end (iv_info iv) (iv_group iv) (info_store (iv_info iv) ?err w3)"
    have b: "task_body iv True fn w2 = (?w4, Return ?err)"
      using call_e_outcome [of "iv_chain iv (iv_ctx iv) fn" w2 w3 out "iv_pcs iv"] o by (simp add: task_body_def Let_def)
    have "tw_ok ?w4" "0 < tw_len ?w4" using w3 by simp_all
    from root_apply_down [OF this] obtain w' where d: "root_apply (- 1) ?w4 = (w', Return True)"
      "tw_ok w'" "tw_len w' = tw_len ?w4 - 1" "tw_infos w' = tw_infos ?w4" "tw_tasks w' = tw_tasks ?w4"
      "tw_user w' = tw_user ?w4" "mu_errs (tw_st w') = mu_errs (tw_st ?w4)" by blast
    have "impl_call en cfg c fn opts w = (w', Return ?err)"
      using up(1) t b d(1) by (simp add: impl_call_def deferred_release_def)
    moreover have "finished (iv_info iv) (iv_group iv) ?err w'"
      using finished_end [of "iv_info iv" "iv_group iv" ?err w3] d(4,5)
      by (auto simp: finished_def split: option.splits)
    moreover have "?err = None \<longleftrightarrow> out = Return None"
      by (cases out) (auto simp: outcome_error_def decorate_def split: option.splits)
    ultimately show ?thesis using d reports_decorate [of out] by (auto simp: errors_of_def)
  qed
  from False up early body task_invoker_name [of en cfg c opts w1] show ?thesis
    by (auto split: prod.splits outcome.splits)
qed

text \<open>
  The task info of a call whose setup phase panics stays in its group for ever, and its \<open>Done\<close>
  channel is never closed.
\<close>

theorem setup_panic_leaves_info:
  assumes "tw_ok w" and "\<not> is_stopping (tw_st w)" and "cfg_group cfg = Some g"
    and "task_mw (apply_task_opts (en_caller en) (cfg_taskOpts cfg) opts) = mw # mws"
    and "\<And>ctx x. mw ctx x = (x, Panic r)"
  shows "\<exists>w' ti. impl_call en cfg c fn opts w = (w', Panic r) \<and> tw_len w' = tw_len w
    \<and> tw_tasks w' g = tw_tasks w g @ [length (tw_infos w)]
    \<and> tw_infos w' = tw_infos w @ [ti] \<and> \<not> ti_done ti"
proof -
  obtain w1 where up: "root_apply 1 w = (w1, Return True)" "tw_ok w1" "tw_len w1 = tw_len w + 1"
    "tw_infos w1 = tw_infos w" "tw_tasks w1 = tw_tasks w" using tasks_taken [OF assms(1,2)] by metis
  let ?n = "task_name (apply_task_opts (en_caller en) (cfg_taskOpts cfg) opts)"
  obtain w2 tid where i: "info_start c g ?n w1 = (w2, tid)" by fastforce
  then have w2: "tw_infos w2 = tw_infos w @ [\<lparr>ti_context = c, ti_group = g, ti_started = tw_now w1, ti_name = ?n,
                ti_error = None, ti_done = False\<rparr>]"
    "tw_tasks w2 g = tw_tasks w g @ [length (tw_infos w)]" "tw_ok w2" "tw_len w2 = tw_len w + 1"
    using up by (auto simp: info_start_def Let_def tw_ok_def tw_len_def)
  have t: "task_invoker en cfg c opts w1 = (w2, Panic r)"
    using i assms(3-5) by (simp add: task_invoker_def Let_def)
  have "0 < tw_len w2" using w2(4) tasks.held_nonneg [OF assms(1)] by simp
  from root_apply_down [OF w2(3) this] t up(1) w2 show ?thesis
    by (auto simp: impl_call_def deferred_release_def)
qed

definition empty_tworld :: "nat tworld" where
  "empty_tworld = \<lparr>tw_user = 0, tw_st = new_state (Cleanup 0) () None, tw_emitted = [], tw_now = 0,
     tw_tasks = (\<lambda>_. []), tw_infos = []\<rparr>"

definition plain_env :: "nat env" where
  "plain_env = \<lparr>en_caller = no_caller, en_pcs = [], en_handlers = (\<lambda>n ctx e w. (w, Return ()))\<rparr>"

text \<open>A task that counts itself and panics.\<close>

definition boom_task :: "nat tfunc" where
  "boom_task ctx w = (w\<lparr>tw_user := Suc (tw_user w)\<rparr>, Panic (PanicOther ''boom''))"

theorem call_spec_witness:
  "\<exists>w' err. impl_call plain_env (config_sanitize zero_config) (Impl Background 0) boom_task
        [TaskName ''job''] empty_tworld = (w', Return (Some (WrapError ''job'' err)))
     \<and> errors_is err (FmtError ''panic: boom'') \<and> tw_len w' = 0 \<and> tw_user w' = 1"
proof -
  let ?cfg = "config_sanitize zero_config" and ?c = "Impl Background 0" and ?o = "[TaskName ''job'']"
  let ?w1 = "empty_tworld\<lparr>tw_st := (tw_st empty_tworld)\<lparr>mu_count := 1\<rparr>\<rparr>"
  have ok: "tw_ok empty_tworld" "\<not> is_stopping (tw_st empty_tworld)"
    by (simp_all add: empty_tworld_def tw_ok_def wf_new_state is_stopping_def)
  have up: "root_apply 1 empty_tworld = (?w1, Return True)"
    using root_apply_up [of empty_tworld] ok by (simp add: tw_ok_def empty_tworld_def)
  obtain iv where iv: "task_invoker plain_env ?cfg ?c ?o ?w1 = (?w1, Return iv)"
      "iv_chain iv = InvokerCall" "iv_name iv = ''job''" "iv_pcs iv = []"
    by (simp add: task_invoker_def Let_def config_sanitize_def zero_config_def apply_task_opts_def
        run_task_options_def zero_task_def TaskName_def plain_env_def caller_name_def)
  let ?w3 = "?w1\<lparr>tw_user := 1\<rparr>"
  have ch: "iv_chain iv (iv_ctx iv) boom_task ?w1 = (?w3, Panic (PanicOther ''boom''))"
    by (simp add: iv(2) InvokerCall_def boom_task_def empty_tworld_def)
  have w3: "tw_ok ?w3" "tw_len ?w3 = 1"
    by (simp_all add: empty_tworld_def tw_ok_def tw_len_def len_of_def new_state_def wf_state_def
        wf_core_def wf_timers_def)
  have "\<exists>w' err. impl_call plain_env ?cfg ?c boom_task ?o empty_tworld = (w', Return err)
      \<and> err = decorate ''job'' (Some (recover_e [] None (PanicOther ''boom''))) \<and> tw_len w' = 0 \<and> tw_user w' = 1"
    using call_spec [OF ok(1), of plain_env ?cfg ?c boom_task ?o] ok(2) up iv ch w3
    by (auto simp: outcome_error_def)
  then show ?thesis using panic_error_is [of "[]" None "PanicOther ''boom''"] by (auto simp: decorate_def)
qed

text \<open>
  On a stopping context \<open>Call\<close> and \<open>Go\<close> return \<open>ErrStopped\<close>, start nothing and change nothing: no
  middleware is set up, no task info is made.
\<close>

theorem refused_when_stopping:
  assumes "is_stopping (tw_st w)"
  shows "impl_call en cfg c fn opts w = (w, Return (Some ErrStopped))
    \<and> impl_go en cfg c fn opts w = (w, Return (Some ErrStopped, None))"
  using assms by (simp add: impl_call_def impl_go_def root_apply_def)

theorem refused_when_stopping_witness:
  "impl_call plain_env zero_config (Impl Background 0) boom_task []
      (empty_tworld\<lparr>tw_st := (tw_st empty_tworld)\<lparr>mu_stopping := True, stopping_closed := True\<rparr>\<rparr>)
    = (empty_tworld\<lparr>tw_st := (tw_st empty_tworld)\<lparr>mu_stopping := True, stopping_closed := True\<rparr>\<rparr>,
       Return (Some ErrStopped))"
  by (rule conjunct1 [OF refused_when_stopping]) (simp add: is_stopping_def)

text \<open>What the two handlers of the package do with an error.\<close>

lemma handler_records:
  assumes "tw_ok w" and "h \<in> {ErrorHandlerStop, ErrorHandlerRecord}"
  shows "\<exists>w'. run_handler hs g h ctx e w = (w', Return ()) \<and> tw_ok w' \<and> tw_len w' = tw_len w
    \<and> errors_of (tw_st w') = errors_of (tw_st w) @ [e] \<and> (h = ErrorHandlerStop \<longrightarrow> is_stopping (tw_st w'))
    \<and> tw_infos w' = tw_infos w \<and> tw_tasks w' = tw_tasks w"
proof -
  let ?w = "root_add_error [Some e] w"
  have ok: "tw_ok ?w" "tw_len ?w = tw_len w" using assms(1) by simp_all
  have err: "errors_of (tw_st ?w) = errors_of (tw_st w) @ [e]"
    by (simp add: root_add_error_def add_errors_eq errors_of_def)
  show ?thesis
  proof (cases "h = ErrorHandlerStop")
    case True
    have wf: "wf_state (tw_st ?w)" using ok(1) by (simp add: tw_ok_def)
    obtain st cbs where st: "stop_locked (tw_now ?w) g (tw_st ?w) = Inr (st, cbs)"
      using soft_stop_no_crash [OF wf_state_core [OF wf]] unfolding stop_locked_def by blast
    note f = soft_stop_fields [OF wf_state_core [OF wf] st [unfolded stop_locked_def]]
    have "wf_state st" using stop_locked_wf [OF wf st] .
    with True st f ok err show ?thesis
      by (auto simp: run_handler_def root_stop_def tw_ok_def tw_len_def len_of_def is_stopping_def
          errors_of_def root_add_error_def)
  next
    case False
    with assms(2) ok err show ?thesis by (auto simp: run_handler_def root_add_error_def)
  qed
qed

text \<open>
  C32: a goroutine started by \<open>Go\<close> whose chain fails hands the error to the installed handler exactly once and
  never swallows it. The error is the chain's, or the recovered panic of the chain, with the task's name in front of
  it if there is one, and \<open>errors.Is\<close> finds the chain's error in it. With the two handlers of the package exactly this error
  is appended to what \<open>Wait\<close> will report, \<open>ErrorHandlerStop\<close> leaves the context stopping, the goroutine ends
  without a panic and gives its unit of the task count back, and the task info is completed. A handler of the user's is called
  once, with the invocation's context and this error, after the error has been stored in the task info; nothing is
  appended behind its back, the unit is given back also if it panics, and its panic is the goroutine's.
\<close>

theorem goroutine_error_recorded:
  assumes "iv_chain iv (iv_ctx iv) fn w = (w1, out)" and "out \<noteq> Return None"
  shows "\<exists>e0 e. outcome_error (iv_pcs iv) out = Some e0
    \<and> e = (if iv_name iv = '''' then e0 else WrapError (iv_name iv) e0) \<and> reports out (Some e)
    \<and> (case iv_handler iv of
         ErrorHandlerUser n \<Rightarrow>
           (case iv_handlers iv n (iv_ctx iv) e (info_store (iv_info iv) (Some e) w1) of
              (w3, r) \<Rightarrow> tw_ok w3 \<and> 0 < tw_len w3 \<longrightarrow>
                (\<exists>w'. goroutine iv fn w = (w', r) \<and> tw_ok w' \<and> tw_len w' = tw_len w3 - 1
                   \<and> tw_user w' = tw_user w3 \<and> errors_of (tw_st w') = errors_of (tw_st w3)))
       | h \<Rightarrow> tw_ok w1 \<and> 0 < tw_len w1 \<longrightarrow>
           (\<exists>w'. goroutine iv fn w = (w', Return ()) \<and> errors_of (tw_st w') = errors_of (tw_st w1) @ [e]
              \<and> (h = ErrorHandlerStop \<longrightarrow> is_stopping (tw_st w'))
              \<and> tw_ok w' \<and> tw_len w' = tw_len w1 - 1 \<and> finished (iv_info iv) (iv_group iv) (Some e) w'))"
proof -
  let ?i = "iv_info iv" and ?g = "iv_group iv"
  obtain e0 where e0: "outcome_error (iv_pcs iv) out = Some e0"
    "decorate (iv_name iv) (outcome_error (iv_pcs iv) out)
       = Some (if iv_name iv = '''' then e0 else WrapError (iv_name iv) e0)"
    by (rule failed_outcome [OF assms(2)])
  define e where "e = (if iv_name iv = '''' then e0 else WrapError (iv_name iv) e0)"
  have rep: "reports out (Some e)"
    using reports_decorate [of out "iv_name iv" "iv_pcs iv"] e0(2) by (simp add: e_def)
  let ?w2 = "info_store ?i (Some e) w1"
  have body: "task_body iv False fn w
      = (case run_handler (iv_handlers iv) (iv_grace iv) (iv_handler iv) (iv_ctx iv) e ?w2 of
           (w3, Panic r) \<Rightarrow> (info_end ?i ?g w3, Panic r)
         | (w3, Return _) \<Rightarrow> (info_end ?i ?g w3, Return None))"
    using call_e_outcome [of "iv_chain iv (iv_ctx iv) fn" w w1 out "iv_pcs iv"] assms(1) e0(2)
    by (simp add: task_body_def Let_def e_def)
  have run: "\<exists>w'. goroutine iv fn w = (w', r) \<and> tw_ok w' \<and> tw_len w' = tw_len w3 - 1 \<and> tw_user w' = tw_user w3
      \<and> errors_of (tw_st w') = errors_of (tw_st w3) \<and> (is_stopping (tw_st w3) \<longrightarrow> is_stopping (tw_st w'))
      \<and> tw_infos w' = tw_infos (info_end ?i ?g w3) \<and> tw_tasks w' = tw_tasks (info_end ?i ?g w3)"
    if h: "run_handler (iv_handlers iv) (iv_grace iv) (iv_handler iv) (iv_ctx iv) e ?w2 = (w3, r)"
      and w3: "tw_ok w3" "0 < tw_len w3" for w3 r
  proof -
    let ?w5 = "info_end ?i ?g w3"
    have ok: "tw_ok ?w5" "0 < tw_len ?w5" using w3 by simp_all
    from root_apply_down [OF this] obtain w' where d: "root_apply (- 1) ?w5 = (w', Return True)"
      "tw_ok w'" "tw_len w' = tw_len ?w5 - 1" "tw_infos w' = tw_infos ?w5" "tw_tasks w' = tw_tasks ?w5"
      "tw_user w' = tw_user ?w5" "mu_errs (tw_st w') = mu_errs (tw_st ?w5)" by blast
    have "is_stopping (tw_st w3) \<longrightarrow> is_stopping (tw_st w')"
      using root_apply_stopping [OF d(1) ok(1)] by simp
    moreover have "goroutine iv fn w = (w', r)"
      using body h d(1) by (cases r) (simp_all add: goroutine_def deferred_release_def)
    ultimately show ?thesis using d by (auto simp: errors_of_def)
  qed
  have builtin: "\<exists>w'. goroutine iv fn w = (w', Return ()) \<and> errors_of (tw_st w') = errors_of (tw_st w1) @ [e]
      \<and> (iv_handler iv = ErrorHandlerStop \<longrightarrow> is_stopping (tw_st w'))
      \<and> tw_ok w' \<and> tw_len w' = tw_len w1 - 1 \<and> finished ?i ?g (Some e) w'"
    if "tw_ok w1" "0 < tw_len w1" "iv_handler iv \<in> {ErrorHandlerStop, ErrorHandlerRecord}"
  proof -
    from handler_records [of ?w2 "iv_handler iv" "iv_handlers iv" "iv_grace iv" "iv_ctx iv" e] that
    obtain w4 where h: "run_handler (iv_handlers iv) (iv_grace iv) (iv_handler iv) (iv_ctx iv) e ?w2 = (w4, Return ())"
      and w4: "tw_ok w4" "tw_len w4 = tw_len w1" "errors_of (tw_st w4) = errors_of (tw_st w1) @ [e]"
        "iv_handler iv = ErrorHandlerStop \<longrightarrow> is_stopping (tw_st w4)"
        "tw_infos w4 = tw_infos ?w2" "tw_tasks w4 = tw_tasks ?w2" by auto
    have "finished ?i ?g (Some e) w'"
      if "tw_infos w' = tw_infos (info_end ?i ?g w4)" "tw_tasks w' = tw_tasks (info_end ?i ?g w4)" for w' :: "'a tworld"
      using finished_end [of ?i ?g "Some e" w1] that w4(5,6)
      by (auto simp: finished_def info_end_def split: option.splits)
    with run [OF h] w4 that(2) show ?thesis by auto
  qed
  have user: "iv_handlers iv n (iv_ctx iv) e ?w2 = (w3, r) \<Longrightarrow> iv_handler iv = ErrorHandlerUser n \<Longrightarrow>
      run_handler (iv_handlers iv) (iv_grace iv) (iv_handler iv) (iv_ctx iv) e ?w2 = (w3, r)" for n w3 r
    by (simp add: run_handler_def)
  show ?thesis
  proof (rule exI [of _ e0], rule exI [of _ e], intro conjI e0(1) e_def rep)
    show "case iv_handler iv of
         ErrorHandlerUser n \<Rightarrow>
           (case iv_handlers iv n (iv_ctx iv) e (info_store (iv_info iv) (Some e) w1) of
              (w3, r) \<Rightarrow> tw_ok w3 \<and> 0 < tw_len w3 \<longrightarrow>
                (\<exists>w'. goroutine iv fn w = (w', r) \<and> tw_ok w' \<and> tw_len w' = tw_len w3 - 1
                   \<and> tw_user w' = tw_user w3 \<and> errors_of (tw_st w') = errors_of (tw_st w3)))
       | h \<Rightarrow> tw_ok w1 \<and> 0 < tw_len w1 \<longrightarrow>
           (\<exists>w'. goroutine iv fn w = (w', Return ()) \<and> errors_of (tw_st w') = errors_of (tw_st w1) @ [e]
              \<and> (h = ErrorHandlerStop \<longrightarrow> is_stopping (tw_st w'))
              \<and> tw_ok w' \<and> tw_len w' = tw_len w1 - 1 \<and> finished (iv_info iv) (iv_group iv) (Some e) w')"
    proof (cases "iv_handler iv")
      case (ErrorHandlerUser n)
      obtain w3 r where o: "iv_handlers iv n (iv_ctx iv) e ?w2 = (w3, r)" by fastforce
      from run [OF user [OF o ErrorHandlerUser]] o ErrorHandlerUser show ?thesis by fastforce
    qed (use builtin in auto)
  qed
qed

definition busy_tworld :: "nat tworld" where
  "busy_tworld = empty_tworld\<lparr>tw_st := (tw_st empty_tworld)\<lparr>mu_count := 1\<rparr>\<rparr>"

lemma busy_tworld_ok: "tw_ok busy_tworld" "tw_len busy_tworld = 1"
  by (simp_all add: busy_tworld_def empty_tworld_def tw_ok_def tw_len_def len_of_def new_state_def
      wf_state_def wf_core_def wf_timers_def)

definition stop_invocation :: "nat invocation" where
  "stop_invocation = \<lparr>iv_pcs = [], iv_handlers = (\<lambda>n ctx e w. (w, Return ())), iv_grace = 5,
     iv_ctx = Impl Background 0, iv_chain = InvokerCall, iv_name = ''job'',
     iv_handler = ErrorHandlerStop, iv_group = None, iv_info = None\<rparr>"

theorem goroutine_error_recorded_witness:
  "\<exists>w'. goroutine stop_invocation (\<lambda>ctx w. (w, Return (Some (OpaqueError 1 ''bad'')))) busy_tworld
       = (w', Return ())
     \<and> is_stopping (tw_st w') \<and> tw_len w' = 0
     \<and> errors_of (tw_st w') = [WrapError ''job'' (OpaqueError 1 ''bad'')]"
proof -
  let ?out = "Return (Some (OpaqueError 1 ''bad''))"
  have "iv_chain stop_invocation (iv_ctx stop_invocation) (\<lambda>ctx w. (w, ?out)) busy_tworld = (busy_tworld, ?out)"
    by (simp add: stop_invocation_def InvokerCall_def)
  from goroutine_error_recorded [OF this] busy_tworld_ok
  show ?thesis
    by (auto simp: stop_invocation_def outcome_error_def busy_tworld_def empty_tworld_def errors_of_def new_state_def)
qed

text \<open>
  C39: a middleware that panics in its setup phase leaves \<open>Go\<close> with the unit of the task count it had
  taken: the panic propagates to the caller, no goroutine will ever give the unit back, and the
  context can not become idle. \<open>Call\<close> with the same middleware gives it back.
\<close>

theorem go_setup_panic_leaks:
  assumes "wf_state (tw_st w)" and "st_parent (tw_st w) = None" and "\<not> is_stopping (tw_st w)"
    and "root_apply 1 w = (w1, Return True)"
    and "task_invoker en cfg c opts w1 = (w2, Panic r)" and "tw_st w2 = tw_st w1"
  shows "impl_go en cfg c fn opts w = (w2, Panic r) \<and> tw_len w2 = tw_len w + 1
    \<and> (\<exists>w3. impl_call en cfg c fn opts w = (w3, Panic r) \<and> tw_len w3 = tw_len w)"
proof -
  have ok: "tw_ok w" using assms(1,2) by (simp add: tw_ok_def)
  have t: "take_task w = (w1, True)" using assms(4) by (simp add: take_task_def)
  have "tw_ok w1 \<and> tw_len w1 = tw_len w + 1" by (rule tasks.take_held [OF ok t])
  then have w2: "tw_ok w2" "tw_len w2 = tw_len w + 1"
    using assms(6) by (simp_all add: tw_ok_def tw_len_def)
  moreover have "0 < tw_len w2" using w2(2) tasks.held_nonneg [OF ok] by simp
  ultimately show ?thesis
    using root_apply_down [of w2] assms(4,5)
    by (auto simp: impl_go_def impl_call_def deferred_release_def)
qed

definition panicking_mw :: "nat middleware" where
  "panicking_mw ctx w = (w, Panic (PanicOther ''setup''))"

theorem go_setup_panic_leaks_witness:
  "\<exists>w2. impl_go plain_env (config_sanitize zero_config) (Impl Background 0) boom_task
       [TaskMiddleware [panicking_mw]] empty_tworld = (w2, Panic (PanicOther ''setup''))
     \<and> tw_len w2 = 1"
proof -
  let ?cfg = "config_sanitize zero_config" and ?c = "Impl Background 0"
  let ?w1 = "empty_tworld\<lparr>tw_st := (tw_st empty_tworld)\<lparr>mu_count := 1\<rparr>\<rparr>"
  have wf: "wf_state (tw_st empty_tworld)" "\<not> is_stopping (tw_st empty_tworld)"
    "st_parent (tw_st empty_tworld) = None" "tw_len empty_tworld = 0"
    by (simp_all add: empty_tworld_def wf_new_state is_stopping_def tw_len_def len_of_def)
  have up: "root_apply 1 empty_tworld = (?w1, Return True)"
    using root_apply_up [OF wf(1)] wf(2) by (simp add: empty_tworld_def)
  have ti: "task_invoker plain_env ?cfg ?c [TaskMiddleware [panicking_mw]] ?w1
      = (?w1, Panic (PanicOther ''setup''))"
    by (simp add: task_invoker_def Let_def config_sanitize_def zero_config_def apply_task_opts_def
        run_task_options_def zero_task_def TaskMiddleware_def panicking_mw_def)
  from go_setup_panic_leaks [OF wf(1) wf(3) wf(2) up ti] wf(4) show ?thesis by auto
qed

end
