(* ===== verification/Root_Claims.thy ===== *)
theory Root_Claims
  imports Stopper Machine_Admit
begin

text \<open>
  The two models of \<open>Apply\<close>, \<open>Stop\<close> and \<open>AddErrors\<close> agree. Stopper has them as functions on the world of
  one root context, in which \<open>Call\<close> and \<open>Go\<close> run tasks, middleware and handlers; Machine has them as
  frames of interleaved goroutines. What the functions do, one goroutine of the machine does.
\<close>

text \<open>The root state of a sequential world, at address \<open>s\<close> of a heap.\<close>

definition root_at :: "sid \<Rightarrow> 's tworld \<Rightarrow> unit shared \<Rightarrow> bool" where
  "root_at s tw w \<longleftrightarrow> s < length (sh_heap w) \<and> st_at w s = tw_st tw \<and> sh_now w = tw_now tw
     \<and> st_parent (tw_st tw) = None"

text \<open>The callbacks of a critical section, when there are any, wait in a frame of \<open>callDeferred\<close>.\<close>

definition pending_frames :: "sid \<Rightarrow> callback list \<Rightarrow> frame list \<Rightarrow> frame list" where
  "pending_frames s cbs k = (if cbs = [] then k else FRun s cbs # k)"

lemma put_put: "put_st (put_st w s x) s y = put_st w s y"
  by (simp add: put_st_def)

lemma solo_pending:
  assumes "i < length P"
  shows "solo i (w, P[i := FRun s cbs # k]) (w, P[i := pending_frames s cbs k])"
proof (cases cbs)
  case Nil
  then show ?thesis
    by (intro solo_frame [OF assms _ solo_refl]) (simp add: pending_frames_def run_deferred_def)
qed (simp add: pending_frames_def solo_refl)

lemma root_apply_solo:
  assumes m: "root_at s tw w" and i: "i < length P"
  shows "case root_apply d tw of
      (tw', Return b) \<Rightarrow> \<exists>cbs. tw_emitted tw' = tw_emitted tw @ cbs
        \<and> solo i (w, P[i := FApply s d # k]) (put_st w s (tw_st tw'), P[i := pending_frames s cbs (FRet b # k)])
    | (tw', Panic r) \<Rightarrow> solo i (w, P[i := FApply s d # k]) (w, P[i := FPanic OverReleased # k])
        \<or> solo i (w, P[i := FApply s d # k]) (w, P[i := FPanic CloseOfClosedChannel # k])"
proof -
  note r = m [unfolded root_at_def]
  have "put_st w s (st_at w s) = w" by (simp add: put_st_def)
  then have same: "put_st w s (tw_st tw) = w" using r by metis
  show ?thesis
  proof (cases "d = 0 \<or> is_stopping (tw_st tw) \<and> 0 < d")
    case True
    then have "root_apply d tw = (tw, Return False)" by (auto simp: root_apply_def)
    moreover have "solo i (w, P[i := FApply s d # k]) (w, P[i := FRet False # k])"
      using True r by (intro solo_frame [OF i _ solo_refl]) (auto simp: apply_enter_def)
    ultimately show ?thesis using same by (simp add: pending_frames_def)
  next
    case False
    have enter: "exec_frame w (FApply s d) k = Some (w, FRet True # FApplyLock s d # k, [])"
      using False r by (auto simp: apply_enter_def parent_of_def)
    have ra: "root_apply d tw = (case apply_locked (tw_now tw) d (tw_st tw) of
        Inl _ \<Rightarrow> (tw, Panic (PanicOther ''over-released''))
      | Inr (st, cbs, r) \<Rightarrow> (tw\<lparr>tw_st := st, tw_emitted := tw_emitted tw @ rev cbs\<rparr>, Return r))"
      using False by (auto simp: root_apply_def)
    show ?thesis
    proof (cases "apply_locked (tw_now tw) d (tw_st tw)")
      case (Inl c)
      then have "exec_frame w (FRet True) (FApplyLock s d # k) = Some (w, FPanic c # k, [])"
        using r by (simp add: apply_resume_def)
      then have "solo i (w, P[i := FApply s d # k]) (w, P[i := FPanic c # k])"
        by (intro solo_frame [OF i enter] solo_frame [OF i _ solo_refl])
      with Inl ra show ?thesis by (cases c) auto
    next
      case (Inr y)
      obtain st cbs b where y: "y = (st, cbs, b)" by (cases y)
      have "exec_frame w (FRet True) (FApplyLock s d # k) = Some (put_st w s st, FRun s (rev cbs) # FRet b # k, [])"
        using Inr y r by (simp add: apply_resume_def)
      from solo_frame [OF i enter solo_frame [OF i this solo_pending [OF i]]] Inr y ra
      show ?thesis by simp
    qed
  qed
qed

lemma root_stop_solo:
  assumes m: "root_at s tw w" and i: "i < length P" and wf: "wf_state (tw_st tw)"
  shows "\<exists>tw' cbs. root_stop g tw = (tw', Return ()) \<and> tw_emitted tw' = tw_emitted tw @ cbs
    \<and> solo i (w, P[i := FStop s g # k]) (put_st w s (tw_st tw'), P[i := pending_frames s cbs k])"
proof -
  note r = m [unfolded root_at_def]
  obtain st cbs where c: "stop_locked (tw_now tw) g (tw_st tw) = Inr (st, cbs)"
    using soft_stop_no_crash [OF wf_state_core [OF wf]] unfolding stop_locked_def by blast
  then have "exec_frame w (FStop s g) k = Some (put_st w s st, FRun s (rev cbs) # k, [])"
    using r by (simp add: after_lock_def)
  from solo_frame [OF i this solo_pending [OF i]] c show ?thesis by (simp add: root_stop_def)
qed

text \<open>
  The sequential model of a root context is a run of the interleaved machine. In every world, \<open>Apply\<close>
  returns the same result, leaves the same state and hands the same callbacks to \<open>callDeferred\<close> as one
  goroutine of the machine that is left alone, and it panics exactly if that goroutine does; in a
  well-formed world the same holds of the default error handler: \<open>AddError\<close>, then \<open>Stop\<close>.
\<close>

theorem root_refines_machine:
  assumes "root_at s tw w" and "i < length P" and "wf_state (tw_st tw)"
  shows "(case root_apply d tw of
        (tw', Return b) \<Rightarrow> \<exists>cbs. tw_emitted tw' = tw_emitted tw @ cbs
          \<and> solo i (w, P[i := FApply s d # k]) (put_st w s (tw_st tw'), P[i := pending_frames s cbs (FRet b # k)])
      | (tw', Panic r) \<Rightarrow> \<exists>c. solo i (w, P[i := FApply s d # k]) (w, P[i := FPanic c # k]))
    \<and> (case run_handler user g ErrorHandlerStop ctx e tw of
        (tw', Return _) \<Rightarrow> \<exists>cbs. tw_emitted tw' = tw_emitted tw @ cbs
          \<and> solo i (w, P[i := FAddErrors s [Some e] # FStop s g # k]) (put_st w s (tw_st tw'), P[i := pending_frames s cbs k])
      | (tw', Panic r) \<Rightarrow> False)"
proof
  show "case root_apply d tw of
        (tw', Return b) \<Rightarrow> \<exists>cbs. tw_emitted tw' = tw_emitted tw @ cbs
          \<and> solo i (w, P[i := FApply s d # k]) (put_st w s (tw_st tw'), P[i := pending_frames s cbs (FRet b # k)])
      | (tw', Panic r) \<Rightarrow> \<exists>c. solo i (w, P[i := FApply s d # k]) (w, P[i := FPanic c # k])"
    using root_apply_solo [OF assms(1,2), of d k] by (auto split: prod.splits outcome.splits)
next
  let ?tw = "root_add_error [Some e] tw" and ?w = "put_st w s (add_errors [Some e] (st_at w s))"
  note r = assms(1) [unfolded root_at_def]
  have "root_at s ?tw ?w" using r by (simp add: root_at_def root_add_error_def add_errors_eq)
  moreover have "wf_state (tw_st ?tw)" using add_errors_wf [OF assms(3)] by (simp add: root_add_error_def)
  ultimately obtain tw' cbs where t: "root_stop g ?tw = (tw', Return ())" "tw_emitted tw' = tw_emitted ?tw @ cbs"
    "solo i (?w, P[i := FStop s g # k]) (put_st ?w s (tw_st tw'), P[i := pending_frames s cbs k])"
    using root_stop_solo [OF _ assms(2)] by blast
  have "solo i (w, P[i := FAddErrors s [Some e] # FStop s g # k]) (put_st w s (tw_st tw'), P[i := pending_frames s cbs k])"
    using t(3) unfolding put_put by (intro solo_frame [OF assms(2)]) simp_all
  with t(1,2) show "case run_handler user g ErrorHandlerStop ctx e tw of
        (tw', Return _) \<Rightarrow> \<exists>cbs. tw_emitted tw' = tw_emitted tw @ cbs
          \<and> solo i (w, P[i := FAddErrors s [Some e] # FStop s g # k]) (put_st w s (tw_st tw'), P[i := pending_frames s cbs k])
      | (tw', Panic r) \<Rightarrow> False"
    by (simp add: run_handler_def root_add_error_def)
qed

text \<open>The last task ends in a context that was asked to stop when idle.\<close>

definition idle_tworld :: "nat tworld" where
  "idle_tworld = empty_tworld\<lparr>tw_st := (tw_st empty_tworld)\<lparr>mu_count := 1, mu_stopOnIdle := Some 7\<rparr>\<rparr>"

theorem root_refines_machine_witness:
  "\<exists>w'. solo 0 (\<lparr>sh_heap = [tw_st idle_tworld], sh_cause = [None], sh_now = 0, sh_trace = []\<rparr>, [[FApply 0 (- 1)]])
     (w', [[FRun 0 [CbCancel (Cleanup 0) ErrStopped], FRet True]]) \<and> is_stopping (st_at w' 0)"
proof -
  let ?w = "\<lparr>sh_heap = [tw_st idle_tworld], sh_cause = [None], sh_now = 0, sh_trace = []\<rparr>"
  have m: "root_at 0 idle_tworld ?w" and wf: "wf_state (tw_st idle_tworld)"
    by (simp_all add: root_at_def idle_tworld_def empty_tworld_def new_state_def wf_state_def wf_core_def wf_timers_def)
  have i: "0 < length [[FApply 0 (- 1)]]" by simp
  obtain tw where tw: "root_apply (- 1) idle_tworld = (tw, Return True)" "is_stopping (tw_st tw)"
    "tw_emitted tw = [CbCancel (Cleanup 0) ErrStopped]"
    by (simp add: root_apply_def idle_tworld_def empty_tworld_def new_state_def apply_locked_def soft_stop_locked_def
        close_stopping_def hard_stop_locked_def is_stopping_def)
  have "tw_emitted idle_tworld = []" by (simp add: idle_tworld_def empty_tworld_def)
  with conjunct1 [OF root_refines_machine [OF m i wf, of "- 1" "[]"]] tw
  have "solo 0 (?w, [[FApply 0 (- 1)]]) (put_st ?w 0 (tw_st tw), [[FRun 0 [CbCancel (Cleanup 0) ErrStopped], FRet True]])"
    by (simp add: pending_frames_def)
  with tw(2) show ?thesis by (intro exI [of _ "put_st ?w 0 (tw_st tw)"]) simp
qed

end
