(* ===== verification/Lifecycle.thy ===== *)
theory Lifecycle
  imports Machine_Shutdown
begin

text \<open>
  The abstract specification of one context: a machine with three phases and the functions that are
  deferred. An active context may begin to drain; a context that has not ended may end once, with a
  reason, and then hands out every deferred function; after that it only runs or keeps what is
  still registered. Every critical section of a \<open>State\<close> simulates one abstract step.
\<close>

section \<open>The abstract machine\<close>

datatype life = Active | Draining | Ended

text \<open>The phases are ordered by time.\<close>

fun life_rank :: "life \<Rightarrow> nat" where
  "life_rank Active = 0"
| "life_rank Draining = 1"
| "life_rank Ended = 2"

lemma life_rank_inject: "life_rank l = life_rank m \<longleftrightarrow> l = m"
  by (cases l; cases m) simp_all

instantiation life :: linorder
begin

definition less_eq_life :: "life \<Rightarrow> life \<Rightarrow> bool" where
  "less_eq_life l m = (life_rank l \<le> life_rank m)"

definition less_life :: "life \<Rightarrow> life \<Rightarrow> bool" where
  "less_life l m = (life_rank l < life_rank m)"

instance
  by standard (auto simp: less_eq_life_def less_life_def life_rank_inject)

end

text \<open>
  \<open>life_step (l, D) R U e (l', D')\<close>: in phase \<open>l\<close> with the functions \<open>D\<close> pending, the functions \<open>R\<close> are
  registered, the functions \<open>U\<close> are handed out, and the cancel function with the reason \<open>e\<close>.
\<close>

inductive life_step ::
  "life \<times> fid multiset \<Rightarrow> fid multiset \<Rightarrow> fid multiset \<Rightarrow> goerr option \<Rightarrow> life \<times> fid multiset \<Rightarrow> bool" where
  stays: "l \<noteq> Ended \<Longrightarrow> l' = l \<or> l = Active \<and> l' = Draining \<Longrightarrow> life_step (l, D) R {#} None (l', D + R)"
| ends: "l \<noteq> Ended \<Longrightarrow> e = ErrStopped \<or> e = ErrGracePeriodExpired \<Longrightarrow>
     life_step (l, D) R (D + R) (Some e) (Ended, {#})"
| ended: "U + K = R \<Longrightarrow> life_step (Ended, D) R U None (Ended, D + K)"

definition life_of :: "'cfg gostate \<Rightarrow> life" where
  "life_of s = (if mu_cancel s = None then Ended else if mu_stopping s then Draining else Active)"

definition life_abs :: "'cfg gostate \<Rightarrow> life \<times> fid multiset" where
  "life_abs s = (life_of s, mset (mu_deferred s))"

fun cancel_out :: "callback list \<Rightarrow> goerr option" where
  "cancel_out [] = None"
| "cancel_out (CbCancel c e # cs) = Some e"
| "cancel_out (_ # cs) = cancel_out cs"

lemma cancel_out_None: "cancel_out cbs = None \<longleftrightarrow> cancels_in cbs = 0"
  by (induction cbs rule: cancel_out.induct) auto

lemma cancel_out_mem: "cancel_out cbs = Some e \<Longrightarrow> \<exists>c. CbCancel c e \<in> set cbs"
  by (induction cbs rule: cancel_out.induct) auto

section \<open>Deferred functions go out with the cancel function\<close>

lemma hard_stop_users: "hard_stop_locked e s = (t, cbs) \<Longrightarrow> cancels_in cbs = 0 \<Longrightarrow> user_cbs cbs = []"
  using hard_stop_fields(11) [of e s t cbs] by (simp split: option.splits)

lemma soft_stop_users:
  assumes "wf_core s" and "soft_stop_locked now g s = Inr (t, cbs)" and "cancels_in cbs = 0"
  shows "user_cbs cbs = []"
  using assms(1)
proof (cases rule: soft_stop_cases [of _ now g])
  case (hard e u d)
  with assms(2,3) hard_stop_users [OF hard(2)] show ?thesis by auto
qed (use assms(2) in auto)

lemma crit_step_users:
  assumes "crit_step s fs t cbs" and "wf_core s" and "fs = []" and "cancels_in cbs = 0"
  shows "user_cbs cbs = []"
  using assms
proof (induction rule: crit_step.induct)
  case (applied now d s t cbs r)
  from applied(2) show ?case
  proof (cases rule: apply_locked_cases [of _ d now])
    case (idle g u c)
    with soft_stop_users [OF wf_core_count [OF applied(2) order_refl] idle(4)] applied show ?thesis by simp
  next
    case (last u c)
    with hard_stop_users [OF last(5)] applied show ?thesis by simp
  qed (use applied in \<open>auto split: option.splits\<close>)
next
  case (stop now g s t cbs)
  then show ?case unfolding stop_locked_def by (blast intro: soft_stop_users)
next
  case (stop_on_idle now g s t cbs)
  show ?case
  proof (cases "mu_count s = 0")
    case True
    with stop_on_idle have "soft_stop_locked now g (s\<lparr>mu_stopOnIdle := Some g\<rparr>) = Inr (t, cbs)"
      by (simp add: stop_on_idle_locked_def)
    from soft_stop_users [OF wf_core_idle [OF stop_on_idle(2)] this] stop_on_idle show ?thesis by simp
  qed (use stop_on_idle in \<open>auto simp: stop_on_idle_locked_def\<close>)
next
  case (grace s t cbs)
  then show ?case using hard_stop_users by (auto simp: grace_timer_locked_def)
qed auto

lemma crit_step_registers:
  assumes "crit_step s fs t cbs" and "fs \<noteq> []"
  obtains f where "fs = [f]" "t = s\<lparr>mu_deferred := mu_deferred s @ [f]\<rparr>" "cbs = []"
  | f where "fs = [f]" "t = s" "cbs = [CbUser f]" "mu_stopping s" "mu_count s = 0"
  using assms by cases (auto simp: add_deferred_def split: if_splits)

section \<open>Refinement\<close>

text \<open>
  C9: \<open>State\<close> refines the life cycle. A new context is active with nothing deferred; and whatever has
  happened to it before, every critical section - a \<open>Stop\<close> with any grace period, \<open>StopOnIdle\<close>, an
  \<open>Apply\<close> of any delta, \<open>AddDeferred\<close>, \<open>AddErrors\<close>, a hook registered or removed, the grace timer - does
  one step of the abstract machine, with the functions and the reason of the callbacks it hands out;
  the reason \<open>ErrStopped\<close> is given only when no task is left.
\<close>

theorem lifecycle_refined:
  assumes "crit_run (new_state c cfg p) gs s ds" and "crit_step s fs t cbs"
  shows "life_abs (new_state c cfg p) = (Active, {#})
    \<and> life_step (life_abs s) (mset fs) (mset (user_cbs cbs)) (cancel_out cbs) (life_abs t)
    \<and> (cancel_out cbs = Some ErrStopped \<longrightarrow> is_stopping t \<and> len_of t = 0)"
proof (intro conjI)
  show "life_abs (new_state c cfg p) = (Active, {#})" by (simp add: life_abs_def life_of_def)
  have w: "wf_state s" using crit_run_wf [OF assms(1) wf_new_state] .
  note core = wf_state_core [OF w]
  have wt: "wf_core t" using wf_state_core [OF crit_step_wf [OF assms(2) w]] .
  note mv = crit_step_moves [OF assms(2) core, unfolded moves_def]
  note grows = crit_step_grows [OF assms(2) core, unfolded stop_grows_def]
  show "cancel_out cbs = Some ErrStopped \<longrightarrow> is_stopping t \<and> len_of t = 0"
    using cancel_out_mem [of cbs] crit_step_cancels [OF assms(2) core]
    by (fastforce simp: cancel_reason_def is_stopping_def len_of_def)
  show "life_step (life_abs s) (mset fs) (mset (user_cbs cbs)) (cancel_out cbs) (life_abs t)"
  proof (cases "fs = []")
    case False
    with assms(2) show ?thesis
    proof (cases rule: crit_step_registers)
      case (1 f)
      then have "life_abs t = (life_of s, mset (mu_deferred s) + {#f#})" by (simp add: life_abs_def life_of_def)
      with 1 show ?thesis
        using stays [of "life_of s" "life_of s" "mset (mu_deferred s)" "{#f#}"]
          ended [of "{#}" "{#f#}" "{#f#}" "mset (mu_deferred s)"]
        by (cases "life_of s = Ended") (simp_all add: life_abs_def [of s])
    next
      case (2 f)
      then have "life_of s = Ended" using w by (simp add: life_of_def wf_state_def)
      with 2 ended [of "{#f#}" "{#}" "{#f#}" "mset (mu_deferred s)"] show ?thesis by (simp add: life_abs_def)
    qed
  next
    case fs: True
    show ?thesis
    proof (cases "mu_cancel t = None")
      case False
      then have n: "mu_cancel s \<noteq> None" "cancels_in cbs = 0" using mv by (auto split: if_splits)
      with mv fs crit_step_users [OF assms(2) core] have "user_cbs cbs = []" "mset (mu_deferred t) = mset (mu_deferred s)"
        by auto
      with n False fs grows cancel_out_None [of cbs] show ?thesis
        using stays [of "life_of s" "life_of t" "mset (mu_deferred s)" "{#}"] by (auto simp: life_abs_def life_of_def)
    next
      case spent: True
      show ?thesis
      proof (cases "mu_cancel s = None")
        case True
        with crit_step_spent [OF assms(2) core] mv fs spent cancel_out_None [of cbs] show ?thesis
          using ended [of "{#}" "{#}" "{#}" "mset (mu_deferred s)"] by (simp add: life_abs_def life_of_def)
      next
        case False
        with crit_step_left_behind [OF assms(2) core spent] have "mu_deferred t = []" by blast
        moreover have "cancels_in cbs = 1" using mv False spent by simp
        then obtain e where e: "cancel_out cbs = Some e" using cancel_out_None [of cbs] by fastforce
        from cancel_out_mem [OF e] crit_step_cancels [OF assms(2) core]
        have "e = ErrStopped \<or> e = ErrGracePeriodExpired" by (auto simp: cancel_reason_def)
        moreover have "life_of s \<noteq> Ended" "life_of t = Ended" using False spent by (simp_all add: life_of_def)
        ultimately show ?thesis
          using ends [of "life_of s" e "mset (mu_deferred s)" "{#}"] mv fs e by (simp add: life_abs_def)
      qed
    qed
  qed
qed

theorem lifecycle_refined_witness:
  "life_step (life_abs sample_state) {#} {#} (Some ErrStopped) (Ended, {#})"
proof -
  have c: "crit_step sample_state [] (sample_state\<lparr>mu_stopping := True, stopping_closed := True, mu_cancel := None\<rparr>)
      [CbCancel (Cleanup 0) ErrStopped]"
    by (rule crit_step.stop [of 0 5])
      (simp add: stop_locked_def soft_stop_locked_def hard_stop_locked_def close_stopping_def
        sample_state_def new_state_def)
  have "life_abs (sample_state\<lparr>mu_stopping := True, stopping_closed := True, mu_cancel := None\<rparr>) = (Ended, {#})"
    by (simp add: life_abs_def life_of_def sample_state_def)
  with conjunct1 [OF conjunct2 [OF lifecycle_refined
        [OF run_nil [of sample_state, unfolded sample_state_def] c [unfolded sample_state_def]]]]
  show ?thesis unfolding sample_state_def by simp
qed

section \<open>Phases only advance\<close>

inductive_cases life_stepE: "life_step (l, D) R U e (l', D')"

text \<open>An abstract step never goes back, and a context ends exactly when its cancel function goes out.\<close>

lemma life_step_advances:
  "life_step (l, D) R U e (l', D') \<Longrightarrow> l \<le> l' \<and> (e \<noteq> None \<longleftrightarrow> l < l' \<and> l' = Ended)"
  by (erule life_stepE; cases l; cases l') (auto simp: less_eq_life_def less_life_def)

lemma life_grows: "stop_grows s t \<Longrightarrow> life_of s \<le> life_of t"
  by (auto simp: stop_grows_def life_of_def less_eq_life_def)

text \<open>In the interleaved machine as well: whatever the goroutines do, no context becomes younger.\<close>

lemma life_advances:
  assumes "gstep\<^sup>*\<^sup>* init_conf c" and "gstep\<^sup>*\<^sup>* c d" and "a < length (sh_heap (fst c))"
  shows "life_of (st_at (fst c) a) \<le> life_of (st_at (fst d) a)"
  using gsteps_grow [OF assms(2) machine.inv_reachable [OF refl assms(1)] assms(3)] life_grows by blast

end
