(* ===== verification/Adapt.thy ===== *)
theory Adapt
  imports Stopper
begin

text \<open>
  adapt.go and signal.go: the package-level helpers. \<open>Fn\<close> adapts the six function signatures to a task;
  \<open>Call\<close>, \<open>Defer\<close>, \<open>Go\<close> and \<open>GoN\<close> find the stopper with \<open>From\<close> and call its method;
  \<open>StopOnReceive\<close> is a task that waits for a channel. \<open>cw\<close> is the world in which \<open>From\<close> looks values up.
\<close>

section \<open>Fn\<close>

datatype 's adaptable =
    FnPlain "('s, unit) comp"
  | FnErr "('s, goerr option) comp"
  | FnStd "gctx \<Rightarrow> ('s, unit) comp"
  | FnStdErr "gctx \<Rightarrow> ('s, goerr option) comp"
  | FnStopper "gctx \<Rightarrow> ('s, unit) comp"
  | FnStopperErr "gctx \<Rightarrow> ('s, goerr option) comp"

text \<open>A function without a result followed by \<open>return nil\<close>.\<close>

definition then_nil :: "('s, unit) comp \<Rightarrow> ('s, goerr option) comp" where
  "then_nil f w = (case f w of (w', Return _) \<Rightarrow> (w', Return None) | (w', Panic r) \<Rightarrow> (w', Panic r))"

fun Fn :: "'s adaptable \<Rightarrow> 's tfunc" where
  "Fn (FnPlain t) = (\<lambda>_. then_nil t)"
| "Fn (FnStd t) = (\<lambda>ctx. then_nil (t ctx))"
| "Fn (FnErr t) = (\<lambda>_. t)"
| "Fn (FnStdErr t) = (\<lambda>ctx. t ctx)"
| "Fn (FnStopper t) = (\<lambda>ctx. then_nil (t ctx))"
| "Fn (FnStopperErr t) = t"

section \<open>Package functions\<close>

definition pkg_call ::
  "'mw cworld \<Rightarrow> 's env \<Rightarrow> 's middleware config \<Rightarrow> gctx \<Rightarrow> 's adaptable
     \<Rightarrow> 's middleware task_option list \<Rightarrow> ('s, goerr option) comp" where
  "pkg_call cw en cfg ctx fn opts w =
     (case from_ctx cw ctx of
        None \<Rightarrow> (w, Return (Some ErrNoStopper))
      | Some s \<Rightarrow> impl_call en cfg s (Fn fn) (opts @ [withCallerOffset 1]) w)"

text \<open>
  \<open>Defer\<close>: the boolean of \<open>AddDeferred\<close>; a function that is not retained runs at once, and its error is
  added. \<open>fid\<close> names the function in the state's list.
\<close>

definition impl_defer_now :: "'s env \<Rightarrow> fid \<Rightarrow> gctx \<Rightarrow> 's tfunc \<Rightarrow> ('s, bool) comp" where
  "impl_defer_now en f c fn w =
     (case add_deferred f (tw_st w) of
        (True, st) \<Rightarrow> (w\<lparr>tw_st := st\<rparr>, Return True)
      | (False, st) \<Rightarrow>
          (case call_e (en_pcs en) (fn c) (w\<lparr>tw_st := st\<rparr>) of
             (w1, None) \<Rightarrow> (w1, Return False)
           | (w1, Some e) \<Rightarrow> (root_add_error [Some e] w1, Return False)))"

definition pkg_defer ::
  "'mw cworld \<Rightarrow> 's env \<Rightarrow> fid \<Rightarrow> gctx \<Rightarrow> 's adaptable \<Rightarrow> ('s, bool \<times> goerr option) comp" where
  "pkg_defer cw en f ctx fn w =
     (case from_ctx cw ctx of
        None \<Rightarrow> (w, Return (False, Some ErrNoStopper))
      | Some s \<Rightarrow>
          (case impl_defer_now en f s (Fn fn) w of
             (w1, Return b) \<Rightarrow> (w1, Return (b, None))
           | (w1, Panic r) \<Rightarrow> (w1, Panic r)))"

definition pkg_go ::
  "'mw cworld \<Rightarrow> 's env \<Rightarrow> 's middleware config \<Rightarrow> gctx \<Rightarrow> 's adaptable
     \<Rightarrow> 's middleware task_option list \<Rightarrow> ('s, goerr option \<times> ('s, unit) comp option) comp" where
  "pkg_go cw en cfg ctx fn opts w =
     (case from_ctx cw ctx of
        None \<Rightarrow> (w, Return (Some ErrNoStopper, None))
      | Some s \<Rightarrow> impl_go en cfg s (Fn fn) (opts @ [withCallerOffset 1]) w)"

text \<open>The loop of \<open>GoN\<close>, with the errors and the goroutines so far.\<close>

fun go_loop ::
  "('s, goerr option \<times> ('s, unit) comp option) comp \<Rightarrow> nat
     \<Rightarrow> goerr option list \<Rightarrow> ('s, unit) comp list \<Rightarrow> ('s, goerr option list \<times> ('s, unit) comp list) comp" where
  "go_loop go 0 errs gs w = (w, Return (errs, gs))"
| "go_loop go (Suc n) errs gs w =
     (case go w of
        (w1, Panic r) \<Rightarrow> (w1, Panic r)
      | (w1, Return (e, g)) \<Rightarrow>
          go_loop go n (errs @ [e]) (gs @ (case g of None \<Rightarrow> [] | Some b \<Rightarrow> [b])) w1)"

text \<open>\<open>make([]error, count)\<close> panics when the count is negative.\<close>

definition pkg_go_n ::
  "'mw cworld \<Rightarrow> 's env \<Rightarrow> 's middleware config \<Rightarrow> gctx \<Rightarrow> int \<Rightarrow> 's adaptable
     \<Rightarrow> 's middleware task_option list \<Rightarrow> ('s, goerr option \<times> ('s, unit) comp list) comp" where
  "pkg_go_n cw en cfg ctx cnt fn opts w =
     (case from_ctx cw ctx of
        None \<Rightarrow> (w, Return (Some ErrNoStopper, []))
      | Some s \<Rightarrow>
          if cnt < 0 then (w, Panic (PanicOther ''makeslice: len out of range''))
          else
            (case go_loop (impl_go en cfg s (Fn fn) (opts @ [withCallerOffset 1])) (nat cnt) [] [] w of
               (w1, Panic r) \<Rightarrow> (w1, Panic r)
             | (w1, Return (errs, gs)) \<Rightarrow> (w1, Return (errors_join errs, gs))))"

section \<open>StopOnReceive\<close>

text \<open>The ready case of the select that the runtime picked.\<close>

datatype ready = Received | StoppingClosed | DoneClosed

definition signal_task :: "'s middleware config \<Rightarrow> stop_option list \<Rightarrow> ready \<Rightarrow> 's tfunc" where
  "signal_task cfg opts r ctx w =
     (case r of
        Received \<Rightarrow>
          (case stop_gracePeriod (stop_options cfg opts) of
             None \<Rightarrow> (w, Panic (PanicOther ''nil pointer dereference''))
           | Some g \<Rightarrow>
               then_nil (\<lambda>w. if stop_onIdle (stop_options cfg opts) then
                   (case stop_on_idle_locked (tw_now w) g (tw_st w) of
                      Inl _ \<Rightarrow> (w, Panic (PanicOther ''close of closed channel''))
                    | Inr (st, cbs) \<Rightarrow>
                        (w\<lparr>tw_st := st, tw_emitted := tw_emitted w @ rev cbs\<rparr>, Return ()))
                 else root_stop g w) w)
      | _ \<Rightarrow> (w, Return None))"

definition stop_on_receive ::
  "'s env \<Rightarrow> 's middleware config \<Rightarrow> gctx \<Rightarrow> stop_option list \<Rightarrow> ready
     \<Rightarrow> ('s, ('s, unit) comp option) comp" where
  "stop_on_receive en cfg c opts r w =
     (case impl_go en cfg c (signal_task cfg opts r) [] w of
        (w1, Panic p) \<Rightarrow> (w1, Panic p)
      | (w1, Return (_, g)) \<Rightarrow> (w1, Return g))"

section \<open>Properties\<close>

text \<open>
  \<open>Fn\<close> keeps what the adapted function does, whatever its signature: the same effects, the same
  panic, the error it returns, and nil for a function that returns none; the context reaches exactly
  the functions that take one.
\<close>

fun adapted_result :: "'s adaptable \<Rightarrow> gctx \<Rightarrow> 's tworld \<Rightarrow> 's tworld \<times> goerr option outcome" where
  "adapted_result (FnPlain t) c w = apsnd (\<lambda>r. case r of Return _ \<Rightarrow> Return None | Panic p \<Rightarrow> Panic p) (t w)"
| "adapted_result (FnErr t) c w = t w"
| "adapted_result (FnStd t) c w = apsnd (\<lambda>r. case r of Return _ \<Rightarrow> Return None | Panic p \<Rightarrow> Panic p) (t c w)"
| "adapted_result (FnStdErr t) c w = t c w"
| "adapted_result (FnStopper t) c w
     = apsnd (\<lambda>r. case r of Return _ \<Rightarrow> Return None | Panic p \<Rightarrow> Panic p) (t c w)"
| "adapted_result (FnStopperErr t) c w = t c w"

lemma then_nil_apsnd:
  "then_nil f w = apsnd (\<lambda>r. case r of Return _ \<Rightarrow> Return None | Panic p \<Rightarrow> Panic p) (f w)"
  by (auto simp: then_nil_def split: prod.splits outcome.splits)

lemma Fn_result: "Fn fn c w = adapted_result fn c w"
  by (cases fn) (simp_all add: then_nil_apsnd)

text \<open>A call of \<open>Go\<close> that finds the context running and whose middleware returns.\<close>

definition clean_setup ::
  "'s env \<Rightarrow> 's middleware config \<Rightarrow> gctx \<Rightarrow> 's middleware task_option list \<Rightarrow> bool" where
  "clean_setup en cfg c opts \<longleftrightarrow>
     (\<forall>w. \<exists>w2 iv. task_invoker en cfg c opts w = (w2, Return iv) \<and> tw_st w2 = tw_st w)"

lemma impl_go_running:
  assumes "wf_state (tw_st w)" and "\<not> is_stopping (tw_st w)" and "clean_setup en cfg c opts"
  shows "\<exists>w' iv. impl_go en cfg c fn opts w = (w', Return (None, Some (goroutine iv fn)))
    \<and> wf_state (tw_st w') \<and> \<not> is_stopping (tw_st w') \<and> tw_len w' = tw_len w + 1"
proof -
  let ?w1 = "w\<lparr>tw_st := (tw_st w)\<lparr>mu_count := mu_count (tw_st w) + 1\<rparr>\<rparr>"
  obtain w2 iv where t: "task_invoker en cfg c opts ?w1 = (w2, Return iv)" "tw_st w2 = tw_st ?w1"
    using assms(3) unfolding clean_setup_def by blast
  with assms(1,2) root_apply_up [OF assms(1)] wf_count_up [of "tw_st w"] show ?thesis
    by (auto simp: impl_go_def is_stopping_def tw_len_def len_of_def)
qed

lemma go_loop_running:
  assumes "wf_state (tw_st w)" and "\<not> is_stopping (tw_st w)" and "clean_setup en cfg c opts"
  shows "\<exists>w' gs'. go_loop (impl_go en cfg c fn opts) n errs gs w
      = (w', Return (errs @ replicate n None, gs @ gs'))
    \<and> length gs' = n \<and> tw_len w' = tw_len w + int n \<and> \<not> is_stopping (tw_st w')"
  using assms(1,2)
proof (induction n arbitrary: errs gs w)
  case 0
  then show ?case by simp
next
  case (Suc n)
  from impl_go_running [OF Suc(2,3) assms(3)] obtain w1 iv where
    g: "impl_go en cfg c fn opts w = (w1, Return (None, Some (goroutine iv fn)))"
    and w1: "wf_state (tw_st w1)" "\<not> is_stopping (tw_st w1)" "tw_len w1 = tw_len w + 1" by blast
  from Suc(1) [OF w1(1,2), of "errs @ [None]" "gs @ [goroutine iv fn]"] obtain w' gs' where
    l: "go_loop (impl_go en cfg c fn opts) n (errs @ [None]) (gs @ [goroutine iv fn]) w1
      = (w', Return ((errs @ [None]) @ replicate n None, (gs @ [goroutine iv fn]) @ gs'))"
    and r: "length gs' = n" "tw_len w' = tw_len w1 + int n" "\<not> is_stopping (tw_st w')" by blast
  have "go_loop (impl_go en cfg c fn opts) (Suc n) errs gs w
      = (w', Return (errs @ replicate (Suc n) None, gs @ goroutine iv fn # gs'))"
    using g l by simp
  moreover have "length (goroutine iv fn # gs') = Suc n" "tw_len w' = tw_len w + int (Suc n)"
    using r w1 by simp_all
  ultimately show ?case using r(3) by blast
qed

lemma go_loop_stopping:
  "is_stopping (tw_st w) \<Longrightarrow> go_loop (impl_go en cfg c fn opts) n errs gs w
     = (w, Return (errs @ replicate n (Some ErrStopped), gs))"
proof (induction n arbitrary: errs)
  case (Suc n)
  then show ?case by (simp add: impl_go_def root_apply_def)
qed simp

text \<open>
  \<open>GoN\<close> with a stopper context that is running starts exactly \<open>count\<close> goroutines, each counted, and
  returns nil; once the context is stopping it starts none and its error joins \<open>count\<close> times
  \<open>ErrStopped\<close>; without a stopper it returns \<open>ErrNoStopper\<close>.
\<close>

theorem go_n_spec:
  assumes "from_ctx cw ctx = Some s" and "wf_state (tw_st w)"
    and "clean_setup en cfg s (opts @ [withCallerOffset 1])"
  shows "\<exists>w' gs. pkg_go_n cw en cfg ctx (int n) fn opts w
      = (w', Return (if is_stopping (tw_st w) \<and> 0 < n
                     then Some (JoinError (replicate n ErrStopped)) else None, gs))
    \<and> (if is_stopping (tw_st w) then w' = w \<and> gs = []
       else length gs = n \<and> tw_len w' = tw_len w + int n)"
proof (cases "is_stopping (tw_st w)")
  case True
  have j: "errors_join (replicate m (Some e)) = (if 0 < m then Some (JoinError (replicate m e)) else None)"
    for m e
    by (simp add: errors_join_def flip: map_replicate)
  show ?thesis
    using True assms(1) go_loop_stopping [OF True] by (simp add: pkg_go_n_def j)
next
  case False
  have j: "errors_join (replicate m None) = None" for m
    by (simp add: errors_join_None_iff)
  from go_loop_running [OF assms(2) False assms(3), of "Fn fn" n "[]" "[]"] False assms(1) show ?thesis
    by (auto simp: pkg_go_n_def j)
qed

lemma empty_clean_setup:
  "clean_setup plain_env (config_sanitize zero_config) c [withCallerOffset k]"
  by (simp add: clean_setup_def task_invoker_def Let_def config_sanitize_def zero_config_def
      apply_task_opts_def run_task_options_def zero_task_def withCallerOffset_def)

theorem go_n_spec_witness:
  "\<exists>w' gs. pkg_go_n (fst init_conf :: nat cworld) plain_env (config_sanitize zero_config)
      (layered [LValue 1 (VUser 5)] (Impl Background 0)) (int 3) (FnPlain (\<lambda>w. (w, Return ()))) [] empty_tworld
    = (w', Return (None, gs)) \<and> length gs = 3 \<and> tw_len w' = tw_len empty_tworld + 3"
proof -
  have f: "from_ctx (fst init_conf :: nat cworld) (layered [LValue 1 (VUser 5)] (Impl Background 0))
      = Some (Impl Background 0)"
    by (simp add: from_ctx_def layered_value impl_value_def)
  have wf: "wf_state (tw_st empty_tworld)" "\<not> is_stopping (tw_st empty_tworld)"
    by (simp_all add: empty_tworld_def wf_new_state is_stopping_def)
  show ?thesis
    using go_n_spec [OF f wf(1), of plain_env "config_sanitize zero_config" "[]" 3] wf(2)
      empty_clean_setup by force
qed

text \<open>
  \<open>StopOnReceive\<close>: after its goroutine has received, the context is stopping with the grace period
  of its options; when the context was stopping already the call does nothing at all.
\<close>

theorem stop_on_receive_spec:
  assumes "cfg_gracePeriod cfg = Some g" and "wf_state (tw_st w)"
  shows "(is_stopping (tw_st w) \<longrightarrow> stop_on_receive en cfg c opts r w = (w, Return None))
    \<and> (\<exists>w'. signal_task cfg [] Received c w = (w', Return None) \<and> is_stopping (tw_st w'))
    \<and> (r \<noteq> Received \<longrightarrow> signal_task cfg opts r c w = (w, Return None))"
proof -
  obtain st cbs where st: "stop_locked (tw_now w) g (tw_st w) = Inr (st, cbs)"
    using soft_stop_no_crash [OF wf_state_core [OF assms(2)]] unfolding stop_locked_def by blast
  have "mu_stopping st"
    using soft_stop_fields(1) [OF wf_state_core [OF assms(2)] st [unfolded stop_locked_def]] .
  with st assms(1) show ?thesis
    by (auto simp: stop_on_receive_def impl_go_def root_apply_def signal_task_def stop_options_def
        stop_sanitize_def then_nil_def root_stop_def is_stopping_def split: ready.splits)
qed

theorem stop_on_receive_spec_witness:
  "\<exists>w'. signal_task (config_sanitize zero_config) [] Received (Impl Background 0) empty_tworld
      = (w', Return None) \<and> is_stopping (tw_st w')"
proof -
  have "cfg_gracePeriod (config_sanitize zero_config) = Some DefaultGracePeriod"
    by (simp add: zero_config_def)
  moreover have "wf_state (tw_st empty_tworld)" by (simp add: empty_tworld_def wf_new_state)
  ultimately show ?thesis using stop_on_receive_spec by blast
qed

end
