(* ===== verification/Task_Info.thy ===== *)
theory Task_Info
  imports Go_Errors "HOL-Library.List_Lexorder" "HOL-Library.Char_ord" "HOL-Library.Product_Lexorder"
begin

text \<open>
  task_info.go: task groups, task infos, their ordering, the textual tree and the JSON summary.
  Groups live in a heap indexed by address; a \<open>sync.Map\<close> used as a set is a list in the order in which
  its \<open>Range\<close> happens to visit it. Strings are lists of bytes, so the box-drawing characters are
  their UTF-8 encodings. \<open>time.Time.Format\<close> is the parameter \<open>fmt_time\<close>; instants are nanoseconds.
  A printed line is one element of the output; \<open>slices.SortFunc\<close> is an insertion sort, and the
  properties hold for every sorted permutation.
\<close>

record tgroup =
  tg_name :: string
  tg_parent :: "nat option"
  tg_children :: "nat list"

record tinfo =
  tk_group :: string
  tk_name :: string
  tk_started :: int
  tk_error :: "goerr option option"

section \<open>Ordering\<close>

definition cmp_compare :: "'a::linorder \<Rightarrow> 'a \<Rightarrow> int" where
  "cmp_compare x y = (if x < y then -1 else if x = y then 0 else 1)"

definition task_state :: "tinfo \<Rightarrow> int" where
  "task_state i = (case tk_error i of None \<Rightarrow> 0 | Some None \<Rightarrow> 1 | Some (Some e) \<Rightarrow> 2)"

definition task_error_text :: "tinfo \<Rightarrow> string" where
  "task_error_text i = (case tk_error i of Some (Some e) \<Rightarrow> error_string e | _ \<Rightarrow> '''')"

definition sort_tasks :: "tinfo \<Rightarrow> tinfo \<Rightarrow> int" where
  "sort_tasks a b =
     (let c1 = cmp_compare (tk_group a) (tk_group b) in
      if c1 \<noteq> 0 then c1 else
      let c2 = cmp_compare (tk_name a) (tk_name b) in
      if c2 \<noteq> 0 then c2 else
      let c3 = cmp_compare (tk_started a) (tk_started b) in
      if c3 \<noteq> 0 then c3 else
      let c4 = cmp_compare (task_state a) (task_state b) in
      if c4 \<noteq> 0 then c4 else
      if task_state a = 2 then cmp_compare (task_error_text a) (task_error_text b) else 0)"

definition cmp_group :: "string \<times> 'a \<Rightarrow> string \<times> 'a \<Rightarrow> int" where
  "cmp_group a b = cmp_compare (fst a) (fst b)"

fun insort_func :: "('a \<Rightarrow> 'a \<Rightarrow> int) \<Rightarrow> 'a \<Rightarrow> 'a list \<Rightarrow> 'a list" where
  "insort_func c x [] = [x]"
| "insort_func c x (y # ys) = (if c x y \<le> 0 then x # y # ys else y # insort_func c x ys)"

definition sort_func :: "('a \<Rightarrow> 'a \<Rightarrow> int) \<Rightarrow> 'a list \<Rightarrow> 'a list" where
  "sort_func c xs = foldr (insort_func c) xs []"

section \<open>Text and JSON of a task\<close>

definition task_string :: "(int \<Rightarrow> string) \<Rightarrow> tinfo \<Rightarrow> string" where
  "task_string fmt_time i =
     (let state = (case tk_error i of
                     None \<Rightarrow> ''(running)''
                   | Some None \<Rightarrow> ''(success)''
                   | Some (Some e) \<Rightarrow> ''(failed '' @ error_string e @ '')'')
      in tk_group i @ ''.'' @ tk_name i @ '' (started '' @ fmt_time (tk_started i) @ '') '' @ state)"

datatype json = JStr string | JArr "json list" | JObj "(string \<times> json) list"

text \<open>A string field with \<open>omitempty\<close>.\<close>

definition omit_str :: "string \<Rightarrow> string \<Rightarrow> (string \<times> json) list" where
  "omit_str k v = (if v = '''' then [] else [(k, JStr v)])"

definition omit_arr :: "string \<Rightarrow> json list \<Rightarrow> (string \<times> json) list" where
  "omit_arr k v = (if v = [] then [] else [(k, JArr v)])"

definition task_json :: "(int \<Rightarrow> string) \<Rightarrow> tinfo \<Rightarrow> json" where
  "task_json json_time i =
     (let (err, state) = (case tk_error i of
                            None \<Rightarrow> ('''', ''running'')
                          | Some None \<Rightarrow> ('''', ''success'')
                          | Some (Some e) \<Rightarrow> (error_string e, ''failed''))
      in JObj (omit_str ''contextName'' (tk_group i) @ omit_str ''error'' err
           @ [(''started'', JStr (json_time (tk_started i)))]
           @ omit_str ''state'' state @ omit_str ''taskName'' (tk_name i)))"

section \<open>Groups\<close>

text \<open>The part of \<open>newContext\<close> and of its cleanup that keeps the children sets.\<close>

definition group_new :: "string \<Rightarrow> nat option \<Rightarrow> tgroup list \<Rightarrow> nat \<times> tgroup list" where
  "group_new name par gs =
     (let g = length gs;
          gs1 = gs @ [\<lparr>tg_name = name, tg_parent = par, tg_children = []\<rparr>]
      in (g, case par of
               None \<Rightarrow> gs1
             | Some p \<Rightarrow> gs1[p := (gs1 ! p)\<lparr>tg_children := tg_children (gs1 ! p) @ [g]\<rparr>]))"

definition group_delete :: "nat \<Rightarrow> tgroup list \<Rightarrow> tgroup list" where
  "group_delete g gs =
     (case tg_parent (gs ! g) of
        None \<Rightarrow> gs
      | Some p \<Rightarrow> gs[p := (gs ! p)\<lparr>tg_children := filter (\<lambda>c. c \<noteq> g) (tg_children (gs ! p))\<rparr>])"

text \<open>The accessors; \<open>ts g\<close> is the set of tasks of the group \<open>g\<close>. The results are appended to \<open>buf\<close>.\<close>

definition group_children :: "tgroup list \<Rightarrow> nat \<Rightarrow> nat list \<Rightarrow> nat list" where
  "group_children gs g buf = buf @ tg_children (gs ! g)"

definition group_tasks :: "(nat \<Rightarrow> tinfo list) \<Rightarrow> nat \<Rightarrow> tinfo list \<Rightarrow> tinfo list" where
  "group_tasks ts g buf = buf @ ts g"

definition group_string :: "tgroup list \<Rightarrow> nat \<Rightarrow> string" where
  "group_string gs g = tg_name (gs ! g)"

text \<open>What a traversal of the group \<open>g\<close> sees: its name, its tasks and its children.\<close>

datatype gtree = GTree (gt_name: string) (gt_tasks: "tinfo list") (gt_children: "gtree list")

function group_tree :: "tgroup list \<Rightarrow> (nat \<Rightarrow> tinfo list) \<Rightarrow> nat \<Rightarrow> gtree" where
  "group_tree gs ts g =
     GTree (group_string gs g) (group_tasks ts g [])
       (map (group_tree gs ts)
         (filter (\<lambda>c. g < c \<and> c < length gs) (group_children gs g [])))"
  by pat_completeness auto
termination
  by (relation "measure (\<lambda>(gs, ts, g). length gs - g)") auto

declare group_tree.simps [simp del]

section \<open>The tree\<close>

definition tee :: string where
  "tee = [CHR 0xE2, CHR 0x94, CHR 0x9C, CHR 0xE2, CHR 0x94, CHR 0x80, CHR 0xE2, CHR 0x94, CHR 0x80, CHR '' '']"

definition corner :: string where
  "corner = [CHR 0xE2, CHR 0x94, CHR 0x94, CHR 0xE2, CHR 0x94, CHR 0x80, CHR 0xE2, CHR 0x94, CHR 0x80, CHR '' '']"

definition bar :: string where
  "bar = [CHR 0xE2, CHR 0x94, CHR 0x82, CHR '' '', CHR '' '', CHR '' '']"

definition marker :: "bool \<Rightarrow> string" where
  "marker isLast = (if isLast then corner else tee)"

definition next_prefix :: "string \<Rightarrow> bool \<Rightarrow> bool \<Rightarrow> string" where
  "next_prefix prefix isLast isRoot =
     (if isRoot then '''' else if isLast then prefix @ ''    '' else prefix @ bar)"

text \<open>
  \<open>renderTaskTree\<close>. The children are rendered before they are sorted by name, which gives the same
  lines; \<open>numbered\<close> is the range over a slice with its index.
\<close>

definition numbered :: "'a list \<Rightarrow> (nat \<times> 'a) list" where
  "numbered xs = zip [0..<length xs] xs"

definition task_lines :: "(int \<Rightarrow> string) \<Rightarrow> string \<Rightarrow> nat \<Rightarrow> tinfo list \<Rightarrow> string list" where
  "task_lines fmt_time nxt ntotal tasks =
     map (\<lambda>(i, t). nxt @ marker (i = ntotal - 1) @ task_string fmt_time t) (numbered tasks)"

fun render :: "(int \<Rightarrow> string) \<Rightarrow> gtree \<Rightarrow> string \<Rightarrow> bool \<Rightarrow> bool \<Rightarrow> string list" where
  "render fmt_time (GTree name ts cs) prefix isLast isRoot =
     (let nxt = next_prefix prefix isLast isRoot;
          tasks = sort_func sort_tasks ts;
          ntotal = length tasks + length cs;
          children = sort_func cmp_group (map (\<lambda>c. (gt_name c, render fmt_time c nxt)) cs)
      in (if isRoot then name else prefix @ marker isLast @ name)
         # task_lines fmt_time nxt ntotal tasks
         @ concat (map (\<lambda>(i, (_, draw)). draw (length tasks + i = ntotal - 1) False) (numbered children)))"

definition task_tree :: "(int \<Rightarrow> string) \<Rightarrow> gtree option \<Rightarrow> string" where
  "task_tree fmt_time g =
     (case g of
        None \<Rightarrow> ''''
      | Some t \<Rightarrow> concat (map (\<lambda>l. l @ [CHR 0x0A]) (render fmt_time t '''' True True)))"

fun group_json :: "(int \<Rightarrow> string) \<Rightarrow> gtree \<Rightarrow> json" where
  "group_json json_time (GTree name ts cs) =
     JObj (omit_arr ''children'' (map snd (sort_func cmp_group (map (\<lambda>c. (gt_name c, group_json json_time c)) cs)))
       @ omit_str ''name'' name
       @ omit_arr ''tasks'' (map (task_json json_time) (sort_func sort_tasks ts)))"

section \<open>The order is a total preorder\<close>

definition task_key :: "tinfo \<Rightarrow> string \<times> string \<times> int \<times> int \<times> string" where
  "task_key i = (tk_group i, tk_name i, tk_started i, task_state i, task_error_text i)"

lemma cmp_compare_simps [simp]:
  "cmp_compare x y \<le> 0 \<longleftrightarrow> x \<le> y" "cmp_compare x y = 0 \<longleftrightarrow> x = y" "cmp_compare x y < 0 \<longleftrightarrow> x < y"
  by (auto simp: cmp_compare_def)

lemma task_error_text_state: "task_state i \<noteq> 2 \<Longrightarrow> task_error_text i = ''''"
  by (auto simp: task_state_def task_error_text_def split: option.splits)

lemma sort_tasks_key: "sort_tasks a b = cmp_compare (task_key a) (task_key b)"
  using task_error_text_state [of a] task_error_text_state [of b]
  by (auto simp: sort_tasks_def task_key_def cmp_compare_def Let_def)

lemma mset_insort_func [simp]: "mset (insort_func c x xs) = add_mset x (mset xs)"
  by (induction xs) auto

lemma mset_sort_func [simp]: "mset (sort_func c xs) = mset xs"
  by (induction xs) (auto simp: sort_func_def)

lemma length_sort_func [simp]: "length (sort_func c xs) = length xs"
  by (metis mset_sort_func size_mset)

lemma insort_func_sorted:
  assumes "\<And>a b. c a b \<le> 0 \<longleftrightarrow> f a \<le> (f b :: 'k::linorder)" and "sorted (map f xs)"
  shows "sorted (map f (insort_func c x xs))"
  using assms(2)
proof (induction xs)
  case (Cons y ys)
  have s: "set (insort_func c x ys) = insert x (set ys)"
    by (metis mset_insort_func set_mset_add_mset_insert set_mset_mset)
  from Cons assms(1) show ?case by (auto simp: s)
qed simp

lemma sort_func_sorted:
  "(\<And>a b. c a b \<le> 0 \<longleftrightarrow> f a \<le> (f b :: 'k::linorder)) \<Longrightarrow> sorted (map f (sort_func c xs))"
  by (induction xs) (auto simp: sort_func_def intro: insort_func_sorted)

text \<open>The text of a task is a function of its key.\<close>

lemma task_string_key: "task_key a = task_key b \<Longrightarrow> task_string f a = task_string f b"
  by (auto simp: task_key_def task_state_def task_error_text_def task_string_def split: option.splits)

lemma same_key_lists:
  assumes "map task_key xs = map task_key ys"
  shows "map (task_string f) xs = map (task_string f) ys"
proof (rule nth_equalityI)
  show l: "length (map (task_string f) xs) = length (map (task_string f) ys)"
    using assms by (metis length_map)
  fix i assume "i < length (map (task_string f) xs)"
  with assms l show "map (task_string f) xs ! i = map (task_string f) ys ! i"
    by (metis length_map nth_map task_string_key)
qed

lemma sorted_keys_unique:
  assumes "mset xs = mset ys" and "sorted (map f xs)" and "sorted (map f ys)"
  shows "map f xs = map f ys"
proof -
  have "mset (map f xs) = mset (map f ys)" using assms(1) by simp
  from properties_for_sort [OF this assms(2)] have "sort (map f ys) = map f xs" .
  then show ?thesis using sorted_sort_id [OF assms(3)] by simp
qed

section \<open>Properties\<close>

lemma same_mset_distinct_keys:
  assumes "mset xs = mset ys" and "map f xs = map f ys" and "distinct (map f xs)"
  shows "xs = ys"
proof (rule nth_equalityI)
  show "length xs = length ys" using assms(1) by (metis size_mset)
  fix i assume i: "i < length xs"
  then have "f (xs ! i) = f (ys ! i)" using assms(2) by (metis length_map nth_map)
  moreover have "xs ! i \<in> set xs" "ys ! i \<in> set xs"
    using i assms(1,2) by (metis nth_mem, metis length_map nth_mem set_mset_mset)
  ultimately show "xs ! i = ys ! i" using assms(3) by (auto simp: distinct_map inj_on_def)
qed

lemma cmp_group_key: "cmp_group a b \<le> 0 \<longleftrightarrow> fst a \<le> fst b"
  by (simp add: cmp_group_def)

lemma sort_group_unique:
  assumes "mset xs = mset ys" and "distinct (map fst xs)"
  shows "sort_func cmp_group xs = sort_func cmp_group ys"
proof (rule same_mset_distinct_keys [where f = fst])
  show "mset (sort_func cmp_group xs) = mset (sort_func cmp_group ys)" using assms(1) by simp
  have "sorted (map fst (sort_func cmp_group zs))" for zs :: "(string \<times> 'a) list"
    by (rule sort_func_sorted) (rule cmp_group_key)
  then show "map fst (sort_func cmp_group xs) = map fst (sort_func cmp_group ys)"
    using assms(1) by (intro sorted_keys_unique) simp_all
  have "mset (map fst (sort_func cmp_group xs)) = mset (map fst xs)" by simp
  then show "distinct (map fst (sort_func cmp_group xs))"
    using assms(2) mset_eq_imp_distinct_iff by blast
qed

lemma sort_tasks_unique:
  assumes "mset xs = mset ys"
  shows "map (task_string f) (sort_func sort_tasks xs) = map (task_string f) (sort_func sort_tasks ys)"
proof -
  have "sorted (map task_key (sort_func sort_tasks zs))" for zs
    by (rule sort_func_sorted) (simp add: sort_tasks_key)
  with assms show ?thesis by (intro same_key_lists sorted_keys_unique) auto
qed

lemma task_lines_text:
  assumes "map (task_string f) xs = map (task_string f) ys"
  shows "task_lines f nxt n xs = task_lines f nxt n ys"
proof -
  have l: "length xs = length ys" using assms by (metis length_map)
  have "task_lines f nxt n zs = map (\<lambda>(i, t). nxt @ marker (i = n - 1) @ t)
      (zip [0..<length zs] (map (task_string f) zs))" for zs
    by (auto simp: task_lines_def numbered_def zip_map2 comp_def split_beta)
  with assms l show ?thesis by simp
qed

text \<open>
  The printed tree does not depend on the order in which the sets of tasks and child groups are
  visited, as long as the children of a group have different names: equal tasks print the same text,
  so even an unstable sort of the tasks gives the same lines.
\<close>

theorem tree_order_independent:
  assumes "mset ts = mset ts'" and "mset cs = mset cs'" and "distinct (map gt_name cs)"
  shows "task_tree f (Some (GTree n ts cs)) = task_tree f (Some (GTree n ts' cs'))"
proof -
  let ?d = "\<lambda>c. (gt_name c, render f c (next_prefix '''' True True))"
  have len: "length ts = length ts'" "length cs = length cs'"
    using assms(1,2) by (metis size_mset)+
  have "sort_func cmp_group (map ?d cs) = sort_func cmp_group (map ?d cs')"
    using assms(2,3) by (intro sort_group_unique) (auto simp: comp_def)
  moreover have "task_lines f nxt m (sort_func sort_tasks ts) = task_lines f nxt m (sort_func sort_tasks ts')"
    for nxt m
    by (rule task_lines_text [OF sort_tasks_unique [OF assms(1)]])
  ultimately show ?thesis by (simp add: task_tree_def Let_def len)
qed

theorem tree_order_independent_witness:
  "task_tree (\<lambda>_. ''now'') (Some (GTree ''app'' [] [GTree ''a'' [] [], GTree ''b'' [] []]))
     = task_tree (\<lambda>_. ''now'') (Some (GTree ''app'' [] [GTree ''b'' [] [], GTree ''a'' [] []]))"
  by (rule tree_order_independent) simp_all

text \<open>
  With two child groups of the same name (two child contexts made by the same line of code have
  one) the output does depend on the order of the set: the documented stability does not hold.
\<close>

theorem tree_unstable_equal_names:
  "\<exists>a b. gt_name a = gt_name b
    \<and> task_tree f (Some (GTree ''app'' [] [a, b])) \<noteq> task_tree f (Some (GTree ''app'' [] [b, a]))"
proof (intro exI conjI)
  let ?a = "GTree ''db'' [] []" and ?b = "GTree ''db'' [] [GTree ''pool'' [] []]"
  show "gt_name ?a = gt_name ?b" by simp
  show "task_tree f (Some (GTree ''app'' [] [?a, ?b])) \<noteq> task_tree f (Some (GTree ''app'' [] [?b, ?a]))"
    by (simp add: task_tree_def sort_func_def cmp_group_def task_lines_def numbered_def next_prefix_def
        marker_def tee_def corner_def bar_def)
qed

lemma sum_list_perm:
  fixes h :: "'a \<Rightarrow> nat"
  assumes "mset xs = mset ys"
  shows "sum_list (map h xs) = sum_list (map h ys)"
proof -
  have "sum_mset (image_mset h (mset xs)) = sum_mset (image_mset h (mset ys))" using assms by simp
  then show ?thesis by (simp only: mset_map [symmetric] sum_mset_sum_list)
qed

lemma length_task_lines: "length (task_lines f nxt n ts) = length ts"
  by (simp add: task_lines_def numbered_def)

lemma length_draws:
  assumes "\<And>d b. d \<in> set xs \<Longrightarrow> length (snd d b False) = sz d"
  shows "length (concat (map (\<lambda>(i, (_, draw)). draw (g i) False) (numbered xs))) = sum_list (map sz xs)"
proof -
  have "length (concat (map (\<lambda>(i, (_, draw)). draw (g i) False) (zip is xs))) = sum_list (map sz xs)"
    if "length is = length xs" for "is"
    using that assms
  proof (induction "is" xs rule: list_induct2)
    case (Cons i "is" x xs)
    then show ?case by (cases x) force
  qed simp
  then show ?thesis by (simp add: numbered_def)
qed

fun tree_entries :: "gtree \<Rightarrow> nat" where
  "tree_entries (GTree n ts cs) = Suc (length ts + sum_list (map tree_entries cs))"

text \<open>
  The tree is complete: one line for every group and one for every task, the root's name first.
\<close>

theorem tree_complete:
  "length (render f t prefix isLast isRoot) = tree_entries t
   \<and> hd (render f t prefix isLast isRoot)
       = (if isRoot then gt_name t else prefix @ marker isLast @ gt_name t)"
proof
  show "length (render f t prefix isLast isRoot) = tree_entries t"
  proof (induction t arbitrary: prefix isLast isRoot)
    case (GTree n ts cs)
    let ?nxt = "next_prefix prefix isLast isRoot"
    let ?ds = "map (\<lambda>c. (gt_name c, render f c ?nxt)) cs"
    let ?sorted = "sort_func cmp_group ?ds"
    have mem: "\<exists>c\<in>set cs. d = (gt_name c, render f c ?nxt)" if "d \<in> set ?sorted" for d
    proof -
      have "set ?sorted = set ?ds" by (rule mset_eq_setD) (rule mset_sort_func)
      with that show ?thesis by auto
    qed
    define sz where "sz = (\<lambda>d :: string \<times> (bool \<Rightarrow> bool \<Rightarrow> string list). length (snd d True False))"
    have const: "length (snd d b False) = sz d" if "d \<in> set ?sorted" for d b
    proof -
      from mem [OF that] obtain c where c: "c \<in> set cs" and d: "d = (gt_name c, render f c ?nxt)" by blast
      show ?thesis unfolding d sz_def snd_conv GTree [OF c] ..
    qed
    have "sum_list (map sz ?sorted) = sum_list (map sz ?ds)"
      by (rule sum_list_perm) (rule mset_sort_func)
    also have "map sz ?ds = map tree_entries cs"
      unfolding map_map comp_def sz_def snd_conv by (rule map_cong [OF refl]) (rule GTree)
    finally have "sum_list (map sz ?sorted) = sum_list (map tree_entries cs)" .
    with length_draws [of ?sorted sz, OF const]
    have draws: "length (concat (map (\<lambda>(i, (_, draw)). draw (g i) False) (numbered ?sorted)))
        = sum_list (map tree_entries cs)" for g :: "nat \<Rightarrow> bool"
      by (rule trans)
    show ?case
      unfolding render.simps Let_def list.size(4) length_append length_task_lines length_sort_func
        tree_entries.simps draws by simp
  qed
  show "hd (render f t prefix isLast isRoot)
       = (if isRoot then gt_name t else prefix @ marker isLast @ gt_name t)"
    by (cases t) (simp add: Let_def)
qed

text \<open>
  The life of a group. A new child context's group appears among its parent's children and
  nowhere else; its cleanup takes it out again and leaves the other groups as they were.
\<close>

theorem group_lifecycle:
  assumes "p < length gs" and "length gs \<notin> set (tg_children (gs ! p))"
  shows "case group_new name (Some p) gs of (g, gs1) \<Rightarrow>
      g \<in> set (tg_children (gs1 ! p)) \<and> tg_name (gs1 ! g) = name \<and> tg_parent (gs1 ! g) = Some p
      \<and> (\<forall>q<length gs. q \<noteq> p \<longrightarrow> gs1 ! q = gs ! q)
      \<and> take (length gs) (group_delete g gs1) = gs"
proof -
  let ?g = "length gs"
  let ?gs = "gs @ [\<lparr>tg_name = name, tg_parent = Some p, tg_children = []\<rparr>]"
  let ?gs1 = "?gs[p := (?gs ! p)\<lparr>tg_children := tg_children (?gs ! p) @ [?g]\<rparr>]"
  have n: "group_new name (Some p) gs = (?g, ?gs1)" by (simp add: group_new_def Let_def)
  have f: "filter (\<lambda>c. c \<noteq> ?g) (tg_children (gs ! p)) = tg_children (gs ! p)"
    using assms(2) by (metis (mono_tags, lifting) filter_True)
  have "take ?g (group_delete ?g ?gs1) = gs"
  proof (rule nth_equalityI)
    fix i assume "i < length (take ?g (group_delete ?g ?gs1))"
    with assms f show "take ?g (group_delete ?g ?gs1) ! i = gs ! i"
      by (auto simp: group_delete_def nth_append nth_list_update)
  qed (use assms in \<open>simp add: group_delete_def nth_append nth_list_update\<close>)
  with n assms show ?thesis by (simp add: nth_append nth_list_update)
qed

theorem group_lifecycle_witness:
  "take 1 (group_delete 1 (snd (group_new ''db'' (Some 0)
      [\<lparr>tg_name = ''app'', tg_parent = None, tg_children = []\<rparr>])))
   = [\<lparr>tg_name = ''app'', tg_parent = None, tg_children = []\<rparr>]"
  using group_lifecycle [of 0 "[\<lparr>tg_name = ''app'', tg_parent = None, tg_children = []\<rparr>]" "''db''"]
  by (simp add: group_new_def)

end
