(* ===== verification/Retry.thy ===== *)
theory Retry
  imports Stopper
begin

text \<open>
  retry/: the retry middleware over a classifier, and the two classifiers of the package. The channel a
  classifier returns is a datatype; the case that \<open>waitOnChannel\<close>'s select takes is chosen by the
  parameter \<open>sel\<close>, which may change the world (time passes, other goroutines run); a wait that never
  ends is outside the model. The loop may run for ever with an arbitrary classifier, so it is a
  partial function; \<open>retry_fuel n\<close> makes at most \<open>n\<close> attempts. The user's \<open>Retryable\<close> is a predicate.
  Durations are nanoseconds, unbounded (a delay and its jitter together would have to exceed 292 years to
  wrap); a finite float32 is a pair of a significand of at most 24 bits and a binary exponent, and
  \<open>rand.Float32\<close> is a parameter.
\<close>

datatype retry_chan = ChanReady | ChanClosed | ChanAfter int

datatype wait_case = GotValue | GotClosed | GotStopping | GotDone "goerr option"

type_synonym ('s, 'st) classifier =
  "gctx \<Rightarrow> 'st \<Rightarrow> goerr \<Rightarrow> ('s, 'st \<times> retry_chan option \<times> goerr option) comp"

type_synonym 's selector = "gctx \<Rightarrow> retry_chan \<Rightarrow> 's tworld \<Rightarrow> 's tworld \<times> wait_case"

section \<open>The middleware\<close>

definition wait_on_channel ::
  "'s selector \<Rightarrow> gctx \<Rightarrow> retry_chan \<Rightarrow> goerr \<Rightarrow> 's tworld \<Rightarrow> 's tworld \<times> goerr option" where
  "wait_on_channel sel ctx nxt err w =
     (case sel ctx nxt w of
        (w1, GotValue) \<Rightarrow> (w1, None)
      | (w1, GotClosed) \<Rightarrow> (w1, Some err)
      | (w1, GotStopping) \<Rightarrow> (w1, errors_join [Some err, Some ErrStopped])
      | (w1, GotDone e) \<Rightarrow> (w1, errors_join [Some err, e]))"

text \<open>One turn of the loop: it ends with an outcome (\<open>Inl\<close>) or goes round with a new state (\<open>Inr\<close>).\<close>

definition retry_turn ::
  "('s, 'st) classifier \<Rightarrow> 's selector \<Rightarrow> gctx \<Rightarrow> 's tfunc \<Rightarrow> 'st \<Rightarrow> 's tworld
     \<Rightarrow> 's tworld \<times> (goerr option outcome + 'st)" where
  "retry_turn cl sel ctx task st w =
     (case task ctx w of
        (w1, Panic r) \<Rightarrow> (w1, Inl (Panic r))
      | (w1, Return None) \<Rightarrow> (w1, Inl (Return None))
      | (w1, Return (Some err)) \<Rightarrow>
          (case cl ctx st err w1 of
             (w2, Panic r) \<Rightarrow> (w2, Inl (Panic r))
           | (w2, Return (st', nxt, fail)) \<Rightarrow>
               if fail \<noteq> None then (w2, Inl (Return fail))
               else case nxt of
                      None \<Rightarrow> (w2, Inl (Return None))
                    | Some ch \<Rightarrow>
                        (case wait_on_channel sel ctx ch err w2 of
                           (w3, Some e) \<Rightarrow> (w3, Inl (Return (Some e)))
                         | (w3, None) \<Rightarrow> (w3, Inr st'))))"

partial_function (option) retry_loop ::
  "('s, 'st) classifier \<Rightarrow> 's selector \<Rightarrow> gctx \<Rightarrow> 's tfunc \<Rightarrow> 'st \<Rightarrow> 's tworld
     \<Rightarrow> ('s tworld \<times> goerr option outcome) option" where
  "retry_loop cl sel ctx task st w =
     (case retry_turn cl sel ctx task st w of
        (w1, Inl out) \<Rightarrow> Some (w1, out)
      | (w1, Inr st') \<Rightarrow> retry_loop cl sel ctx task st' w1)"

fun retry_fuel ::
  "nat \<Rightarrow> ('s, 'st) classifier \<Rightarrow> 's selector \<Rightarrow> gctx \<Rightarrow> 's tfunc \<Rightarrow> 'st \<Rightarrow> 's tworld
     \<Rightarrow> ('s tworld \<times> goerr option outcome) option" where
  "retry_fuel 0 cl sel ctx task st w = None"
| "retry_fuel (Suc n) cl sel ctx task st w =
     (case retry_turn cl sel ctx task st w of
        (w1, Inl out) \<Rightarrow> Some (w1, out)
      | (w1, Inr st') \<Rightarrow> retry_fuel n cl sel ctx task st' w1)"

section \<open>Loop\<close>

record loop_cfg =
  lp_MaxAttempts :: int
  lp_Retryable :: "(goerr \<Rightarrow> bool) option"

definition loop_attempts :: "loop_cfg \<Rightarrow> int" where
  "loop_attempts l = (if lp_MaxAttempts l = 0 then 2 else lp_MaxAttempts l)"

definition loop_retryable :: "loop_cfg \<Rightarrow> goerr \<Rightarrow> bool" where
  "loop_retryable l = (case lp_Retryable l of None \<Rightarrow> (\<lambda>_. True) | Some f \<Rightarrow> f)"

definition loop_classifier :: "loop_cfg \<Rightarrow> ('s, int) classifier" where
  "loop_classifier l ctx st err w =
     (if \<not> loop_retryable l err then (w, Return (st, None, Some err))
      else
        let st' = st + 1 in
        if st' \<ge> loop_attempts l then (w, Return (st', None, Some (MaxAttemptsError (Some err))))
        else (w, Return (st', Some ChanReady, None)))"

section \<open>Backoff\<close>

text \<open>
  Conversion to float32 and multiplication, both rounding to 24 significant bits, ties to even; and
  conversion back to int64, truncating, with an implementation-defined value \<open>oor\<close> out of range.
\<close>

fun bit_len :: "nat \<Rightarrow> nat" where
  "bit_len n = (if n = 0 then 0 else Suc (bit_len (n div 2)))"

declare bit_len.simps [simp del]

definition round_half_even :: "nat \<Rightarrow> nat \<Rightarrow> nat" where
  "round_half_even n k =
     (let q = n div 2 ^ k; r = n mod 2 ^ k; half = 2 ^ (k - 1) in
      if k = 0 \<or> r < half \<or> (r = half \<and> even q) then q else q + 1)"

definition round24 :: "int \<Rightarrow> int" where
  "round24 x =
     (let n = nat \<bar>x\<bar>; k = bit_len n - 24 in
      if n < 2 ^ 24 then x else sgn x * int (round_half_even n k * 2 ^ k))"

type_synonym f32 = "int \<times> int"

definition f32_mul_trunc :: "int \<Rightarrow> f32 \<Rightarrow> int \<Rightarrow> int" where
  "f32_mul_trunc x m oor =
     (let p = round24 (round24 x * fst m);
          y = (if 0 \<le> snd m then p * 2 ^ nat (snd m) else sgn p * (\<bar>p\<bar> div 2 ^ nat (- snd m)))
      in if - (2 ^ 63) \<le> y \<and> y < 2 ^ 63 then y else oor)"

record backoff_cfg =
  bk_Jitter :: int
  bk_MaxAttempts :: int
  bk_MaxDelay :: int
  bk_MinDelay :: int
  bk_Multiplier :: f32
  bk_Retryable :: "(goerr \<Rightarrow> bool) option"

record backoff_state =
  bs_count :: int
  bs_delay :: int

definition backoff_sanitize :: "backoff_cfg \<Rightarrow> backoff_cfg" where
  "backoff_sanitize b =
     (let b1 = (if bk_MaxAttempts b = 0 then b\<lparr>bk_MaxAttempts := 4\<rparr> else b);
          b2 = (if bk_MaxDelay b1 = 0 then b1\<lparr>bk_MaxDelay := 1000000000\<rparr> else b1);
          b3 = (if bk_MinDelay b2 = 0 then b2\<lparr>bk_MinDelay := 10 * 1000000\<rparr> else b2);
          b4 = (if fst (bk_Multiplier b3) = 0 then b3\<lparr>bk_Multiplier := (10, 0)\<rparr> else b3)
      in (if bk_Retryable b4 = None then b4\<lparr>bk_Retryable := Some (\<lambda>_. True)\<rparr> else b4))"

definition zero_backoff_state :: backoff_state where
  "zero_backoff_state = \<lparr>bs_count = 0, bs_delay = 0\<rparr>"

definition next_delay :: "backoff_cfg \<Rightarrow> int \<Rightarrow> int \<Rightarrow> int" where
  "next_delay b oor delay =
     min (max (bk_MinDelay b) (f32_mul_trunc delay (bk_Multiplier b) oor)) (bk_MaxDelay b)"

text \<open>
  \<open>(rand.Float32() - 0.5) * float32(b.Jitter)\<close> as a duration: the subtraction is exact up to rounding on
  the grid of the random number, whose exponent is negative unless it is zero.
\<close>

definition f32_minus_half :: "f32 \<Rightarrow> f32" where
  "f32_minus_half r =
     (if fst r = 0 then (- 1, - 1) else (round24 (fst r - 2 ^ nat (- snd r - 1)), snd r))"

definition jitter_of :: "backoff_cfg \<Rightarrow> int \<Rightarrow> f32 \<Rightarrow> int" where
  "jitter_of b oor r = f32_mul_trunc (bk_Jitter b) (f32_minus_half r) oor"

text \<open>\<open>rnd\<close> is \<open>rand.Float32()\<close>; what is documented of it is that it lies in [0, 1).\<close>

definition unit_f32 :: "f32 \<Rightarrow> bool" where
  "unit_f32 r \<longleftrightarrow> 0 \<le> fst r \<and> (fst r = 0 \<or> snd r < 0 \<and> fst r < 2 ^ nat (- snd r))"

definition backoff_classifier ::
  "backoff_cfg \<Rightarrow> int \<Rightarrow> ('s tworld \<Rightarrow> f32) \<Rightarrow> ('s, backoff_state) classifier" where
  "backoff_classifier b oor rnd ctx st err w =
     (case bk_Retryable b of
        None \<Rightarrow> (w, Panic (PanicOther ''nil pointer dereference''))
      | Some f \<Rightarrow>
          if \<not> f err then (w, Return (st, None, Some err))
          else
            let st1 = st\<lparr>bs_count := bs_count st + 1\<rparr> in
            if bs_count st1 \<ge> bk_MaxAttempts b then
              (w, Return (st1, None, Some (MaxAttemptsError (Some err))))
            else
              let st2 = st1\<lparr>bs_delay := next_delay b oor (bs_delay st1)\<rparr> in
              (w, Return (st2, Some (ChanAfter (bs_delay st2 + jitter_of b oor (rnd w))), None)))"

section \<open>Rounding to float32\<close>

text \<open>A magnitude that float32 can represent.\<close>

definition f32_nat :: "nat \<Rightarrow> bool" where
  "f32_nat b \<longleftrightarrow> (\<exists>s t. s < 2 ^ 24 \<and> b = s * 2 ^ t)"

lemma bit_len_bounds: "n < 2 ^ bit_len n" "0 < n \<Longrightarrow> 2 ^ (bit_len n - 1) \<le> n"
proof (induction n rule: bit_len.induct)
  case (1 n)
  { case 1
    show ?case
    proof (cases "n = 0")
      case False
      with "1.IH"(1) have "n div 2 < 2 ^ bit_len (n div 2)" by simp
      with False show ?thesis by (subst bit_len.simps) simp
    qed (simp add: bit_len.simps)
  next
    case 2
    show ?case
    proof (cases "n div 2 = 0")
      case True
      with 2 have "n = 1" by simp
      then show ?thesis by (simp add: bit_len.simps)
    next
      case False
      with "1.IH"(2) 2 have h: "2 ^ (bit_len (n div 2) - 1) \<le> n div 2" by simp
      have "bit_len (n div 2) = Suc (bit_len (n div 2) - 1)" using False by (simp add: bit_len.simps [of "n div 2"])
      then have "2 ^ bit_len (n div 2) = 2 * 2 ^ (bit_len (n div 2) - 1)" by (metis power_Suc)
      also have "\<dots> \<le> n" using h by linarith
      finally show ?thesis using 2 by (subst bit_len.simps) simp
    qed
  }
qed

definition round_nat :: "nat \<Rightarrow> nat" where
  "round_nat n = (if n < 2 ^ 24 then n else round_half_even n (bit_len n - 24) * 2 ^ (bit_len n - 24))"

lemma round24_abs: "\<bar>round24 x\<bar> = int (round_nat (nat \<bar>x\<bar>))"
  by (auto simp: round24_def round_nat_def Let_def abs_mult abs_sgn_eq)

lemma round24_sgn: "0 \<le> x \<Longrightarrow> 0 \<le> round24 x" "x \<le> 0 \<Longrightarrow> round24 x \<le> 0"
  by (auto simp: round24_def Let_def sgn_if)

lemma big_bit_len:
  assumes "\<not> n < 2 ^ 24"
  shows "24 < bit_len n" and "2 ^ (bit_len n - 24 + 23) \<le> n" and "n < 2 ^ (bit_len n - 24 + 24)"
proof -
  have "2 ^ 24 < (2::nat) ^ bit_len n" using bit_len_bounds(1) [of n] assms by linarith
  then show l: "24 < bit_len n" by (rule power_less_imp_less_exp [rotated]) simp
  then have e: "bit_len n - 24 + 23 = bit_len n - 1" "bit_len n - 24 + 24 = bit_len n" by simp_all
  have "0 < n" using assms by (cases n) auto
  then show "2 ^ (bit_len n - 24 + 23) \<le> n" unfolding e by (rule bit_len_bounds(2))
  show "n < 2 ^ (bit_len n - 24 + 24)" unfolding e by (rule bit_len_bounds(1))
qed

lemma round_half_even_cases:
  "round_half_even n k = n div 2 ^ k \<or> (0 < n mod 2 ^ k \<and> round_half_even n k = n div 2 ^ k + 1)"
proof (cases "n mod 2 ^ k = 0")
  case True
  moreover have "k = 0 \<or> (0::nat) < 2 ^ (k - 1)" by simp
  ultimately show ?thesis by (auto simp: round_half_even_def Let_def)
qed (auto simp: round_half_even_def Let_def)

text \<open>Rounding never passes a representable magnitude.\<close>

lemma round_nat_le:
  assumes "n \<le> b" and "f32_nat b"
  shows "round_nat n \<le> b"
proof (cases "n < 2 ^ 24")
  case False
  let ?k = "bit_len n - 24" and ?q = "n div 2 ^ (bit_len n - 24)"
  obtain s t where b: "s < 2 ^ 24" "b = s * 2 ^ t" using assms(2) by (auto simp: f32_nat_def)
  have "2 ^ (?k + 23) \<le> s * 2 ^ t" using big_bit_len(2) [OF False] assms(1) b(2) by linarith
  also have "\<dots> < 2 ^ 24 * 2 ^ t" using b(1) by simp
  also have "\<dots> = 2 ^ (t + 24)" by (simp add: power_add)
  finally have "?k + 23 < t + 24" by simp
  then have "2 ^ ?k dvd b" unfolding b(2) by (simp add: le_imp_power_dvd)
  then obtain m where m: "b = 2 ^ ?k * m" by blast
  have n: "?q * 2 ^ ?k + n mod 2 ^ ?k = n" by (rule div_mult_mod_eq)
  have "round_half_even n ?k * 2 ^ ?k \<le> b"
  proof (cases "round_half_even n ?k = ?q")
    case True
    have "?q * 2 ^ ?k \<le> n" using n by (metis le_add1)
    then show ?thesis using assms(1) unfolding True by (rule order_trans)
  next
    case False
    with round_half_even_cases [of n ?k] have r: "0 < n mod 2 ^ ?k" "round_half_even n ?k = ?q + 1" by auto
    then have "?q * 2 ^ ?k < 2 ^ ?k * m" using n assms(1) m by linarith
    then have "?q < m" by (simp add: mult.commute)
    with r(2) m show ?thesis by (metis Suc_eq_plus1 Suc_leI mult.commute mult_le_mono1)
  qed
  with False show ?thesis by (simp add: round_nat_def)
qed (use assms(1) in \<open>simp add: round_nat_def\<close>)

lemma f32_nat_scale: "f32_nat b \<Longrightarrow> f32_nat (b * 2 ^ k)"
  by (auto simp: f32_nat_def) (metis mult.assoc power_add)

lemma f32_nat_power: "f32_nat (2 ^ k)"
  using f32_nat_scale [of 1 k] by (auto simp: f32_nat_def intro: exI [of _ "1::nat"] exI [of _ "0::nat"])

lemma round_nat_f32: "f32_nat (round_nat n)"
proof (cases "n < 2 ^ 24")
  case True
  then show ?thesis unfolding f32_nat_def round_nat_def by (intro exI [of _ n] exI [of _ 0]) simp
next
  case False
  let ?k = "bit_len n - 24"
  have "n div 2 ^ ?k < 2 ^ 24"
    using big_bit_len(3) [OF False] by (simp add: less_mult_imp_div_less power_add mult.commute)
  then have "round_half_even n ?k \<le> 2 ^ 24" using round_half_even_cases [of n ?k] by auto
  then consider "round_half_even n ?k < 2 ^ 24" | "round_half_even n ?k = 2 ^ 24" by linarith
  then have "f32_nat (round_half_even n ?k)"
  proof cases
    case 1
    then show ?thesis unfolding f32_nat_def by (intro exI [of _ "round_half_even n ?k"] exI [of _ 0]) simp
  next
    case 2
    then show ?thesis using f32_nat_power [of 24] by simp
  qed
  from f32_nat_scale [OF this] False show ?thesis by (simp add: round_nat_def)
qed

text \<open>The conversion of a duration to float32 is off by at most one part in \<open>2 ^ 24\<close>.\<close>

lemma round_nat_close: "\<bar>int (round_nat n) - int n\<bar> * 2 ^ 24 \<le> int n"
proof (cases "n < 2 ^ 24")
  case False
  let ?k = "bit_len n - 24"
  let ?q = "n div 2 ^ ?k" and ?r = "n mod 2 ^ ?k"
  have k: "0 < ?k" using big_bit_len(1) [OF False] by simp
  then obtain j where j: "?k = Suc j" by (cases ?k) auto
  have n: "int n = int (?q * 2 ^ ?k) + int ?r" by (simp only: of_nat_add [symmetric] div_mult_mod_eq)
  have r: "?r < 2 * 2 ^ j" using j by simp
  have d: "\<bar>int (round_half_even n ?k * 2 ^ ?k) - int n\<bar> \<le> 2 ^ j"
  proof (cases "?r < 2 ^ j \<or> (?r = 2 ^ j \<and> even ?q)")
    case True
    then have "round_half_even n ?k = ?q" using j by (auto simp: round_half_even_def Let_def)
    with n have "\<bar>int (round_half_even n ?k * 2 ^ ?k) - int n\<bar> = int ?r" by simp
    moreover have "int ?r \<le> 2 ^ j" using True by auto
    ultimately show ?thesis by simp
  next
    case f: False
    then have "round_half_even n ?k = ?q + 1" using j k by (auto simp: round_half_even_def Let_def)
    then have "int (round_half_even n ?k * 2 ^ ?k) = int (?q * 2 ^ ?k) + 2 * 2 ^ j" by (simp add: j distrib_right)
    moreover note n
    moreover have "2 ^ j \<le> ?r" using f by simp
    then have "2 ^ j \<le> int ?r" by (simp only: of_nat_le_iff [symmetric, where 'a = int] of_nat_numeral of_nat_power)
    moreover have "int ?r < 2 * 2 ^ j"
      using r by (simp only: of_nat_less_iff [symmetric, where 'a = int] of_nat_mult of_nat_numeral of_nat_power)
    ultimately show ?thesis by linarith
  qed
  have "2 ^ (j + 24) \<le> n" using big_bit_len(2) [OF False] j by (simp add: add.commute)
  then have "2 ^ (j + 24) \<le> int n" by (metis of_nat_le_iff of_nat_numeral of_nat_power)
  then have "2 ^ j * 2 ^ 24 \<le> int n" unfolding power_add .
  moreover have "\<bar>int (round_half_even n ?k * 2 ^ ?k) - int n\<bar> * 2 ^ 24 \<le> 2 ^ j * 2 ^ 24"
    by (rule mult_right_mono [OF d]) simp
  ultimately have "\<bar>int (round_half_even n ?k * 2 ^ ?k) - int n\<bar> * 2 ^ 24 \<le> int n" by linarith
  moreover have "int (round_nat n) = int (round_half_even n ?k * 2 ^ ?k)" using False by (simp add: round_nat_def)
  ultimately show ?thesis by simp
qed (simp add: round_nat_def)

lemma round24_close: "\<bar>round24 x - x\<bar> * 2 ^ 24 \<le> \<bar>x\<bar>"
proof -
  have "\<bar>round24 x - x\<bar> = \<bar>\<bar>round24 x\<bar> - \<bar>x\<bar>\<bar>" using round24_sgn [of x] by (cases "0 \<le> x") auto
  then show ?thesis using round_nat_close [of "nat \<bar>x\<bar>"] by (simp add: round24_abs)
qed

lemma round24_le: "nat \<bar>x\<bar> \<le> b \<Longrightarrow> f32_nat b \<Longrightarrow> nat \<bar>round24 x\<bar> \<le> b"
  by (simp add: round24_abs round_nat_le)

section \<open>Bounded classifiers\<close>

lemma retry_fuel_loop:
  "retry_fuel n cl sel ctx task st w = Some r \<Longrightarrow> retry_loop cl sel ctx task st w = Some r"
proof (induction n arbitrary: st w)
  case (Suc n)
  then show ?case
    by (subst retry_loop.simps) (auto split: prod.splits sum.splits)
qed simp

text \<open>
  The contract of a classifier that gives up: it never panics, a measure of its state decreases with
  every retry, and an error it returns contains the error it was given.
\<close>

locale bounded_classifier =
  fixes cl :: "('s, 'st) classifier" and budget :: "'st \<Rightarrow> nat"
  assumes cl_returns: "\<exists>st' nxt fail. cl ctx st err w = (w, Return (st', nxt, fail))"
    and cl_retries: "cl ctx st err w = (w', Return (st', Some ch, None)) \<Longrightarrow> budget st' < budget st"
    and cl_keeps: "cl ctx st err w = (w', Return (st', nxt, Some e)) \<Longrightarrow> errors_is e err"
    and cl_decides: "cl ctx st err w = (w', Return (st', None, fail)) \<Longrightarrow> fail \<noteq> None"
begin

lemma turn_budget:
  assumes "retry_turn cl sel ctx task st w = (w1, Inr st')"
  shows "budget st' < budget st"
proof -
  from assms obtain err w2 where t: "task ctx w = (w2, Return (Some err))"
    by (auto simp: retry_turn_def split: prod.splits outcome.splits option.splits)
  obtain st1 nxt fail where c: "cl ctx st err w2 = (w2, Return (st1, nxt, fail))"
    using cl_returns [of ctx st err w2] by blast
  with assms t obtain ch where "nxt = Some ch" "fail = None" "st1 = st'"
    by (auto simp: retry_turn_def split: if_splits option.splits prod.splits)
  with c cl_retries show ?thesis by simp
qed

lemma enough_attempts:
  "budget st < n \<Longrightarrow> \<exists>r. retry_fuel n cl sel ctx task st w = Some r"
proof (induction n arbitrary: st w)
  case (Suc n)
  show ?case
  proof (cases "retry_turn cl sel ctx task st w")
    case (Pair w1 res)
    show ?thesis
    proof (cases res)
      case (Inl out)
      with Pair show ?thesis by simp
    next
      case (Inr st')
      with turn_budget Pair Suc(2) have "budget st' < n" by fastforce
      with Suc(1) Pair Inr show ?thesis by simp
    qed
  qed
qed simp

text \<open>An attempt that fails is never turned into a success, and its error is never lost.\<close>

lemma turn_keeps:
  assumes "retry_turn cl sel ctx task st w = (w1, Inl out)" and "task ctx w = (w0, Return (Some err))"
  shows "\<exists>e. out = Return (Some e) \<and> errors_is e err"
proof -
  obtain st1 nxt fail where c: "cl ctx st err w0 = (w0, Return (st1, nxt, fail))"
    using cl_returns [of ctx st err w0] by blast
  show ?thesis
  proof (cases fail)
    case (Some e)
    with c cl_keeps assms show ?thesis by (auto simp: retry_turn_def)
  next
    case None
    with c cl_decides [of ctx st err w0 w0 st1 fail] obtain ch where n: "nxt = Some ch"
      by (cases nxt) auto
    obtain w2 cs where s: "sel ctx ch w0 = (w2, cs)" by fastforce
    with c None n assms show ?thesis
      by (cases cs) (auto simp: retry_turn_def wait_on_channel_def errors_join_def errors_is_Join
          split: option.splits)
  qed
qed

lemma keeps_error:
  assumes "\<And>w. \<exists>w' err. task ctx w = (w', Return (Some err)) \<and> errors_is err t"
    and "\<And>e x y. errors_is e x \<Longrightarrow> errors_is x y \<Longrightarrow> errors_is e y"
  shows "retry_fuel n cl sel ctx task st w = Some (w', out) \<Longrightarrow> \<exists>e. out = Return (Some e) \<and> errors_is e t"
proof (induction n arbitrary: st w)
  case (Suc n)
  obtain w0 err where t: "task ctx w = (w0, Return (Some err))" "errors_is err t" using assms(1) by blast
  show ?case
  proof (cases "retry_turn cl sel ctx task st w")
    case (Pair w1 res)
    show ?thesis
    proof (cases res)
      case (Inl o')
      with Pair Suc(2) have o: "retry_turn cl sel ctx task st w = (w1, Inl out)" by simp
      from turn_keeps [OF this t(1)] t(2) assms(2) show ?thesis by blast
    next
      case (Inr st')
      with Pair Suc show ?thesis by simp
    qed
  qed
qed simp

end

lemma errors_is_trans: "errors_is e x \<Longrightarrow> errors_is x y \<Longrightarrow> errors_is e y"
proof (induction e x rule: errors_is.induct)
  case (1 e t)
  from 1(2) have "e = t \<or> (\<exists>u\<in>set (unwrap e). errors_is u t)"
    by (subst (asm) errors_is.simps) (auto simp: list_ex_iff)
  with 1(1,3) show ?case by (auto intro: errors_is_trans_unwrap)
qed

text \<open>The budget of \<open>Loop\<close> and of \<open>Backoff\<close>: the attempts left after the next one.\<close>

definition loop_budget :: "loop_cfg \<Rightarrow> int \<Rightarrow> nat" where
  "loop_budget l st = nat (loop_attempts l - 1 - st)"

definition backoff_budget :: "backoff_cfg \<Rightarrow> backoff_state \<Rightarrow> nat" where
  "backoff_budget b st = nat (bk_MaxAttempts b - 1 - bs_count st)"

interpretation loop_cl: bounded_classifier "loop_classifier l" "loop_budget l" for l
  by unfold_locales
    (auto simp: loop_classifier_def loop_budget_def Let_def errors_is_Max errors_is_opt_def
      split: if_splits)

lemma sanitize_retryable: "\<exists>f. bk_Retryable (backoff_sanitize b) = Some f"
  by (cases "bk_Retryable b") (auto simp: backoff_sanitize_def Let_def)

interpretation backoff_cl: bounded_classifier
  "backoff_classifier (backoff_sanitize b) oor rnd" "backoff_budget (backoff_sanitize b)" for b oor rnd
proof -
  obtain f where f: "bk_Retryable (backoff_sanitize b) = Some f" using sanitize_retryable by blast
  show "bounded_classifier (backoff_classifier (backoff_sanitize b) oor rnd)
      (backoff_budget (backoff_sanitize b))"
    by unfold_locales
      (auto simp: backoff_classifier_def backoff_budget_def Let_def errors_is_Max errors_is_opt_def f
        split: if_splits)
qed

section \<open>Properties\<close>

text \<open>
  C34: \<open>Loop\<close> always returns, after at most \<open>MaxAttempts\<close> executions of the task (one if that is
  negative, two if it is unset), whatever the task, the waits and the world do; the result is that of
  the unbounded loop of the source.
\<close>

theorem loop_bounded:
  "\<exists>r. retry_fuel (nat (max 1 (loop_attempts l))) (loop_classifier l) sel ctx task 0 w = Some r
     \<and> retry_loop (loop_classifier l) sel ctx task 0 w = Some r"
proof -
  have "loop_budget l 0 < nat (max 1 (loop_attempts l))" unfolding loop_budget_def by arith
  then obtain r where "retry_fuel (nat (max 1 (loop_attempts l))) (loop_classifier l) sel ctx task 0 w = Some r"
    using loop_cl.enough_attempts by blast
  from this retry_fuel_loop [OF this] show ?thesis by (intro exI conjI)
qed

text \<open>
  \<open>Backoff\<close> always returns too, with four attempts by default.
\<close>

theorem backoff_bounded:
  "\<exists>r. retry_fuel (nat (max 1 (bk_MaxAttempts (backoff_sanitize b))))
       (backoff_classifier (backoff_sanitize b) oor rnd) sel ctx task zero_backoff_state w = Some r
     \<and> retry_loop (backoff_classifier (backoff_sanitize b) oor rnd) sel ctx task zero_backoff_state w = Some r"
proof -
  have "backoff_budget (backoff_sanitize b) zero_backoff_state < nat (max 1 (bk_MaxAttempts (backoff_sanitize b)))"
    unfolding backoff_budget_def zero_backoff_state_def by (simp; arith)
  then obtain r where "retry_fuel (nat (max 1 (bk_MaxAttempts (backoff_sanitize b))))
      (backoff_classifier (backoff_sanitize b) oor rnd) sel ctx task zero_backoff_state w = Some r"
    using backoff_cl.enough_attempts by blast
  from this retry_fuel_loop [OF this] show ?thesis by (intro exI conjI)
qed

text \<open>
  C35: retrying never hides a failure. If every attempt fails with an error that contains \<open>t\<close>, then
  the retried task fails with an error that contains \<open>t\<close>, whether the attempts are used up, the error
  is rejected, or the wait is cut short by a stop.
\<close>

theorem retry_keeps_error:
  assumes "\<And>w. \<exists>w' err. task ctx w = (w', Return (Some err)) \<and> errors_is err t"
  shows "(\<exists>w' e. retry_loop (loop_classifier l) sel ctx task 0 w = Some (w', Return (Some e)) \<and> errors_is e t)
    \<and> (\<exists>w' e. retry_loop (backoff_classifier (backoff_sanitize b) oor rnd) sel ctx task
           zero_backoff_state w = Some (w', Return (Some e)) \<and> errors_is e t)"
proof
  have "loop_budget l 0 < Suc (loop_budget l 0)" by simp
  then obtain w' out where f: "retry_fuel (Suc (loop_budget l 0)) (loop_classifier l) sel ctx task 0 w
      = Some (w', out)"
    using loop_cl.enough_attempts by fastforce
  from loop_cl.keeps_error [OF assms errors_is_trans f] retry_fuel_loop [OF f]
  show "\<exists>w' e. retry_loop (loop_classifier l) sel ctx task 0 w = Some (w', Return (Some e)) \<and> errors_is e t"
    by auto
next
  let ?cl = "backoff_classifier (backoff_sanitize b) oor rnd"
  let ?n = "Suc (backoff_budget (backoff_sanitize b) zero_backoff_state)"
  obtain w' out where f: "retry_fuel ?n ?cl sel ctx task zero_backoff_state w = Some (w', out)"
    using backoff_cl.enough_attempts [of b zero_backoff_state ?n] by fastforce
  from backoff_cl.keeps_error [OF assms errors_is_trans f] retry_fuel_loop [OF f]
  show "\<exists>w' e. retry_loop ?cl sel ctx task zero_backoff_state w = Some (w', Return (Some e)) \<and> errors_is e t"
    by auto
qed

definition failing_task :: "nat tfunc" where
  "failing_task ctx w = (w\<lparr>tw_user := tw_user w + 1\<rparr>, Return (Some (OpaqueError 1 ''no'')))"

theorem retry_keeps_error_witness:
  "\<exists>w' e. retry_loop (loop_classifier \<lparr>lp_MaxAttempts = 3, lp_Retryable = None\<rparr>)
      (\<lambda>ctx ch w. (w, GotValue)) Background failing_task 0 empty_tworld = Some (w', Return (Some e))
    \<and> errors_is e (OpaqueError 1 ''no'')"
  by (rule conjunct1 [OF retry_keeps_error]) (simp add: failing_task_def)

lemma loop_until_success:
  assumes "\<And>j w. j < k \<Longrightarrow> tw_user w = j \<Longrightarrow>
        task ctx w = (w\<lparr>tw_user := Suc j\<rparr>, Return (Some (err j)))"
    and "\<And>w. tw_user w = k \<Longrightarrow> task ctx w = (w\<lparr>tw_user := Suc k\<rparr>, Return None)"
    and "\<And>j. loop_retryable l (err j)" and "int k < loop_attempts l"
    and "\<And>ch w. sel ctx ch w = (w, GotValue)"
  shows "j \<le> k \<Longrightarrow> tw_user w = j \<Longrightarrow>
    retry_fuel (Suc (k - j)) (loop_classifier l) sel ctx task (int j) w
      = Some (w\<lparr>tw_user := Suc k\<rparr>, Return None)"
proof (induction "k - j" arbitrary: j w)
  case 0
  then show ?case using assms(2) by (simp add: retry_turn_def)
next
  case (Suc d)
  then have j: "j < k" and d: "d = k - Suc j" by simp_all
  let ?w = "w\<lparr>tw_user := Suc j\<rparr>"
  have "retry_turn (loop_classifier l) sel ctx task (int j) w = (?w, Inr (int (Suc j)))"
    using assms(1) [OF j Suc(4)] assms(3-5) j
    by (simp add: retry_turn_def loop_classifier_def Let_def wait_on_channel_def ac_simps)
  moreover have "retry_fuel (Suc (k - Suc j)) (loop_classifier l) sel ctx task (int (Suc j)) ?w
      = Some (?w\<lparr>tw_user := Suc k\<rparr>, Return None)"
    using Suc(1) [OF d] j by simp
  ultimately show ?case using j by (simp add: Suc_diff_Suc)
qed

text \<open>
  With \<open>Loop\<close>, a task that first succeeds at attempt \<open>k\<close> within the budget makes the retried task
  succeed after exactly \<open>k\<close> executions, if no stop interrupts the (immediate) waits.
\<close>

theorem loop_succeeds:
  assumes "\<And>j w. j < k \<Longrightarrow> tw_user w = j \<Longrightarrow>
        task ctx w = (w\<lparr>tw_user := Suc j\<rparr>, Return (Some (err j)))"
    and "\<And>w. tw_user w = k \<Longrightarrow> task ctx w = (w\<lparr>tw_user := Suc k\<rparr>, Return None)"
    and "\<And>j. loop_retryable l (err j)" and "int k < loop_attempts l"
    and "\<And>ch w. sel ctx ch w = (w, GotValue)" and "tw_user w = 0"
  shows "retry_loop (loop_classifier l) sel ctx task 0 w = Some (w\<lparr>tw_user := Suc k\<rparr>, Return None)"
proof -
  have "retry_fuel (Suc (k - 0)) (loop_classifier l) sel ctx task (int 0) w
      = Some (w\<lparr>tw_user := Suc k\<rparr>, Return None)"
    by (rule loop_until_success [where err = err]) (use assms in auto)
  from retry_fuel_loop [OF this] show ?thesis by simp
qed

theorem loop_succeeds_witness:
  "retry_loop (loop_classifier \<lparr>lp_MaxAttempts = 3, lp_Retryable = None\<rparr>)
     (\<lambda>ctx ch w. (w, GotValue)) Background
     (\<lambda>ctx w. (w\<lparr>tw_user := Suc (tw_user w)\<rparr>,
        Return (if tw_user w = 2 then None else Some (OpaqueError 1 ''no'')))) 0 empty_tworld
   = Some (empty_tworld\<lparr>tw_user := 3\<rparr>, Return None)"
  using loop_succeeds [of 2 "\<lambda>ctx w. (w\<lparr>tw_user := Suc (tw_user w)\<rparr>,
        Return (if tw_user w = 2 then None else Some (OpaqueError 1 ''no'')))" Background
      "\<lambda>_. OpaqueError 1 ''no''" "\<lparr>lp_MaxAttempts = 3, lp_Retryable = None\<rparr>"
      "\<lambda>ctx ch w. (w, GotValue)" empty_tworld]
  by (simp add: loop_retryable_def loop_attempts_def empty_tworld_def)

text \<open>The jitter is at most half of its setting, converted to float32, in either direction.\<close>

lemma f32_minus_half_bound:
  assumes "unit_f32 r"
  shows "2 * \<bar>fst (f32_minus_half r)\<bar> \<le> 2 ^ nat (- snd (f32_minus_half r))" and "snd (f32_minus_half r) < 0"
proof -
  have "2 * \<bar>round24 (fst r - 2 ^ nat (- snd r - 1))\<bar> \<le> 2 ^ nat (- snd r)" if z: "fst r \<noteq> 0"
  proof -
    let ?e = "nat (- snd r - 1)"
    have e: "nat (- snd r) = Suc ?e" using assms z by (auto simp: unit_f32_def)
    with assms z have "\<bar>fst r - 2 ^ ?e\<bar> \<le> 2 ^ ?e" by (auto simp: unit_f32_def)
    then have "nat \<bar>fst r - 2 ^ ?e\<bar> \<le> 2 ^ ?e" by (simp add: nat_le_iff)
    from round24_le [OF this f32_nat_power] have "\<bar>round24 (fst r - 2 ^ ?e)\<bar> \<le> 2 ^ ?e" by (simp add: nat_le_iff)
    then show ?thesis using e by simp
  qed
  then show "2 * \<bar>fst (f32_minus_half r)\<bar> \<le> 2 ^ nat (- snd (f32_minus_half r))"
    by (simp add: f32_minus_half_def)
  show "snd (f32_minus_half r) < 0" using assms by (auto simp: f32_minus_half_def unit_f32_def)
qed

lemma jitter_bound:
  assumes "unit_f32 r" and "\<bar>bk_Jitter b\<bar> < 2 ^ 63"
  shows "2 * \<bar>jitter_of b oor r\<bar> \<le> \<bar>round24 (bk_Jitter b)\<bar>"
proof -
  let ?c = "f32_minus_half r" and ?J = "round24 (bk_Jitter b)"
  let ?n = "nat (- snd ?c)" and ?p = "round24 (?J * fst ?c)"
  obtain m where m: "?n = Suc m" using f32_minus_half_bound(2) [OF assms(1)] by (cases ?n) auto
  have c: "\<bar>fst ?c\<bar> \<le> 2 ^ m" using f32_minus_half_bound(1) [OF assms(1)] m by simp
  have "\<bar>?J * fst ?c\<bar> \<le> \<bar>?J\<bar> * 2 ^ m" unfolding abs_mult using c by (rule mult_left_mono) simp
  then have "nat \<bar>?J * fst ?c\<bar> \<le> nat (\<bar>?J\<bar> * 2 ^ m)" by (rule nat_mono)
  then have "nat \<bar>?J * fst ?c\<bar> \<le> nat \<bar>?J\<bar> * 2 ^ m" by (simp add: nat_mult_distrib nat_power_eq)
  moreover have "f32_nat (nat \<bar>?J\<bar> * 2 ^ m)"
    by (intro f32_nat_scale) (simp add: round24_abs round_nat_f32)
  ultimately have "nat \<bar>?p\<bar> \<le> nat \<bar>?J\<bar> * 2 ^ m" by (rule round24_le)
  then have "\<bar>?p\<bar> \<le> \<bar>?J\<bar> * 2 ^ m" by (simp add: nat_le_iff)
  then have "\<bar>?p\<bar> div 2 ^ Suc m \<le> \<bar>?J\<bar> * 2 ^ m div 2 ^ Suc m" by (rule zdiv_mono1) simp
  also have "\<bar>?J\<bar> * 2 ^ m div 2 ^ Suc m = \<bar>?J\<bar> div 2" by simp
  finally have q: "\<bar>?p\<bar> div 2 ^ ?n \<le> \<bar>?J\<bar> div 2" using m by simp
  let ?y = "sgn ?p * (\<bar>?p\<bar> div 2 ^ ?n)"
  have "0 \<le> \<bar>?p\<bar> div 2 ^ ?n" by (simp add: pos_imp_zdiv_nonneg_iff)
  then have "\<bar>?y\<bar> \<le> \<bar>?p\<bar> div 2 ^ ?n" by (auto simp: sgn_if)
  with q have y: "2 * \<bar>?y\<bar> \<le> \<bar>?J\<bar>" by linarith
  have "nat \<bar>bk_Jitter b\<bar> \<le> 2 ^ 63" using assms(2) by (simp add: nat_le_iff)
  from round24_le [OF this f32_nat_power] have "\<bar>?J\<bar> \<le> 2 ^ 63" by (simp add: nat_le_iff)
  with y have "- (2 ^ 63) \<le> ?y" "?y < 2 ^ 63" by auto
  with y f32_minus_half_bound(2) [OF assms(1)] show ?thesis
    by (simp add: jitter_of_def f32_mul_trunc_def Let_def)
qed



end
