(* ===== verification/Limit.thy ===== *)
theory Limit
  imports Stopper
begin

text \<open>
  limit/limit.go: the concurrency limit, a buffered channel used as a semaphore, and the rate limit, a
  wrapper of \<open>golang.org/x/time/rate\<close>. The number of elements in the channel is the first component of
  the user's part of the world. Where a goroutine blocks, a parameter says how the world has changed when
  the call goes on: \<open>sel\<close> for the select of the setup phase, with the case it takes, and \<open>wait\<close> for a
  receive from the empty channel. The rate limiter is a parameter (\<open>allow\<close>, \<open>wait\<close>). The later sections
  let several tasks interleave, with the channel operations of the code as their steps.
\<close>

type_synonym 'u lworld = "(nat \<times> 'u) tworld"

definition slots :: "'u lworld \<Rightarrow> nat" where
  "slots w = fst (tw_user w)"

definition set_slots :: "nat \<Rightarrow> 'u lworld \<Rightarrow> 'u lworld" where
  "set_slots n w = w\<lparr>tw_user := (n, snd (tw_user w))\<rparr>"

datatype slot_case = SlotFree | SlotStopping | SlotDone "goerr option"

section \<open>WithMaxConcurrency\<close>

text \<open>\<open>make(chan struct{}, limit)\<close> after the check of the argument.\<close>

definition max_concurrency :: "int \<Rightarrow> panic_value + nat" where
  "max_concurrency limit =
     (if limit \<le> 0 then Inl (PanicError (OpaqueError 0 ''limit must be greater than zero''))
      else Inr (nat limit))"

text \<open>\<open>ch <- struct{}{}\<close>, which is not ready on a full channel, and \<open><-ch\<close>, which blocks on an empty one.\<close>

definition try_slot :: "nat \<Rightarrow> 'u lworld \<Rightarrow> 'u lworld \<times> bool" where
  "try_slot cap w = (if slots w < cap then (set_slots (slots w + 1) w, True) else (w, False))"

definition recv_slot :: "'u lworld \<Rightarrow> 'u lworld option" where
  "recv_slot w = (if 0 < slots w then Some (set_slots (slots w - 1) w) else None)"

definition release_slot :: "('u lworld \<Rightarrow> 'u lworld) \<Rightarrow> 'u lworld \<Rightarrow> 'u lworld" where
  "release_slot wait w = (case recv_slot w of Some w' \<Rightarrow> w' | None \<Rightarrow> wait w)"

text \<open>The deferred receive runs whether the task returns or panics, and each time the invoker is called.\<close>

definition slot_invoker :: "('u lworld \<Rightarrow> 'u lworld) \<Rightarrow> (nat \<times> 'u) invoker" where
  "slot_invoker wait ctx task w = (case task ctx w of (w1, out) \<Rightarrow> (release_slot wait w1, out))"

definition concurrency_mw ::
  "nat \<Rightarrow> (gctx \<Rightarrow> 'u lworld \<Rightarrow> 'u lworld \<times> slot_case) \<Rightarrow> ('u lworld \<Rightarrow> 'u lworld)
     \<Rightarrow> (nat \<times> 'u) middleware" where
  "concurrency_mw cap sel wait outer w =
     (case try_slot cap w of
        (w1, True) \<Rightarrow> (w1, Return (outer, slot_invoker wait))
      | (w1, False) \<Rightarrow>
          (case sel outer w1 of
             (w2, SlotFree) \<Rightarrow> (fst (try_slot cap w2), Return (outer, slot_invoker wait))
           | (w2, SlotStopping) \<Rightarrow> (w2, Return (outer, InvokerDrop))
           | (w2, SlotDone e) \<Rightarrow> (w2, Return (outer, InvokerErr e))))"

section \<open>WithMaxRate\<close>

definition rate_mw ::
  "('s tworld \<Rightarrow> 's tworld \<times> bool) \<Rightarrow> (gctx \<Rightarrow> 's tworld \<Rightarrow> 's tworld \<times> goerr option) \<Rightarrow> 's middleware" where
  "rate_mw allow wait outer w =
     (case allow w of
        (w1, True) \<Rightarrow> (w1, Return (outer, InvokerCall))
      | (w1, False) \<Rightarrow>
          (case wait (stopping_context outer) w1 of
             (w2, None) \<Rightarrow> (w2, Return (outer, InvokerCall))
           | (w2, Some err) \<Rightarrow>
               if errors_is err ErrStopped then (w2, Return (outer, InvokerDrop))
               else (w2, Return (outer, InvokerErr (Some err)))))"

section \<open>Slots as a counted resource\<close>

lemma slots_set [simp]: "slots (set_slots n w) = n"
  by (simp add: slots_def set_slots_def)

definition slots_ok :: "nat \<Rightarrow> 'u lworld \<Rightarrow> bool" where
  "slots_ok cap w \<longleftrightarrow> slots w \<le> cap"

interpretation slot: counted_resource
  "try_slot cap" "release_slot wait" "\<lambda>w. int (slots w)" "slots_ok cap" for cap wait
  by unfold_locales
    (auto simp: try_slot_def release_slot_def recv_slot_def slots_ok_def split: if_splits)

lemma try_slot_cases:
  "try_slot cap w = (w', True) \<longleftrightarrow> slots w < cap \<and> w' = set_slots (Suc (slots w)) w"
  "try_slot cap w = (w', False) \<longleftrightarrow> \<not> slots w < cap \<and> w' = w"
  by (auto simp: try_slot_def)

lemma recv_slot_Some: "recv_slot w = Some w' \<longleftrightarrow> 0 < slots w \<and> w' = set_slots (slots w - 1) w"
  by (auto simp: recv_slot_def)

section \<open>Interleaved tasks\<close>

text \<open>
  The life of a task under the limit: before its setup; blocked in the setup's select; let in, with \<open>k\<close>
  calls of its invoker completed (\<open>Ready k\<close>); running its task in call number \<open>k\<close>; in the deferred receive
  of that call; discarded by a stop. An outer invoker that short-circuits never calls this one, so a
  task may stay \<open>Ready 0\<close> for ever; an outer invoker that repeats its task, as those of package retry do, calls
  this one again. The channel operations are those of the middleware, \<open>try_slot\<close> and \<open>recv_slot\<close>.
\<close>

datatype phase = Arriving | Blocked | Ready nat | Running nat | Returning nat | Discarded

fun calls :: "phase \<Rightarrow> nat" where
  "calls (Ready k) = k"
| "calls (Running k) = k"
| "calls (Returning k) = k"
| "calls _ = 0"

definition admitted :: "phase \<Rightarrow> bool" where
  "admitted p \<longleftrightarrow> p \<notin> {Arriving, Blocked, Discarded}"

definition holding :: "phase \<Rightarrow> bool" where
  "holding p \<longleftrightarrow> admitted p \<and> calls p = 0"

definition running :: "phase \<Rightarrow> bool" where
  "running p \<longleftrightarrow> (\<exists>k. p = Running k)"

definition tally :: "(phase \<Rightarrow> nat) \<Rightarrow> phase list \<Rightarrow> nat" where
  "tally f ps = sum_list (map f ps)"

definition count_phase :: "(phase \<Rightarrow> bool) \<Rightarrow> phase list \<Rightarrow> nat" where
  "count_phase Q ps = tally (\<lambda>p. if Q p then 1 else 0) ps"

text \<open>\<open>rep\<close> allows outer invokers to call the invoker again; \<open>other\<close> is everything else that happens.\<close>

inductive lim_step :: "nat \<Rightarrow> bool \<Rightarrow> 'u lworld \<times> phase list \<Rightarrow> 'u lworld \<times> phase list \<Rightarrow> bool"
  for cap rep where
  arrive: "lim_step cap rep (w, ps) (w, ps @ [Arriving])"
| fast: "i < length ps \<Longrightarrow> ps ! i = Arriving \<Longrightarrow> try_slot cap w = (w', True) \<Longrightarrow>
     lim_step cap rep (w, ps) (w', ps[i := Ready 0])"
| block: "i < length ps \<Longrightarrow> ps ! i = Arriving \<Longrightarrow> try_slot cap w = (w', False) \<Longrightarrow>
     lim_step cap rep (w, ps) (w', ps[i := Blocked])"
| acquire: "i < length ps \<Longrightarrow> ps ! i = Blocked \<Longrightarrow> try_slot cap w = (w', True) \<Longrightarrow>
     lim_step cap rep (w, ps) (w', ps[i := Ready 0])"
| discard: "i < length ps \<Longrightarrow> ps ! i = Blocked \<Longrightarrow> lim_step cap rep (w, ps) (w, ps[i := Discarded])"
| start: "i < length ps \<Longrightarrow> ps ! i = Ready k \<Longrightarrow> k = 0 \<or> rep \<Longrightarrow>
     lim_step cap rep (w, ps) (w, ps[i := Running k])"
| ends: "i < length ps \<Longrightarrow> ps ! i = Running k \<Longrightarrow> lim_step cap rep (w, ps) (w, ps[i := Returning k])"
| receive: "i < length ps \<Longrightarrow> ps ! i = Returning k \<Longrightarrow> recv_slot w = Some w' \<Longrightarrow>
     lim_step cap rep (w, ps) (w', ps[i := Ready (Suc k)])"
| other: "slots w' = slots w \<Longrightarrow> lim_step cap rep (w, ps) (w', ps)"

text \<open>Every element of the channel was sent by an admitted task and is received by one completed call.\<close>

definition lim_inv :: "nat \<Rightarrow> bool \<Rightarrow> 'u lworld \<times> phase list \<Rightarrow> bool" where
  "lim_inv cap rep c \<longleftrightarrow> slots (fst c) \<le> cap
     \<and> slots (fst c) + tally calls (snd c) = count_phase admitted (snd c)
     \<and> (\<not> rep \<longrightarrow> (\<forall>p\<in>set (snd c). calls p \<le> (case p of Ready _ \<Rightarrow> 1 | _ \<Rightarrow> 0)))"

lemma tally_update:
  "i < length ps \<Longrightarrow> tally f (ps[i := p]) + f (ps ! i) = tally f ps + f p"
proof (induction ps arbitrary: i)
  case (Cons x ps)
  then show ?case by (cases i) (auto simp: tally_def)
qed (simp add: tally_def)

lemma tally_snoc [simp]: "tally f (ps @ [p]) = tally f ps + f p"
  by (simp add: tally_def)

lemma tally_add: "tally (\<lambda>p. f p + g p) ps = tally f ps + tally g ps"
  by (simp add: tally_def sum_list_addf)

lemma tally_mono: "(\<And>p. p \<in> set ps \<Longrightarrow> f p \<le> g p) \<Longrightarrow> tally f ps \<le> tally g ps"
  by (auto simp: tally_def intro: sum_list_mono)

lemma tally_cong: "(\<And>p. p \<in> set ps \<Longrightarrow> f p = g p) \<Longrightarrow> tally f ps = tally g ps"
  by (simp add: tally_def cong: map_cong)

lemma count_phase_pos: "i < length ps \<Longrightarrow> Q (ps ! i) \<Longrightarrow> 0 < count_phase Q ps"
proof (induction ps arbitrary: i)
  case (Cons x ps)
  then show ?case by (cases i) (auto simp: count_phase_def tally_def)
qed simp

lemma admitted_simps [simp]:
  "admitted (Ready k)" "admitted (Running k)" "admitted (Returning k)"
  "\<not> admitted Arriving" "\<not> admitted Blocked" "\<not> admitted Discarded"
  by (simp_all add: admitted_def)

lemma lim_inv_step:
  assumes "lim_step cap rep c c'" and "lim_inv cap rep c"
  shows "lim_inv cap rep c'"
proof -
  have upd: "lim_inv cap rep (w', ps[i := p])"
    if "i < length ps" "lim_inv cap rep (w, ps)" "slots w' \<le> cap"
      "slots w' + calls p + (if admitted (ps ! i) then 1 else 0)
         = slots w + calls (ps ! i) + (if admitted p then 1 else 0)"
      "\<not> rep \<longrightarrow> calls p \<le> (case p of Ready _ \<Rightarrow> 1 | _ \<Rightarrow> 0)" for i ps w w' p
  proof -
    have "slots w' + tally calls (ps[i := p]) = count_phase admitted (ps[i := p])"
      using tally_update [OF that(1), of calls p]
        tally_update [OF that(1), of "\<lambda>p. if admitted p then 1 else 0" p] that(2,4)
      by (simp add: lim_inv_def count_phase_def)
    with that show ?thesis by (auto simp: lim_inv_def dest!: set_update_subset_insert [THEN subsetD])
  qed
  have mem: "calls (ps ! i) \<le> (case ps ! i of Ready _ \<Rightarrow> 1 | _ \<Rightarrow> 0)"
    if "i < length ps" "lim_inv cap rep (w, ps)" "\<not> rep" for i ps w
    using that by (auto simp: lim_inv_def)
  have cap: "slots w \<le> cap" if "lim_inv cap rep (w, ps)" for w ps
    using that by (simp add: lim_inv_def)
  show ?thesis
    using assms(1)
  proof (cases rule: lim_step.cases)
    case (arrive w ps)
    with assms(2) show ?thesis by (auto simp: lim_inv_def count_phase_def)
  next
    case (other w' w ps)
    with assms(2) show ?thesis by (simp add: lim_inv_def)
  next
    case (fast i ps w w')
    with assms(2) show ?thesis by (auto simp: try_slot_cases intro!: upd [of i ps w])
  next
    case (block i ps w w')
    with assms(2) cap show ?thesis by (auto simp: try_slot_cases intro!: upd [of i ps w])
  next
    case (acquire i ps w w')
    with assms(2) show ?thesis by (auto simp: try_slot_cases intro!: upd [of i ps w])
  next
    case (discard i ps w)
    with assms(2) cap show ?thesis by (auto intro!: upd [of i ps w])
  next
    case (start i ps k w)
    with assms(2) cap show ?thesis by (auto intro!: upd [of i ps w])
  next
    case (ends i ps k w)
    with assms(2) cap [of w ps] mem [of i ps w] show ?thesis by (auto intro!: upd [of i ps w])
  next
    case (receive i ps k w w')
    with assms(2) cap [of w ps] mem [of i ps w] show ?thesis by (auto simp: recv_slot_Some intro!: upd [of i ps w])
  qed
qed

interpretation limiter: invariant_system
  "\<lambda>c. slots (fst c) = 0 \<and> snd c = []" "lim_step cap rep" "lim_inv cap rep" for cap rep
proof unfold_locales
  show "lim_inv cap rep c" if "slots (fst c) = 0 \<and> snd c = []" for c :: "'a lworld \<times> phase list"
    using that by (simp add: lim_inv_def tally_def count_phase_def)
qed (rule lim_inv_step)

text \<open>Without repeated calls the channel holds one element for each task that has not completed its call.\<close>

lemma slots_holding:
  assumes "lim_inv cap False (w, ps)"
  shows "slots w = count_phase holding ps"
proof -
  have "calls p + (if holding p then 1 else 0) = (if admitted p then 1 else 0)" if "p \<in> set ps" for p
  proof -
    have "calls p \<le> (case p of Ready _ \<Rightarrow> 1 | _ \<Rightarrow> 0)" using assms that by (auto simp: lim_inv_def)
    then show ?thesis by (cases p) (auto simp: holding_def)
  qed
  then have "tally (\<lambda>p. calls p + (if holding p then 1 else 0)) ps = count_phase admitted ps"
    unfolding count_phase_def by (rule tally_cong)
  then have "tally calls ps + count_phase holding ps = count_phase admitted ps"
    by (simp add: tally_add count_phase_def)
  with assms show ?thesis by (simp add: lim_inv_def)
qed

lemma running_holding:
  assumes "lim_inv cap False (w, ps)"
  shows "count_phase running ps \<le> count_phase holding ps"
    and "i < length ps \<Longrightarrow> ps ! i = Returning k \<Longrightarrow> 0 < count_phase holding ps"
proof -
  have h: "holding p" if "p \<in> set ps" "running p \<or> (\<exists>k. p = Returning k)" for p
    using assms that by (cases p) (auto simp: lim_inv_def holding_def running_def)
  then show "count_phase running ps \<le> count_phase holding ps"
    unfolding count_phase_def by (intro tally_mono) auto
  show "0 < count_phase holding ps" if "i < length ps" "ps ! i = Returning k"
  proof (rule count_phase_pos [OF that(1)])
    show "holding (ps ! i)" using h nth_mem [OF that(1)] that(2) by metis
  qed
qed

section \<open>The middleware as a run of the system\<close>

text \<open>
  What the environment does while the setup of task \<open>i\<close> is blocked: any steps that leave \<open>i\<close> alone, and the
  send is taken only when there is room.
\<close>

definition sel_sound ::
  "nat \<Rightarrow> bool \<Rightarrow> nat \<Rightarrow> phase list \<Rightarrow> 'u lworld \<Rightarrow> 'u lworld \<times> slot_case \<Rightarrow> bool" where
  "sel_sound cap rep i ps w r \<longleftrightarrow>
     (\<exists>qs. (lim_step cap rep)\<^sup>*\<^sup>* (w, ps[i := Blocked]) (fst r, qs) \<and> i < length qs \<and> qs ! i = Blocked
        \<and> (snd r = SlotFree \<longrightarrow> slots (fst r) < cap))"

lemma concurrency_setup_run:
  assumes i: "i < length ps" "ps ! i = Arriving"
    and s: "\<not> slots w < cap \<Longrightarrow> sel_sound cap rep i ps w (sel outer w)"
  shows "\<exists>w' ivk ps'. concurrency_mw cap sel wait outer w = (w', Return (outer, ivk))
    \<and> (lim_step cap rep)\<^sup>*\<^sup>* (w, ps) (w', ps') \<and> i < length ps'
    \<and> (if ps' ! i = Ready 0 then ivk = slot_invoker wait
       else ps' ! i = Discarded \<and> (ivk = InvokerDrop \<or> (\<exists>e. ivk = InvokerErr e)))"
proof (cases "slots w < cap")
  case True
  let ?w = "set_slots (Suc (slots w)) w"
  have "lim_step cap rep (w, ps) (?w, ps[i := Ready 0])"
    using lim_step.fast [OF i, of cap w ?w rep] True by (simp add: try_slot_cases)
  then show ?thesis using True i
    by (intro exI [of _ ?w] exI [of _ "slot_invoker wait"] exI [of _ "ps[i := Ready 0]"])
      (auto simp: concurrency_mw_def try_slot_def)
next
  case False
  obtain w2 c where r: "sel outer w = (w2, c)" by fastforce
  with s [OF False] obtain qs where q: "(lim_step cap rep)\<^sup>*\<^sup>* (w, ps[i := Blocked]) (w2, qs)"
    "i < length qs" "qs ! i = Blocked" "c = SlotFree \<longrightarrow> slots w2 < cap"
    by (auto simp: sel_sound_def)
  have "lim_step cap rep (w, ps) (w, ps[i := Blocked])"
    using lim_step.block [OF i, of cap w w rep] False by (simp add: try_slot_cases)
  with q(1) have run: "(lim_step cap rep)\<^sup>*\<^sup>* (w, ps) (w2, qs)" by simp
  have drop: "lim_step cap rep (w2, qs) (w2, qs[i := Discarded])" using lim_step.discard [OF q(2,3)] .
  show ?thesis
  proof (cases c)
    case SlotFree
    let ?w = "set_slots (Suc (slots w2)) w2"
    have "lim_step cap rep (w2, qs) (?w, qs[i := Ready 0])"
      using lim_step.acquire [OF q(2,3), of cap w2 ?w rep] q(4) SlotFree by (simp add: try_slot_cases)
    with run q SlotFree False r show ?thesis
      by (intro exI [of _ ?w] exI [of _ "slot_invoker wait"] exI [of _ "qs[i := Ready 0]"])
        (auto simp: concurrency_mw_def try_slot_def)
  next
    case SlotStopping
    with run drop q(2) False r show ?thesis
      by (intro exI [of _ w2] exI [of _ InvokerDrop] exI [of _ "qs[i := Discarded]"])
        (auto simp: concurrency_mw_def try_slot_def)
  next
    case (SlotDone e)
    with run drop q(2) False r show ?thesis
      by (intro exI [of _ w2] exI [of _ "InvokerErr e"] exI [of _ "qs[i := Discarded]"])
        (auto simp: concurrency_mw_def try_slot_def)
  qed
qed

text \<open>
  A call of the invoker is a run too, if the channel is not empty when the task has ended; if it is, the
  deferred receive blocks, and \<open>wait\<close> stands for what happens until another task sends.
\<close>

lemma slot_invoker_run:
  assumes i: "i < length ps" "ps ! i = Ready k" "k = 0 \<or> rep"
    and t: "task ctx w = (w1, out)" "(lim_step cap rep)\<^sup>*\<^sup>* (w, ps[i := Running k]) (w1, qs)"
      "i < length qs" "qs ! i = Running k"
    and r: "0 < slots w1"
  shows "slot_invoker wait ctx task w = (set_slots (slots w1 - 1) w1, out)
    \<and> (lim_step cap rep)\<^sup>*\<^sup>* (w, ps) (set_slots (slots w1 - 1) w1, qs[i := Ready (Suc k)])"
proof
  have "lim_step cap rep (w, ps) (w, ps[i := Running k])" by (rule lim_step.start [OF i])
  moreover have "lim_step cap rep (w1, qs) (w1, qs[i := Returning k])" by (rule lim_step.ends [OF t(3,4)])
  moreover have "lim_step cap rep (w1, qs[i := Returning k]) (set_slots (slots w1 - 1) w1, qs[i := Ready (Suc k)])"
    using lim_step.receive [of i "qs[i := Returning k]" k w1 "set_slots (slots w1 - 1) w1" cap rep] t(3) r
    by (simp add: recv_slot_Some)
  ultimately show "(lim_step cap rep)\<^sup>*\<^sup>* (w, ps) (set_slots (slots w1 - 1) w1, qs[i := Ready (Suc k)])"
    using t(2) by (meson converse_rtranclp_into_rtranclp rtranclp.rtrancl_into_rtrancl)
qed (use t(1) r in \<open>simp add: slot_invoker_def release_slot_def recv_slot_def\<close>)

section \<open>Properties\<close>

text \<open>
  C28: the limit is kept when no outer invoker repeats its task. However tasks arrive, block, start, finish
  and are discarded, at most \<open>limit\<close> of them run at the same time, the channel holds exactly one element
  for every task that has been let in and has not completed its call, and no deferred receive blocks.
  The arrivals are those of the code: in every such configuration a setup by \<open>concurrency_mw\<close> is a
  run of the system that ends with the task let in and the slot's invoker, or discarded with an invoker that does
  not run it.
\<close>

theorem concurrency_bounded:
  assumes "(lim_step cap False)\<^sup>*\<^sup>* (w0, []) (w, ps)" and "slots w0 = 0"
  shows "count_phase running ps \<le> cap \<and> slots w = count_phase holding ps \<and> slots w \<le> cap
    \<and> (\<forall>i<length ps. \<forall>k. ps ! i = Returning k \<longrightarrow> recv_slot w \<noteq> None)
    \<and> (\<forall>i<length ps. ps ! i = Arriving \<and> (slots w < cap \<or> sel_sound cap False i ps w (sel outer w)) \<longrightarrow>
         (\<exists>w' ivk ps'. concurrency_mw cap sel wait outer w = (w', Return (outer, ivk))
            \<and> (lim_step cap False)\<^sup>*\<^sup>* (w0, []) (w', ps') \<and> i < length ps'
            \<and> (if ps' ! i = Ready 0 then ivk = slot_invoker wait
               else ps' ! i = Discarded \<and> (ivk = InvokerDrop \<or> (\<exists>e. ivk = InvokerErr e)))))"
proof -
  have inv: "lim_inv cap False (w, ps)" by (rule limiter.inv_reachable [OF _ assms(1)]) (simp add: assms(2))
  then have s: "slots w = count_phase holding ps" "slots w \<le> cap"
    using slots_holding by (auto simp: lim_inv_def)
  moreover have "recv_slot w \<noteq> None" if "i < length ps" "ps ! i = Returning k" for i k
    using running_holding(2) [OF inv that] s(1) by (simp add: recv_slot_def)
  moreover have "\<exists>w' ivk ps'. concurrency_mw cap sel wait outer w = (w', Return (outer, ivk))
            \<and> (lim_step cap False)\<^sup>*\<^sup>* (w0, []) (w', ps') \<and> i < length ps'
            \<and> (if ps' ! i = Ready 0 then ivk = slot_invoker wait
               else ps' ! i = Discarded \<and> (ivk = InvokerDrop \<or> (\<exists>e. ivk = InvokerErr e)))"
    if "i < length ps" "ps ! i = Arriving" "slots w < cap \<or> sel_sound cap False i ps w (sel outer w)" for i
    using concurrency_setup_run [OF that(1,2), of w cap False sel outer wait] that(3) rtranclp_trans [OF assms(1)]
    by blast
  ultimately show ?thesis using running_holding(1) [OF inv] by auto
qed

definition free_world :: "(nat \<times> nat) tworld" where
  "free_world = \<lparr>tw_user = (0, 0), tw_st = new_state (Cleanup 0) () None, tw_emitted = [], tw_now = 0,
     tw_tasks = (\<lambda>_. []), tw_infos = []\<rparr>"

lemma free_slots [simp]: "slots free_world = 0"
  by (simp add: slots_def free_world_def)

lemma lim_run_one:
  "(lim_step 1 rep)\<^sup>*\<^sup>* (free_world, []) (set_slots 1 free_world, [Running 0, Arriving])"
proof -
  let ?w = "set_slots 1 free_world"
  have "lim_step 1 rep (free_world, []) (free_world, [Arriving])" using lim_step.arrive [of 1 rep free_world "[]"] by simp
  moreover have "lim_step 1 rep (free_world, [Arriving]) (?w, [Ready 0])"
    using lim_step.fast [of 0 "[Arriving]" 1 free_world ?w rep] by (simp add: try_slot_cases)
  moreover have "lim_step 1 rep (?w, [Ready 0]) (?w, [Running 0])"
    using lim_step.start [of 0 "[Ready 0]" 0 rep 1 ?w] by simp
  moreover have "lim_step 1 rep (?w, [Running 0]) (?w, [Running 0, Arriving])"
    using lim_step.arrive [of 1 rep ?w "[Running 0]"] by simp
  ultimately show ?thesis by (meson converse_rtranclp_into_rtranclp rtranclp.rtrancl_refl)
qed

theorem concurrency_bounded_witness:
  "count_phase running [Running 0, Arriving] \<le> 1
   \<and> (\<exists>w' ivk ps'. concurrency_mw 1 (\<lambda>c w. (w, SlotStopping)) id Background (set_slots 1 free_world)
          = (w', Return (Background, ivk))
        \<and> (lim_step 1 False)\<^sup>*\<^sup>* (free_world, []) (w', ps')
        \<and> ps' ! 1 = Discarded \<and> (ivk = InvokerDrop \<or> (\<exists>e. ivk = InvokerErr e)))"
proof -
  let ?w = "set_slots 1 free_world" and ?ps = "[Running 0, Arriving]"
  have s: "sel_sound 1 False 1 ?ps ?w (?w, SlotStopping)"
    unfolding sel_sound_def by (rule exI [of _ "?ps[1 := Blocked]"]) simp
  note b = concurrency_bounded [OF lim_run_one free_slots, of "\<lambda>c w. (w, SlotStopping)" Background id]
  have "1 < length ?ps \<and> ?ps ! 1 = Arriving" by simp
  with b s obtain w' ivk ps' where r: "concurrency_mw 1 (\<lambda>c w. (w, SlotStopping)) id Background ?w = (w', Return (Background, ivk))"
    "(lim_step 1 False)\<^sup>*\<^sup>* (free_world, []) (w', ps')"
    "if ps' ! 1 = Ready 0 then ivk = slot_invoker id
       else ps' ! 1 = Discarded \<and> (ivk = InvokerDrop \<or> (\<exists>e. ivk = InvokerErr e))" by meson
  have "concurrency_mw 1 (\<lambda>c w. (w, SlotStopping)) id Background ?w = (?w, Return (Background, InvokerDrop))"
    by (simp add: concurrency_mw_def try_slot_def)
  with r(1) have ivk: "ivk = InvokerDrop" by simp
  let ?t = "\<lambda>c w. (w, Return None) :: (nat \<times> nat) tworld \<times> goerr option outcome"
  have "slots (fst (InvokerDrop Background ?t ?w)) \<noteq> slots (fst (slot_invoker id Background ?t ?w))"
    by (simp add: InvokerDrop_def slot_invoker_def release_slot_def recv_slot_def)
  then have "InvokerDrop \<noteq> (slot_invoker id :: (nat \<times> nat) invoker)" by auto
  with r(3) ivk have "ps' ! 1 = Discarded" by (auto split: if_splits)
  with r(1,2) ivk conjunct1 [OF b] show ?thesis by blast
qed

text \<open>
  The slot of one task, on the code's own functions. A task that is let in gives its slot back when
  it returns and when it panics; the task that is discarded by a stop runs nothing, and the one
  that meets a canceled context gets that context's error.
\<close>

lemma slot_invoker_held:
  assumes "\<And>c x. slots (fst (task c x)) = slots x" and "0 < slots w"
  shows "slots (fst (slot_invoker wait ctx task w)) = slots w - 1"
    and "snd (slot_invoker wait ctx task w) = snd (task ctx w)"
  using assms(1) [of ctx w] assms(2)
  by (auto simp: slot_invoker_def release_slot_def recv_slot_def split: prod.splits)

theorem concurrency_task:
  assumes "slots w < cap \<or> (\<exists>w2. sel ctx w = (w2, SlotFree) \<and> slots w2 < cap)"
    and "\<And>c x. slots (fst (task c x)) = slots x"
  shows "\<exists>w1 w0. concurrency_mw cap sel wait ctx w = (w1, Return (ctx, slot_invoker wait))
    \<and> slots w1 = slots w0 + 1 \<and> slots w1 \<le> cap
    \<and> (slots w < cap \<longrightarrow> w0 = w)
    \<and> slots (fst (slot_invoker wait ctx task w1)) = slots w0
    \<and> snd (slot_invoker wait ctx task w1) = snd (task ctx w1)"
proof -
  note r = slot_invoker_held [OF assms(2), where wait = wait and ctx = ctx]
  show ?thesis
  proof (cases "slots w < cap")
    case True
    then have m: "concurrency_mw cap sel wait ctx w
        = (set_slots (slots w + 1) w, Return (ctx, slot_invoker wait))"
      by (simp add: concurrency_mw_def try_slot_def)
    show ?thesis
      by (rule exI [of _ "set_slots (slots w + 1) w"], rule exI [of _ w]) (use m r True in simp)
  next
    case False
    with assms(1) obtain w2 where s: "sel ctx w = (w2, SlotFree)" "slots w2 < cap" by blast
    with False have m: "concurrency_mw cap sel wait ctx w
        = (set_slots (slots w2 + 1) w2, Return (ctx, slot_invoker wait))"
      by (simp add: concurrency_mw_def try_slot_def)
    show ?thesis
      by (rule exI [of _ "set_slots (slots w2 + 1) w2"], rule exI [of _ w2])
        (use m r s False in simp)
  qed
qed

theorem concurrency_task_witness:
  "\<exists>w1. concurrency_mw 1 (\<lambda>c w. (w, SlotStopping)) id Background free_world
       = (w1, Return (Background, slot_invoker id))
     \<and> slots w1 = 1
     \<and> slots (fst (slot_invoker id Background (\<lambda>c w. (w, Panic (PanicOther ''boom''))) w1)) = 0"
proof -
  have "slots free_world < 1 \<or> (\<exists>w2. (free_world, SlotStopping) = (w2, SlotFree) \<and> slots w2 < 1)" by simp
  from concurrency_task [of free_world 1 "\<lambda>c w. (w, SlotStopping)" Background
      "\<lambda>c w. (w, Panic (PanicOther ''boom''))" id, OF this]
  show ?thesis by auto
qed

text \<open>
  A slot is taken in the setup phase but given back by the invoker only, so a middleware outside the
  limit whose invoker short-circuits leaks the slot.
\<close>

theorem short_circuit_leaks_slot:
  assumes "slots w < cap"
  shows "\<exists>w1. setup_mw [\<lambda>c x. (x, Return (c, InvokerDrop)), concurrency_mw cap sel wait] ctx w
        = (w1, Return (ctx, [InvokerDrop, slot_invoker wait]))
    \<and> slots w1 = slots w + 1
    \<and> build_chain [InvokerDrop, slot_invoker wait] ctx task w1 = (w1, Return None)"
  using assms
  by (auto simp: concurrency_mw_def try_slot_def link_def InvokerDrop_def)

theorem short_circuit_leaks_slot_witness:
  "\<exists>w1 :: nat lworld. build_chain [InvokerDrop, slot_invoker id] Background (\<lambda>c w. (w, Return None)) w1
       = (w1, Return None) \<and> slots w1 = 1"
proof -
  have "slots free_world < 1" by simp
  from short_circuit_leaks_slot [OF this, of "\<lambda>c w. (w, SlotStopping)" id Background
      "\<lambda>c w. (w, Return None)"]
  show ?thesis by (metis add_0 free_slots)
qed

text \<open>Once \<open>limit\<close> slots are lost, nothing is let in, and no task that could give one back is running.\<close>

theorem lost_slots_block:
  assumes "(lim_step cap False)\<^sup>*\<^sup>* (w0, []) (w, ps)" and "slots w0 = 0"
    and "count_phase (\<lambda>p. p = Ready 0) ps = cap"
  shows "try_slot cap w = (w, False) \<and> count_phase (\<lambda>p. holding p \<and> p \<noteq> Ready 0) ps = 0"
proof -
  have inv: "lim_inv cap False (w, ps)" by (rule limiter.inv_reachable [OF _ assms(1)]) (simp add: assms(2))
  have "tally (\<lambda>p. (if p = Ready 0 then 1 else 0) + (if holding p \<and> p \<noteq> Ready 0 then 1 else 0)) ps
      = count_phase holding ps"
    unfolding count_phase_def by (rule tally_cong) (auto simp: holding_def)
  then have "cap + count_phase (\<lambda>p. holding p \<and> p \<noteq> Ready 0) ps = slots w"
    using assms(3) slots_holding [OF inv] by (simp add: tally_add count_phase_def)
  moreover have "slots w \<le> cap" using inv by (simp add: lim_inv_def)
  ultimately show ?thesis by (simp add: try_slot_def)
qed

theorem lost_slots_block_witness: "try_slot 1 (set_slots 1 free_world) = (set_slots 1 free_world, False)"
proof -
  let ?w = "set_slots 1 free_world"
  have "lim_step 1 False (free_world, []) (free_world, [Arriving])"
    using lim_step.arrive [of 1 False free_world "[]"] by simp
  moreover have "lim_step 1 False (free_world, [Arriving]) (?w, [Ready 0])"
    using lim_step.fast [of 0 "[Arriving]" 1 free_world ?w False] by (simp add: try_slot_cases)
  ultimately have "(lim_step 1 False)\<^sup>*\<^sup>* (free_world, []) (?w, [Ready 0])"
    by (meson converse_rtranclp_into_rtranclp rtranclp.rtrancl_refl)
  from lost_slots_block [OF this] show ?thesis by (simp add: count_phase_def tally_def)
qed

section \<open>Below a middleware that repeats its task\<close>

lemma returning_step:
  assumes "lim_step cap rep (w, ps) (w', ps')" and "i < length ps"
    and "ps ! i = Returning k \<or> k < calls (ps ! i)"
  shows "i < length ps' \<and> (ps' ! i = Returning k \<or> k < calls (ps' ! i))"
  using assms by (cases rule: lim_step.cases) (auto simp: nth_append nth_list_update)

lemma returning_steps:
  assumes "(lim_step cap rep)\<^sup>*\<^sup>* c c'" and "i < length (snd c)" and "snd c ! i = Returning k"
  shows "i < length (snd c') \<and> (snd c' ! i = Returning k \<or> k < calls (snd c' ! i))"
  using assms(1)
proof (induction rule: rtranclp_induct)
  case (step y z)
  then show ?case using returning_step [of cap rep "fst y" "snd y" "fst z" "snd z" i k] by simp
qed (use assms(2,3) in simp)

lemma tally_single:
  assumes "i < length ps" and "\<And>j. j < length ps \<Longrightarrow> j \<noteq> i \<Longrightarrow> f (ps ! j) = 0"
  shows "tally f ps = f (ps ! i)"
  using assms
proof (induction ps arbitrary: i)
  case (Cons x ps)
  show ?case
  proof (cases i)
    case 0
    have "f p = 0" if p: "p \<in> set ps" for p
    proof -
      obtain j where "j < length ps" "ps ! j = p" using p by (auto simp: in_set_conv_nth)
      with Cons.prems(2) [of "Suc j"] 0 show ?thesis by simp
    qed
    then have "tally f ps = 0" by (simp add: tally_def cong: map_cong)
    with 0 show ?thesis by (simp add: tally_def)
  next
    case (Suc m)
    have "tally f ps = f (ps ! m)"
      using Cons.IH [of m] Cons.prems(1) Cons.prems(2) [of "Suc j" for j] Suc by auto
    with Suc Cons.prems(2) [of 0] show ?thesis by (simp add: tally_def)
  qed
qed simp

text \<open>
  A middleware outside the limit that repeats its task, such as those of package retry, blocks: the
  slot was taken once, in the setup phase, but every call of the invoker receives from the channel. The
  second call of a task that is alone blocks in its deferred receive, and it stays there for as long as no
  other task is let in.
\<close>

theorem repeated_call_blocks:
  assumes "(lim_step cap rep)\<^sup>*\<^sup>* (w0, []) (w, ps)" and "slots w0 = 0"
    and "i < length ps" and "ps ! i = Returning k" and "0 < k"
    and "\<And>j. j < length ps \<Longrightarrow> j \<noteq> i \<Longrightarrow> \<not> admitted (ps ! j)"
    and "(lim_step cap rep)\<^sup>*\<^sup>* (w, ps) (w', ps')"
    and "\<And>j. j < length ps' \<Longrightarrow> j \<noteq> i \<Longrightarrow> \<not> admitted (ps' ! j)"
  shows "k = 1 \<and> recv_slot w = None \<and> recv_slot w' = None \<and> ps' ! i = Returning k"
proof -
  have count: "slots v + calls (qs ! i) = (if admitted (qs ! i) then 1 else 0)"
    if "(lim_step cap rep)\<^sup>*\<^sup>* (w0, []) (v, qs)" "i < length qs"
      "\<And>j. j < length qs \<Longrightarrow> j \<noteq> i \<Longrightarrow> \<not> admitted (qs ! j)" for v qs
  proof -
    have inv: "lim_inv cap rep (v, qs)" by (rule limiter.inv_reachable [OF _ that(1)]) (simp add: assms(2))
    have z: "calls p = 0" if "\<not> admitted p" for p using that by (cases p) simp_all
    have "tally calls qs = calls (qs ! i)" using that(2,3) z by (intro tally_single) auto
    moreover have "count_phase admitted qs = (if admitted (qs ! i) then 1 else 0)"
      unfolding count_phase_def using that(2,3) by (subst tally_single [of i]) auto
    ultimately show ?thesis using inv by (simp add: lim_inv_def)
  qed
  from count [OF assms(1,3,6)] assms(4,5) have k: "k = 1" "slots w = 0" by simp_all
  from returning_steps [OF assms(7)] assms(3,4)
  have i: "i < length ps'" "ps' ! i = Returning k \<or> k < calls (ps' ! i)" by simp_all
  from count [OF rtranclp_trans [OF assms(1,7)] i(1) assms(8)] i(2) k(1)
  have "slots w' = 0" "ps' ! i = Returning k" by (auto split: if_splits)
  with k show ?thesis by (simp add: recv_slot_def)
qed

lemma lim_repeat_run:
  "(lim_step 1 True)\<^sup>*\<^sup>* (free_world, []) (set_slots 0 (set_slots 1 free_world), [Returning 1])"
  "(lim_step 1 True)\<^sup>*\<^sup>* (free_world, [])
     (set_slots 1 (set_slots 0 (set_slots 1 free_world)), [Running 1, Running 0])"
proof -
  let ?w1 = "set_slots 1 free_world" and ?w0 = "set_slots 0 (set_slots 1 free_world)"
  let ?w2 = "set_slots 1 ?w0"
  note into = converse_rtranclp_into_rtranclp [of "lim_step 1 True"]
  have 1: "lim_step 1 True (free_world, []) (free_world, [Arriving])"
    using lim_step.arrive [of 1 True free_world "[]"] by simp
  have 2: "lim_step 1 True (free_world, [Arriving]) (?w1, [Ready 0])"
    using lim_step.fast [of 0 "[Arriving]" 1 free_world ?w1 True] by (simp add: try_slot_cases)
  have 3: "lim_step 1 True (?w1, [Ready 0]) (?w1, [Running 0])"
    using lim_step.start [of 0 "[Ready 0]" 0 True 1 ?w1] by simp
  have 4: "lim_step 1 True (?w1, [Running 0]) (?w1, [Returning 0])"
    using lim_step.ends [of 0 "[Running 0]" 0 1 True ?w1] by simp
  have 5: "lim_step 1 True (?w1, [Returning 0]) (?w0, [Ready 1])"
    using lim_step.receive [of 0 "[Returning 0]" 0 ?w1 ?w0 1 True] by (simp add: recv_slot_Some)
  have 6: "lim_step 1 True (?w0, [Ready 1]) (?w0, [Running 1])"
    using lim_step.start [of 0 "[Ready 1]" 1 True 1 ?w0] by simp
  have 7: "lim_step 1 True (?w0, [Running 1]) (?w0, [Returning 1])"
    using lim_step.ends [of 0 "[Running 1]" 1 1 True ?w0] by simp
  have 8: "lim_step 1 True (?w0, [Running 1]) (?w0, [Running 1, Arriving])"
    using lim_step.arrive [of 1 True ?w0 "[Running 1]"] by simp
  have 9: "lim_step 1 True (?w0, [Running 1, Arriving]) (?w2, [Running 1, Ready 0])"
    using lim_step.fast [of 1 "[Running 1, Arriving]" 1 ?w0 ?w2 True] by (simp add: try_slot_cases)
  have 10: "lim_step 1 True (?w2, [Running 1, Ready 0]) (?w2, [Running 1, Running 0])"
    using lim_step.start [of 1 "[Running 1, Ready 0]" 0 True 1 ?w2] by simp
  show "(lim_step 1 True)\<^sup>*\<^sup>* (free_world, []) (?w0, [Returning 1])"
    by (rule into [OF 1 into [OF 2 into [OF 3 into [OF 4 into [OF 5 into [OF 6 into [OF 7 rtranclp.rtrancl_refl]]]]]]])
  show "(lim_step 1 True)\<^sup>*\<^sup>* (free_world, []) (?w2, [Running 1, Running 0])"
    by (rule into [OF 1 into [OF 2 into [OF 3 into [OF 4 into [OF 5 into [OF 6 into [OF 8 into [OF 9
          into [OF 10 rtranclp.rtrancl_refl]]]]]]]]])
qed

theorem repeated_call_blocks_witness: "recv_slot (set_slots 0 (set_slots 1 free_world)) = None"
  using repeated_call_blocks [OF lim_repeat_run(1) free_slots, of 0 1, OF _ _ _ _ rtranclp.rtrancl_refl] by simp

text \<open>
  With other tasks around the second call runs without a slot, so two tasks run under a limit of one; and
  its receive will take the slot of the other.
\<close>

theorem repeated_call_exceeds_limit:
  "\<exists>w ps. (lim_step 1 True)\<^sup>*\<^sup>* (free_world, []) (w, ps) \<and> count_phase running ps = 2"
  using lim_repeat_run(2) by (intro exI conjI) (auto simp: count_phase_def tally_def running_def)

text \<open>
  The rate limit lets a task run exactly when the limiter allows it, at once or after a wait; a wait
  cut short by a soft stop discards the task silently, and any other error of the limiter is the
  task's result.
\<close>

theorem rate_limit_spec:
  assumes "allow w = (w1, b)" and "wait (stopping_context ctx) w1 = (w2, e)"
  shows "\<exists>ivk. rate_mw allow wait ctx w = (if b then w1 else w2, Return (ctx, ivk))
    \<and> ivk ctx task x =
        (if b \<or> e = None then task ctx x
         else if errors_is_opt e ErrStopped then (x, Return None) else (x, Return e))"
proof -
  consider "b" | "\<not> b" "e = None" | err where "\<not> b" "e = Some err" by (cases e) auto
  then show ?thesis
    by cases
      (use assms in \<open>auto simp: rate_mw_def InvokerCall_def InvokerDrop_def InvokerErr_def errors_is_opt_def\<close>)
qed

theorem rate_limit_spec_witness:
  "\<exists>ivk. rate_mw (\<lambda>w. (w, False)) (\<lambda>c w. (w, errCanceledStopped)) Background empty_tworld
      = (empty_tworld, Return (Background, ivk))
    \<and> ivk Background boom_task empty_tworld = (empty_tworld, Return None)"
proof -
  have "errors_is_opt errCanceledStopped ErrStopped" "errCanceledStopped \<noteq> None"
    by (simp_all add: errCanceledStopped_eq errors_is_simps)
  with rate_limit_spec [of "\<lambda>w. (w, False)" empty_tworld empty_tworld False
      "\<lambda>c w. (w, errCanceledStopped)" Background empty_tworld errCanceledStopped boom_task empty_tworld]
  show ?thesis by auto
qed

end
