(* ===== verification/Linger.thy ===== *)
theory Linger
  imports Stopper
begin

text \<open>
  linger/ and compat/linger/: the recorder of the call stacks of running tasks, as a v2 middleware and as
  a v1 invoker's sampling step, and \<open>CheckClean\<close>. The recorder is the first component of the user's
  part of the world; \<open>stack\<close> is the call stack that \<open>runtime.Callers\<close> walks at the call.
\<close>

record recorder =
  rc_counter :: nat
  rc_data :: "(nat \<times> rt_frame list) list"
  rc_depth :: nat

type_synonym 'u rworld = "(recorder \<times> 'u) tworld"

definition callers_offset :: nat where
  "callers_offset = 4"

definition new_recorder :: "nat \<Rightarrow> recorder" where
  "new_recorder depth = \<lparr>rc_counter = 0, rc_data = [], rc_depth = depth\<rparr>"

definition the_rec :: "'u rworld \<Rightarrow> recorder" where
  "the_rec w = fst (tw_user w)"

definition upd_rec :: "(recorder \<Rightarrow> recorder) \<Rightarrow> 'u rworld \<Rightarrow> 'u rworld" where
  "upd_rec f w = w\<lparr>tw_user := (f (fst (tw_user w)), snd (tw_user w))\<rparr>"

definition rec_callers :: "recorder \<Rightarrow> rt_frame list list" where
  "rec_callers r = map snd (rc_data r)"

definition rec_store :: "rt_frame list \<Rightarrow> recorder \<Rightarrow> nat \<times> recorder" where
  "rec_store stack r =
     (let pc = take (rc_depth r) (drop callers_offset stack);
          n = rc_counter r + 1
      in (n, r\<lparr>rc_counter := n, rc_data := rc_data r @ [(n, pc)]\<rparr>))"

definition rec_delete :: "nat \<Rightarrow> recorder \<Rightarrow> recorder" where
  "rec_delete n r = r\<lparr>rc_data := filter (\<lambda>e. fst e \<noteq> n) (rc_data r)\<rparr>"

section \<open>Middleware\<close>

definition rec_invoker :: "nat \<Rightarrow> (recorder \<times> 'u) invoker" where
  "rec_invoker n ctx fn w = (case fn ctx w of (w1, out) \<Rightarrow> (upd_rec (rec_delete n) w1, out))"

definition rec_middleware :: "rt_frame list \<Rightarrow> (recorder \<times> 'u) middleware" where
  "rec_middleware stack outer w =
     (case rec_store stack (the_rec w) of
        (n, r) \<Rightarrow> (upd_rec (\<lambda>_. r) w, Return (outer, rec_invoker n)))"

section \<open>CheckClean\<close>

text \<open>The lines given to \<open>Errorf\<close>; the loop over the frames prints before it looks at \<open>more\<close>.\<close>

definition linger_line :: "rt_frame \<Rightarrow> string" where
  "linger_line f = ''    '' @ fr_function f @ '' ( '' @ fr_file f @ '':'' @ nat_str (fr_line f) @ '' )''"

fun linger_frames :: "rt_frame list \<Rightarrow> string list" where
  "linger_frames [] = [linger_line \<lparr>fr_function = '''', fr_file = '''', fr_line = 0\<rparr>]"
| "linger_frames [f] = [linger_line f]"
| "linger_frames (f # g # fs) = linger_line f # linger_frames (g # fs)"

definition check_clean :: "recorder \<Rightarrow> string list" where
  "check_clean r =
     (if rec_callers r = [] then []
      else ''lingering tasks detected''
           # concat (map (\<lambda>s. ''  stuck task started at:'' # linger_frames s) (rec_callers r)))"

text \<open>The v1 recorder has the same state; \<open>CheckClean\<close> of compat/linger differs in the format of a frame.\<close>

definition compat_new_recorder :: "nat \<Rightarrow> recorder" where
  "compat_new_recorder depth = \<lparr>rc_counter = 0, rc_data = [], rc_depth = depth\<rparr>"

definition compat_callers :: "recorder \<Rightarrow> rt_frame list list" where
  "compat_callers r = map snd (rc_data r)"

definition compat_line :: "rt_frame \<Rightarrow> string" where
  "compat_line f = ''    '' @ fr_function f @ '' ('' @ fr_file f @ '':'' @ nat_str (fr_line f) @ '')''"

fun compat_frames :: "rt_frame list \<Rightarrow> string list" where
  "compat_frames [] = [compat_line \<lparr>fr_function = '''', fr_file = '''', fr_line = 0\<rparr>]"
| "compat_frames [f] = [compat_line f]"
| "compat_frames (f # g # fs) = compat_line f # compat_frames (g # fs)"

definition compat_check_clean :: "recorder \<Rightarrow> string list" where
  "compat_check_clean r =
     (if compat_callers r = [] then []
      else ''lingering tasks detected''
           # concat (map (\<lambda>s. ''  stuck task started at:'' # compat_frames s) (compat_callers r)))"

section \<open>Properties\<close>

definition rec_ok :: "recorder \<Rightarrow> bool" where
  "rec_ok r \<longleftrightarrow> distinct (map fst (rc_data r)) \<and> (\<forall>e\<in>set (rc_data r). fst e \<le> rc_counter r)"

lemma the_upd_rec [simp]: "the_rec (upd_rec f w) = f (the_rec w)"
  by (simp add: the_rec_def upd_rec_def)

lemma length_linger_frames: "length (linger_frames fs) = max 1 (length fs)"
  by (induction fs rule: linger_frames.induct) auto

lemma length_reports:
  "length (concat (map (\<lambda>s. ''  stuck task started at:'' # linger_frames s) xs))
     = sum_list (map (\<lambda>s. 1 + max 1 (length s)) xs)"
  by (induction xs) (simp_all add: length_linger_frames)

lemma rec_callers_Nil [simp]: "rec_callers r = [] \<longleftrightarrow> rc_data r = []"
  by (simp add: rec_callers_def)

text \<open>
  \<open>CheckClean\<close> reports nothing exactly when no task is recorded; otherwise one headline, and for
  every recorded task a line and at least one frame.
\<close>

theorem check_clean_spec:
  "(check_clean r = [] \<longleftrightarrow> rc_data r = [])
   \<and> (rc_data r \<noteq> [] \<longrightarrow> length (check_clean r)
        = 1 + sum_list (map (\<lambda>s. 1 + max 1 (length s)) (rec_callers r)))"
  by (auto simp: check_clean_def length_reports)

theorem check_clean_spec_witness:
  "length (check_clean \<lparr>rc_counter = 1, rc_data = [(1, [])], rc_depth = 0\<rparr>) = 3"
  using check_clean_spec [of "\<lparr>rc_counter = 1, rc_data = [(1, [])], rc_depth = 0\<rparr>"]
  by (simp add: rec_callers_def)

text \<open>The v1 report has the same lines in another format.\<close>

lemma length_compat_frames: "length (compat_frames fs) = length (linger_frames fs)"
  by (induction fs rule: compat_frames.induct) auto

lemma compat_check_clean_length: "length (compat_check_clean r) = length (check_clean r)"
proof -
  have "length (concat (map (\<lambda>s. ''  stuck task started at:'' # compat_frames s) xs))
      = length (concat (map (\<lambda>s. ''  stuck task started at:'' # linger_frames s) xs))" for xs
    by (induction xs) (simp_all add: length_compat_frames)
  then show ?thesis unfolding compat_check_clean_def check_clean_def
    by (simp add: compat_callers_def [folded rec_callers_def])
qed

text \<open>
  C37: a recorded task is visible from its setup until its invoker has finished, and then gone, even when
  it panics and whatever other tasks have been recorded or have finished in between: the deletion
  takes out this task's entry and no other.
\<close>

theorem recorder_entry:
  assumes "rec_ok (the_rec w)" and "fn ctx w1' = (w2, out)"
    and "rec_middleware stack outer w = (w1, Return (outer, ivk))"
    and "rec_ok (the_rec w2)"
  shows "\<exists>n. ivk = rec_invoker n \<and> n \<notin> fst ` set (rc_data (the_rec w))
    \<and> rc_data (the_rec w1) = rc_data (the_rec w) @ [(n, take (rc_depth (the_rec w)) (drop 4 stack))]
    \<and> rec_ok (the_rec w1)
    \<and> rc_data (the_rec (fst (ivk ctx fn w1'))) = filter (\<lambda>e. fst e \<noteq> n) (rc_data (the_rec w2))
    \<and> (the_rec w2 = the_rec w1 \<longrightarrow> rc_data (the_rec (fst (ivk ctx fn w1'))) = rc_data (the_rec w))
    \<and> snd (ivk ctx fn w1') = out"
proof -
  let ?r = "the_rec w"
  let ?n = "rc_counter ?r + 1"
  let ?pc = "take (rc_depth ?r) (drop 4 stack)"
  have m: "ivk = rec_invoker ?n" "the_rec w1 = ?r\<lparr>rc_counter := ?n, rc_data := rc_data ?r @ [(?n, ?pc)]\<rparr>"
    using assms(3) by (auto simp: rec_middleware_def rec_store_def Let_def callers_offset_def)
  have fresh: "?n \<notin> fst ` set (rc_data ?r)" using assms(1) by (auto simp: rec_ok_def)
  then have f: "filter (\<lambda>e. fst e \<noteq> ?n) (rc_data ?r) = rc_data ?r"
    by (intro filter_True) (auto simp: image_iff)
  have ok: "rec_ok (the_rec w1)" using assms(1) fresh m(2) by (auto simp: rec_ok_def)
  have d: "rc_data (the_rec (fst (ivk ctx fn w1'))) = filter (\<lambda>e. fst e \<noteq> ?n) (rc_data (the_rec w2))"
      "snd (ivk ctx fn w1') = out"
    using assms(2) m(1) by (simp_all add: rec_invoker_def rec_delete_def)
  have "the_rec w2 = the_rec w1 \<longrightarrow> rc_data (the_rec (fst (ivk ctx fn w1'))) = rc_data ?r"
    using d(1) m(2) f by simp
  with m fresh ok d show ?thesis by (intro exI [of _ ?n]) simp
qed

definition rec_world :: "nat rworld" where
  "rec_world = \<lparr>tw_user = (new_recorder 1, 0), tw_st = new_state (Cleanup 0) () None, tw_emitted = [],
     tw_now = 0, tw_tasks = (\<lambda>_. []), tw_infos = []\<rparr>"

theorem recorder_entry_witness:
  "\<exists>w1 ivk. rec_middleware [] Background rec_world = (w1, Return (Background, ivk))
     \<and> rc_data (the_rec w1) = [(1, [])]
     \<and> rc_data (the_rec (fst (ivk Background (\<lambda>c w. (w, Panic (PanicOther ''boom''))) w1))) = []"
proof -
  obtain w1 ivk where m: "rec_middleware [] Background rec_world = (w1, Return (Background, ivk))"
    by (auto simp: rec_middleware_def rec_store_def Let_def)
  have ok: "rec_ok (the_rec rec_world)" "rc_data (the_rec rec_world) = []" "rc_counter (the_rec rec_world) = 0"
    by (simp_all add: rec_ok_def the_rec_def rec_world_def new_recorder_def)
  have m1: "the_rec w1 = (the_rec rec_world)\<lparr>rc_counter := 1, rc_data := [(1, [])]\<rparr>"
    using m ok by (auto simp: rec_middleware_def rec_store_def Let_def)
  have ok1: "rec_ok (the_rec w1)" by (simp add: m1 rec_ok_def)
  from recorder_entry [where fn = "\<lambda>c w. (w, Panic (PanicOther ''boom''))" and ctx = Background
      and w1' = w1, OF ok(1) refl m ok1] m m1 ok
  show ?thesis by auto
qed

end
