(* ===== verification/Compat.thy ===== *)
theory Compat
  imports Adapt Linger
begin

text \<open>
  compat/: the v1 API over a v2 context. A compat context is an inner context with the invokers
  accumulated by \<open>WithInvoker\<close>; an invoker is named by a number and \<open>tbl\<close> is what it does (its prep step
  may change the world). \<open>bg\<close> is the inner context of the background singleton.
\<close>

record cctx =
  cc_inner :: gctx
  cc_invokers :: "nat list"
  cc_background :: bool

type_synonym 's cfunc = "cctx \<Rightarrow> ('s, goerr option) comp"
type_synonym 's cinvoker = "'s cfunc \<Rightarrow> 's tworld \<Rightarrow> 's tworld \<times> 's cfunc"

definition cbackground :: "gctx \<Rightarrow> cctx" where
  "cbackground bg = \<lparr>cc_inner = bg, cc_invokers = [], cc_background = True\<rparr>"

text \<open>A \<open>context.Context\<close> value that may be a compat context itself.\<close>

datatype anyctx = Std gctx | Compat cctx

definition std_of :: "anyctx \<Rightarrow> gctx" where
  "std_of c = (case c of Std g \<Rightarrow> g | Compat x \<Rightarrow> cc_inner x)"

definition cfrom :: "'mw cworld \<Rightarrow> gctx \<Rightarrow> anyctx \<Rightarrow> cctx" where
  "cfrom cw bg ctx =
     (case ctx of
        Compat c \<Rightarrow> c
      | Std g \<Rightarrow>
          (case from_ctx cw g of
             None \<Rightarrow> cbackground bg
           | Some found \<Rightarrow> \<lparr>cc_inner = found, cc_invokers = [], cc_background = False\<rparr>))"

section \<open>Invokers\<close>

text \<open>The loop of \<open>applyInvokers\<close>, downwards from the last invoker.\<close>

fun apply_loop :: "(nat \<Rightarrow> 's cinvoker) \<Rightarrow> nat list \<Rightarrow> nat \<Rightarrow> 's cfunc \<Rightarrow> 's tworld \<Rightarrow> 's tworld \<times> 's cfunc" where
  "apply_loop tbl ivs 0 task w = (w, task)"
| "apply_loop tbl ivs (Suc i) task w =
     (case tbl (ivs ! i) task w of (w1, task1) \<Rightarrow> apply_loop tbl ivs i task1 w1)"

definition apply_invokers ::
  "(nat \<Rightarrow> 's cinvoker) \<Rightarrow> cctx \<Rightarrow> 's cfunc \<Rightarrow> 's tworld \<Rightarrow> 's tworld \<times> 's cfunc" where
  "apply_invokers tbl c fn w = apply_loop tbl (cc_invokers c) (length (cc_invokers c)) fn w"

definition cwrap :: "'s cfunc \<Rightarrow> 's tfunc" where
  "cwrap task ctx = task \<lparr>cc_inner = ctx, cc_invokers = [], cc_background = False\<rparr>"

section \<open>Methods\<close>

definition compat_call ::
  "(nat \<Rightarrow> 's cinvoker) \<Rightarrow> 's env \<Rightarrow> 's middleware config \<Rightarrow> cctx \<Rightarrow> 's cfunc \<Rightarrow> ('s, goerr option) comp" where
  "compat_call tbl en cfg c fn w =
     (case apply_invokers tbl c fn w of
        (w1, task) \<Rightarrow> impl_call en cfg (cc_inner c) (cwrap task) [] w1)"

definition compat_go ::
  "(nat \<Rightarrow> 's cinvoker) \<Rightarrow> 's env \<Rightarrow> 's middleware config \<Rightarrow> cctx \<Rightarrow> 's cfunc
     \<Rightarrow> ('s, bool \<times> ('s, unit) comp option) comp" where
  "compat_go tbl en cfg c fn w =
     (case apply_invokers tbl c fn w of
        (w1, task) \<Rightarrow>
          (case impl_go en cfg (cc_inner c) (cwrap task) [] w1 of
             (w2, Panic r) \<Rightarrow> (w2, Panic r)
           | (w2, Return (err, g)) \<Rightarrow> (w2, Return (err = None, g))))"

definition compat_defer :: "'s env \<Rightarrow> fid \<Rightarrow> cctx \<Rightarrow> ('s, unit) comp \<Rightarrow> ('s, unit) comp" where
  "compat_defer en f c fn w =
     (if cc_background c then
        (w, Panic (PanicError (OpaqueError 0 ''cannot call Context.Defer() on a background context'')))
      else
        (case impl_defer_now en f (cc_inner c) (\<lambda>_. then_nil fn) w of
           (w1, Return _) \<Rightarrow> (w1, Return ())
         | (w1, Panic r) \<Rightarrow> (w1, Panic r)))"

definition max_int64 :: int where
  "max_int64 = 2 ^ 63 - 1"

text \<open>\<open>Stop\<close>, \<open>StopOnIdle\<close> and \<open>StopOnReceive\<close> as the stop they ask of the inner state: its options.\<close>

definition compat_stop :: "cctx \<Rightarrow> int \<Rightarrow> stop_choice list option" where
  "compat_stop c g =
     (if cc_background c then None
      else Some [ChooseGrace (if g = 0 then max_int64 else g)])"

definition compat_stop_on_idle :: "cctx \<Rightarrow> stop_choice list option" where
  "compat_stop_on_idle c = (if cc_background c then None else Some [ChooseIdle])"

definition compat_stop_on_receive :: "cctx \<Rightarrow> int \<Rightarrow> stop_choice list option" where
  "compat_stop_on_receive c g = Some [ChooseGrace g]"

definition compat_wait :: "'mw cworld \<Rightarrow> ext \<Rightarrow> cctx \<Rightarrow> goerr option option" where
  "compat_wait cw ext c =
     (if cc_background c then Some None
      else case cc_inner c of
             Impl d s \<Rightarrow> wait_ctx cw ext True d s gctx.Background
           | _ \<Rightarrow> None)"

definition compat_with :: "cctx \<Rightarrow> gctx \<Rightarrow> cctx" where
  "compat_with c ctx =
     \<lparr>cc_inner = with_delegate (cc_inner c) ctx, cc_invokers = [], cc_background = cc_background c\<rparr>"

definition compat_with_context ::
  "caller \<Rightarrow> gid \<Rightarrow> gctx \<Rightarrow> anyctx \<Rightarrow> 'mw cworld \<Rightarrow> ('mw cworld \<times> cctx \<times> frame list) option" where
  "compat_with_context caller fresh bg ctx cw =
     (let par = cfrom cw bg ctx in
      case with_context caller fresh (std_of ctx) [] cw of
        None \<Rightarrow> None
      | Some (cw', inner, fs) \<Rightarrow>
          Some (cw', \<lparr>cc_inner = inner, cc_invokers = cc_invokers par, cc_background = False\<rparr>, fs))"

definition compat_with_invoker ::
  "caller \<Rightarrow> gid \<Rightarrow> gctx \<Rightarrow> anyctx \<Rightarrow> nat \<Rightarrow> 'mw cworld \<Rightarrow> ('mw cworld \<times> cctx \<times> frame list) option" where
  "compat_with_invoker caller fresh bg ctx iv cw =
     (let par = cfrom cw bg ctx; ivs = cc_invokers par @ [iv] in
      case with_context caller fresh (std_of ctx) [] cw of
        None \<Rightarrow> None
      | Some (cw', inner, fs) \<Rightarrow>
          Some (cw', \<lparr>cc_inner = inner, cc_invokers = ivs, cc_background = False\<rparr>, fs))"

text \<open>
  The methods that only delegate. As a \<open>context.Context\<close> a compat context is its inner context; the
  package function \<open>IsStopping\<close> looks for a stopper first.
\<close>

definition compat_deadline :: "(nat \<Rightarrow> int option) \<Rightarrow> cctx \<Rightarrow> int option" where
  "compat_deadline dl c = ctx_deadline dl (cc_inner c)"

definition compat_done :: "'mw cworld \<Rightarrow> ext \<Rightarrow> cctx \<Rightarrow> bool" where
  "compat_done cw ext c = ctx_done cw ext (cc_inner c)"

definition compat_err :: "'mw cworld \<Rightarrow> ext \<Rightarrow> cctx \<Rightarrow> goerr option" where
  "compat_err cw ext c = ctx_err cw ext (cc_inner c)"

definition compat_value :: "'mw cworld \<Rightarrow> cctx \<Rightarrow> key \<Rightarrow> gval option" where
  "compat_value cw c k = ctx_value cw (cc_inner c) k"

definition compat_is_stopping :: "'mw cworld \<Rightarrow> anyctx \<Rightarrow> bool" where
  "compat_is_stopping cw ctx = is_stopping_ctx cw (std_of ctx)"

definition inner_state :: "cctx \<Rightarrow> sid option" where
  "inner_state c = (case cc_inner c of Impl d s \<Rightarrow> Some s | _ \<Rightarrow> None)"

definition compat_stopped :: "'mw cworld \<Rightarrow> cctx \<Rightarrow> bool" where
  "compat_stopped cw c = (case inner_state c of None \<Rightarrow> False | Some s \<Rightarrow> impl_is_stopping cw s)"

definition compat_len :: "'mw cworld \<Rightarrow> cctx \<Rightarrow> int" where
  "compat_len cw c = (case inner_state c of None \<Rightarrow> 0 | Some s \<Rightarrow> impl_len cw s)"

definition compat_stopping :: "'mw cworld \<Rightarrow> cctx \<Rightarrow> bool" where
  "compat_stopping cw c = (case inner_state c of None \<Rightarrow> False | Some s \<Rightarrow> impl_stopping cw s)"

definition harden :: "cctx \<Rightarrow> gctx" where
  "harden c = stopping_context (cc_inner c)"

definition harden_from :: "'mw cworld \<Rightarrow> gctx \<Rightarrow> gctx" where
  "harden_from cw ctx =
     (case from_ctx cw ctx of None \<Rightarrow> ctx | Some found \<Rightarrow> stopping_context found)"

lemma from_ctx_impl:
  "from_ctx cw (Impl d s) = Some (Impl d s)"
  by (simp add: from_ctx_def impl_value_def)

text \<open>
  \<open>IsStopping(ctx)\<close> and \<open>From(ctx).IsStopping()\<close> agree on a managed context; on an unmanaged one the
  first is false and the second asks the background.
\<close>

lemma compat_stopping_agrees:
  assumes "\<And>found. from_ctx cw g = Some found \<Longrightarrow> \<exists>d s. found = Impl d s"
  shows "compat_is_stopping cw (Std g) \<longleftrightarrow> from_ctx cw g \<noteq> None \<and> compat_stopped cw (cfrom cw bg (Std g))"
  using assms
  by (auto simp: compat_is_stopping_def is_stopping_ctx_def std_of_def cfrom_def compat_stopped_def inner_state_def
      split: option.splits)

text \<open>
  Hardening: \<open>Harden(c)\<close> is done as soon as \<open>c\<close> is stopping, and before that it has \<open>c\<close>'s error and
  deadline; \<open>HardenFrom\<close> of \<open>c\<close>'s own context is the same.
\<close>

lemma harden_spec:
  assumes "cc_inner c = Impl d s"
  shows "ctx_done cw ext (harden c) \<longleftrightarrow> compat_stopping cw c"
    and "\<not> compat_stopped cw c \<Longrightarrow> ctx_err cw ext (harden c) = compat_err cw ext c"
    and "ctx_deadline dl (harden c) = compat_deadline dl c" and "ctx_value cw (harden c) k = compat_value cw c k"
    and "harden_from cw (cc_inner c) = harden c"
  using assms
  by (auto simp: harden_def harden_from_def compat_stopping_def compat_stopped_def compat_err_def compat_deadline_def
      compat_value_def inner_state_def stopping_context_def from_ctx_impl impl_stopping_def impl_is_stopping_def)

text \<open>compat/adapt.go: \<open>Fn\<close> for compat contexts.\<close>

datatype 's cadaptable =
    CFnPlain "('s, unit) comp"
  | CFnErr "('s, goerr option) comp"
  | CFnStd "cctx \<Rightarrow> ('s, unit) comp"
  | CFnStdErr "cctx \<Rightarrow> ('s, goerr option) comp"
  | CFnStopper "cctx \<Rightarrow> ('s, unit) comp"
  | CFnStopperErr "cctx \<Rightarrow> ('s, goerr option) comp"

fun CFn :: "'s cadaptable \<Rightarrow> 's cfunc" where
  "CFn (CFnPlain t) = (\<lambda>_. then_nil t)"
| "CFn (CFnStd t) = (\<lambda>ctx. then_nil (t ctx))"
| "CFn (CFnErr t) = (\<lambda>_. t)"
| "CFn (CFnStdErr t) = (\<lambda>ctx. t ctx)"
| "CFn (CFnStopper t) = (\<lambda>ctx. then_nil (t ctx))"
| "CFn (CFnStopperErr t) = t"

text \<open>compat/linger: the recorder's \<open>Invoke\<close>.\<close>

definition rec_invoke :: "rt_frame list \<Rightarrow> (recorder \<times> 'u) cinvoker" where
  "rec_invoke stack fn w =
     (case rec_store stack (the_rec w) of
        (n, r) \<Rightarrow>
          (upd_rec (\<lambda>_. r) w,
           \<lambda>ctx x. (case fn ctx x of (x1, out) \<Rightarrow> (upd_rec (rec_delete n) x1, out))))"

section \<open>Properties\<close>

text \<open>A pure wrapper as an invoker.\<close>

definition pure_invoker :: "('s tworld \<Rightarrow> 's tworld) \<Rightarrow> ('s cfunc \<Rightarrow> 's cfunc) \<Rightarrow> 's cinvoker" where
  "pure_invoker prep wrapf fn w = (prep w, wrapf fn)"

lemma apply_loop_pure:
  assumes "\<And>i. tbl i = pure_invoker (prep i) (wrapf i)" and "n \<le> length ivs"
  shows "apply_loop tbl ivs n fn w
    = (foldr prep (take n ivs) w, foldr wrapf (take n ivs) fn)"
  using assms(2)
proof (induction n arbitrary: fn w)
  case (Suc n)
  then show ?case by (simp add: assms(1) pure_invoker_def take_Suc_conv_app_nth)
qed simp

text \<open>
  C40: the invokers of a compat context: prep runs from the last one added to the first, and the task is
  wrapped so that the first one added is the outermost; a child made by \<open>WithInvoker\<close> has its parent's
  invokers outside its own.
\<close>

theorem compat_invoker_order:
  assumes "\<And>i. tbl i = pure_invoker (prep i) (wrapf i)"
    and "compat_with_invoker caller fresh bg (Compat c) iv cw = Some (cw', c', fs)"
  shows "cc_invokers c' = cc_invokers c @ [iv] \<and> \<not> cc_background c'
    \<and> apply_invokers tbl c' fn w
        = (foldr prep (cc_invokers c) (prep iv w), foldr wrapf (cc_invokers c) (wrapf iv fn))"
proof -
  have iv: "cc_invokers c' = cc_invokers c @ [iv]" "\<not> cc_background c'"
    using assms(2)
    by (auto simp: compat_with_invoker_def cfrom_def Let_def split: option.splits prod.splits)
  have "apply_invokers tbl c' fn w
      = (foldr prep (cc_invokers c') w, foldr wrapf (cc_invokers c') fn)"
    using apply_loop_pure [where ivs = "cc_invokers c'" and fn = fn and w = w, OF assms(1) order_refl]
    by (simp only: apply_invokers_def take_all [OF order_refl])
  with iv show ?thesis by simp
qed

theorem compat_invoker_order_witness:
  "\<exists>cw' c' fs. compat_with_invoker no_caller 0 Background (Compat (cbackground Background)) 5
      (fst init_conf :: nat cworld) = Some (cw', c', fs) \<and> cc_invokers c' = [5]"
proof -
  have p: "parent_state (fst init_conf :: nat cworld) gctx.Background = None"
    by (simp add: parent_state_def)
  obtain cw' inner fs where n: "new_context no_caller 0 gctx.Background
      (run_config_options [] :: nat config) (fst init_conf) = Some (cw', inner, fs)"
    using new_context_Some [of "fst init_conf" gctx.Background no_caller 0 "run_config_options []"] p
    by (metis option.distinct(1))
  then have c: "compat_with_invoker no_caller 0 Background (Compat (cbackground Background)) 5
      (fst init_conf :: nat cworld)
    = Some (cw', \<lparr>cc_inner = inner, cc_invokers = [5], cc_background = False\<rparr>, fs)"
    by (simp add: compat_with_invoker_def cfrom_def std_of_def cbackground_def with_context_def)
  from compat_invoker_order [where tbl = "\<lambda>i. pure_invoker (\<lambda>w. w) (\<lambda>f. f)" and prep = "\<lambda>_ w. w"
      and wrapf = "\<lambda>_ f. f", OF refl c] c show ?thesis by (auto simp: cbackground_def)
qed

text \<open>
  A zero grace period means "wait indefinitely" for \<open>Stop\<close>, but \<open>StopOnReceive\<close> passes it through to
  v2, where it is an immediate hard stop: on a busy context the first leaves the context uncanceled,
  the second cancels it with \<open>ErrGracePeriodExpired\<close>.
\<close>

theorem compat_zero_grace:
  assumes "wf_state st" and "0 < mu_count st" and "mu_cancel st = Some cf" and "\<not> cc_background c"
  shows "(\<exists>g t cbs. compat_stop c 0 = Some [ChooseGrace g] \<and> stop_locked now g st = Inr (t, cbs)
        \<and> mu_cancel t = Some cf \<and> mu_stopping t)
    \<and> (\<exists>g t cbs. compat_stop_on_receive c 0 = Some [ChooseGrace g] \<and> stop_locked now g st = Inr (t, cbs)
        \<and> mu_cancel t = None \<and> CbCancel cf ErrGracePeriodExpired \<in> set cbs)"
proof
  note core = wf_state_core [OF assms(1)]
  have "compat_stop c 0 = Some [ChooseGrace max_int64]" using assms(4) by (simp add: compat_stop_def)
  moreover from core have "\<exists>t cbs. stop_locked now max_int64 st = Inr (t, cbs) \<and> mu_cancel t = Some cf \<and> mu_stopping t"
  proof (cases rule: soft_stop_cases [of _ now max_int64])
    case (hard e t d)
    with assms(2) show ?thesis by (simp add: max_int64_def)
  next
    case timer
    with assms(3) show ?thesis by (simp add: stop_locked_def)
  qed
  ultimately show "\<exists>g t cbs. compat_stop c 0 = Some [ChooseGrace g] \<and> stop_locked now g st = Inr (t, cbs)
        \<and> mu_cancel t = Some cf \<and> mu_stopping t" by blast
  from core have "\<exists>t cbs. stop_locked now 0 st = Inr (t, cbs) \<and> mu_cancel t = None
      \<and> CbCancel cf ErrGracePeriodExpired \<in> set cbs"
  proof (cases rule: soft_stop_cases [of _ now 0])
    case (hard e t d)
    with hard_stop_fields(4,11) [OF hard(2)] assms(2,3) show ?thesis by (simp add: stop_locked_def)
  qed simp
  then show "\<exists>g t cbs. compat_stop_on_receive c 0 = Some [ChooseGrace g] \<and> stop_locked now g st = Inr (t, cbs)
        \<and> mu_cancel t = None \<and> CbCancel cf ErrGracePeriodExpired \<in> set cbs"
    by (auto simp: compat_stop_on_receive_def)
qed

theorem compat_zero_grace_witness:
  "\<exists>g t cbs. compat_stop_on_receive \<lparr>cc_inner = Impl Background 0, cc_invokers = [], cc_background = False\<rparr> 0
      = Some [ChooseGrace g] \<and> stop_locked 0 g (sample_state\<lparr>mu_count := 1\<rparr>) = Inr (t, cbs)
    \<and> mu_cancel t = None"
proof -
  have "wf_state (sample_state\<lparr>mu_count := 1\<rparr>)"
    by (simp add: sample_state_def new_state_def wf_state_def wf_core_def wf_timers_def)
  from compat_zero_grace [OF this, of "Cleanup 0"
      "\<lparr>cc_inner = Impl Background 0, cc_invokers = [], cc_background = False\<rparr>" 0]
  show ?thesis by (auto simp: sample_state_def)
qed

text \<open>
  The background context is guarded by a flag that does not survive: \<open>Stop\<close>, \<open>StopOnIdle\<close>, \<open>Defer\<close>
  and \<open>Wait\<close> on the singleton are no-ops (or the documented panic), but the context that its tasks
  receive, or that \<open>From\<close> finds in a value derived from it, stops the "never stopped" background.
\<close>

theorem compat_background_guard:
  assumes "bg = Impl d s"
  shows "compat_stop (cbackground bg) g = None \<and> compat_stop_on_idle (cbackground bg) = None
    \<and> compat_wait cw ext (cbackground bg) = Some None
    \<and> (\<exists>e. compat_defer en f (cbackground bg) fn w = (w, Panic e))
    \<and> (let c = cfrom cw bg (Std (WithValue bg (KeyUser n) v)) in
        cc_inner c = bg \<and> compat_stop c 5 = Some [ChooseGrace 5])
    \<and> (\<exists>c. cwrap task bg = task c \<and> cc_inner c = bg \<and> compat_stop c 5 = Some [ChooseGrace 5])"
  using assms
  by (auto intro!: exI [of _ "\<lparr>cc_inner = Impl d s, cc_invokers = [], cc_background = False\<rparr>"]
      simp: cbackground_def compat_stop_def compat_stop_on_idle_def compat_wait_def compat_defer_def
      cfrom_def from_ctx_def impl_value_def cwrap_def Let_def)

theorem compat_background_guard_witness:
  "compat_stop (cbackground (Impl Background 0)) 0 = None"
  using compat_background_guard [OF refl, of Background 0 0 "fst init_conf :: nat cworld" "\<lambda>_. None" plain_env
      0 "\<lambda>w. (w, Return ())" empty_tworld 0 "VUser 0" "\<lambda>c w. (w, Return None)"] by blast

text \<open>
  The v1 invokers are set up before the inner context is asked: a call that is refused because the
  context is stopping leaves its entry in the recorder for ever, and \<open>CheckClean\<close> reports a lingering
  task that never ran.
\<close>

theorem compat_refused_call_lingers:
  assumes "is_stopping (tw_st w)" and "rec_ok (the_rec w)" and "rc_data (the_rec w) = []"
    and "cc_invokers c = [0]" and "tbl 0 = rec_invoke stack"
  shows "\<exists>w1. compat_call tbl en cfg c fn w = (w1, Return (Some ErrStopped))
    \<and> rc_data (the_rec w1) \<noteq> [] \<and> check_clean (the_rec w1) \<noteq> []"
proof -
  obtain w1 task where a: "apply_invokers tbl c fn w = (w1, task)" by fastforce
  then have w1: "the_rec w1 = snd (rec_store stack (the_rec w))" "tw_st w1 = tw_st w"
    using assms(4,5) by (auto simp: apply_invokers_def rec_invoke_def rec_store_def Let_def upd_rec_def the_rec_def)
  have "impl_call en cfg (cc_inner c) (cwrap task) [] w1 = (w1, Return (Some ErrStopped))"
    using assms(1) w1(2) by (simp add: impl_call_def root_apply_def)
  with a w1(1) show ?thesis
    by (auto simp: compat_call_def rec_store_def Let_def check_clean_def rec_callers_def)
qed

theorem compat_refused_call_lingers_witness:
  "\<exists>w1. compat_call (\<lambda>_. rec_invoke []) \<lparr>en_caller = no_caller, en_pcs = [], en_handlers = (\<lambda>n ctx e w. (w, Return ()))\<rparr>
        zero_config
        \<lparr>cc_inner = Impl Background 0, cc_invokers = [0], cc_background = False\<rparr>
        (\<lambda>ctx w. (w, Return None))
        (rec_world\<lparr>tw_st := (tw_st rec_world)\<lparr>mu_stopping := True, stopping_closed := True\<rparr>\<rparr>)
      = (w1, Return (Some ErrStopped)) \<and> check_clean (the_rec w1) \<noteq> []"
proof -
  let ?w = "rec_world\<lparr>tw_st := (tw_st rec_world)\<lparr>mu_stopping := True, stopping_closed := True\<rparr>\<rparr>"
  let ?c = "\<lparr>cc_inner = Impl Background 0, cc_invokers = [0], cc_background = False\<rparr>"
  have "is_stopping (tw_st ?w)" by (simp add: is_stopping_def)
  moreover have "rec_ok (the_rec ?w)" "rc_data (the_rec ?w) = []"
    by (simp_all add: rec_ok_def the_rec_def rec_world_def new_recorder_def)
  moreover have "cc_invokers ?c = [0]" by simp
  ultimately show ?thesis
    using compat_refused_call_lingers [of ?w ?c "\<lambda>_. rec_invoke []" "[]"] by metis
qed

end
