(* ===== verification/Seq_Pool.thy ===== *)
theory Seq_Pool
  imports Stopper
begin

text \<open>
  seq/map.go and seq/each.go: what their worker pools share. A pool is the goroutine that runs the
  iterator (the consumer), the workers it starts with \<open>s.Go\<close> on a nested stopper \<open>s\<close>, and the state of
  \<open>s\<close> itself, whose critical sections are those of State.thy. A run is a sequence of labelled actions,
  each of them one critical section, one channel operation or one call of user code; \<open>None\<close> is an action
  that is not enabled. Whoever else has a handle on \<open>s\<close> or on the context it was made from (the
  callback, the parent stopper, the grace timer, other tasks) acts through the \<open>Env\<close> actions.

  The input sequence is a function from a position to the item there; it ends at the first \<open>None\<close>.
  The user's callback is the relation \<open>sq_fn\<close> between index, item and possible outcome. The tasks of
  the pool have no task middleware.
\<close>

record ('a, 'o) sq_prog =
  sq_src :: "nat \<Rightarrow> 'a option"
  sq_workers :: nat
  sq_fn :: "nat \<Rightarrow> 'a \<Rightarrow> 'o outcome \<Rightarrow> bool"
  sq_pcs :: "rt_frame list"
  sq_name :: string
  sq_handler :: err_handler
  sq_grace :: int

text \<open>Where a worker is: \<open>WSelect\<close> holds \<open>nextMu\<close>; \<open>WStop\<close> is inside \<open>ErrorHandlerStop\<close>.\<close>

datatype ('a, 'r) phase =
    WTop
  | WLock
  | WSelect nat 'a
  | WCall nat 'a
  | WSend nat "'r \<times> goerr option"
  | WRet "goerr option"
  | WStop
  | WRelease
  | WGone

datatype consumer =
    CDefer
  | CStart nat
  | CIdle
  | CRange
  | CSlot nat
  | CFinal
  | CBreak
  | CStopping
  | CLock
  | CDone

text \<open>
  \<open>pl_done\<close> is the error and the cause of the context of \<open>s\<close> once it is canceled, \<open>pl_parent\<close> that of the
  context it was made from; \<open>pl_cbs\<close> are the callbacks that critical sections handed out and that run
  one after the other, \<open>pl_cancels\<close> the calls of the cancel function so far. Every element of \<open>pl_out\<close>
  carries the index of the item it is the result of, which the iterator does not show.
\<close>

record ('a, 'r, 'm) pool =
  pl_st :: "unit gostate"
  pl_parent :: "(goerr \<times> goerr) option"
  pl_done :: "(goerr \<times> goerr) option"
  pl_cbs :: "callback list list"
  pl_cancels :: "goerr list"
  pl_now :: int
  pl_fired :: nat
  pl_others :: nat
  pl_idx :: nat
  pl_pos :: nat
  pl_mu :: "nat option"
  pl_early :: bool
  pl_closed :: bool
  pl_chan :: "'m list"
  pl_slots :: "nat \<Rightarrow> ('r \<times> goerr option) option"
  pl_started :: nat
  pl_worker :: "nat \<Rightarrow> ('a, 'r) phase"
  pl_calls :: "nat list"
  pl_cons :: consumer
  pl_out :: "(nat \<times> 'r \<times> goerr option) list"
  pl_final :: "goerr option"

datatype 'o action =
    Consume bool
  | Worker nat
  | SelSend nat
  | SelBreak nat
  | SelDone nat
  | CallEnds nat "'o outcome"
  | Callback nat
  | EnvStop int
  | EnvTick int
  | EnvFire nat
  | EnvTimer
  | EnvErrors "goerr option list"
  | EnvDefer fid
  | EnvTask bool
  | EnvParent goerr goerr
  | EnvCancel

definition close_fid :: fid where
  "close_fid = 0"

definition new_pool :: "sid option \<Rightarrow> consumer \<Rightarrow> ('a, 'r, 'm) pool" where
  "new_pool par c =
     \<lparr>pl_st = new_state (Cleanup 0) () par, pl_parent = None, pl_done = None, pl_cbs = [],
      pl_cancels = [], pl_now = 0, pl_fired = 0, pl_others = 0, pl_idx = 0, pl_pos = 0, pl_mu = None,
      pl_early = False, pl_closed = False, pl_chan = [], pl_slots = (\<lambda>_. None), pl_started = 0,
      pl_worker = (\<lambda>_. WGone), pl_calls = [], pl_cons = c, pl_out = [], pl_final = None\<rparr>"

section \<open>Critical sections of the stopper\<close>

definition with_cbs :: "callback list \<Rightarrow> ('a, 'r, 'm) pool \<Rightarrow> ('a, 'r, 'm) pool" where
  "with_cbs cbs p = (if cbs = [] then p else p\<lparr>pl_cbs := pl_cbs p @ [rev cbs]\<rparr>)"

definition locked ::
  "crash + (unit gostate \<times> callback list) \<Rightarrow> ('a, 'r, 'm) pool \<Rightarrow> ('a, 'r, 'm) pool option" where
  "locked r p = (case r of Inl _ \<Rightarrow> None | Inr (st, cbs) \<Rightarrow> Some (with_cbs cbs (p\<lparr>pl_st := st\<rparr>)))"

definition pool_stop :: "int \<Rightarrow> ('a, 'r, 'm) pool \<Rightarrow> ('a, 'r, 'm) pool option" where
  "pool_stop g p = locked (stop_locked (pl_now p) g (pl_st p)) p"

definition pool_stop_idle :: "int \<Rightarrow> ('a, 'r, 'm) pool \<Rightarrow> ('a, 'r, 'm) pool option" where
  "pool_stop_idle g p = locked (stop_on_idle_locked (pl_now p) g (pl_st p)) p"

definition pool_apply :: "int \<Rightarrow> ('a, 'r, 'm) pool \<Rightarrow> (('a, 'r, 'm) pool \<times> bool) option" where
  "pool_apply d p =
     (case apply_locked (pl_now p) d (pl_st p) of
        Inl _ \<Rightarrow> None
      | Inr (st, cbs, r) \<Rightarrow> Some (with_cbs cbs (p\<lparr>pl_st := st\<rparr>), r))"

definition pool_errors :: "goerr option list \<Rightarrow> ('a, 'r, 'm) pool \<Rightarrow> ('a, 'r, 'm) pool" where
  "pool_errors es p = p\<lparr>pl_st := add_errors es (pl_st p)\<rparr>"

text \<open>The deferred function; \<open>callDeferred\<close> records the panic of a second \<open>close\<close>.\<close>

definition close_results :: "('a, 'o) sq_prog \<Rightarrow> ('a, 'r, 'm) pool \<Rightarrow> ('a, 'r, 'm) pool" where
  "close_results pg p =
     (if pl_closed p then
        pool_errors [Some (recover_e (sq_pcs pg) None (PanicOther ''close of closed channel''))] p
      else p\<lparr>pl_closed := True\<rparr>)"

fun run_cb :: "('a, 'o) sq_prog \<Rightarrow> callback \<Rightarrow> ('a, 'r, 'm) pool \<Rightarrow> ('a, 'r, 'm) pool" where
  "run_cb pg (CbUser f) p = (if f = close_fid then close_results pg p else p)"
| "run_cb pg (CbCancel c e) p =
     p\<lparr>pl_cancels := pl_cancels p @ [e],
       pl_done := (case pl_done p of None \<Rightarrow> Some (CtxCanceled, e) | Some x \<Rightarrow> Some x)\<rparr>"
| "run_cb pg _ p = p"

section \<open>The environment\<close>

text \<open>
  Calls of \<open>Stop\<close>; time, the firing of a timer and its goroutine; errors added; further deferred
  functions; other tasks that start and end; the cancellation of the context \<open>s\<close> was made from, which
  reaches the context of \<open>s\<close> a moment later.
\<close>

fun env_step :: "('a, 'o) sq_prog \<Rightarrow> 'o action \<Rightarrow> ('a, 'r, 'm) pool \<Rightarrow> ('a, 'r, 'm) pool option" where
  "env_step pg (Callback i) p =
     (if i < length (pl_cbs p) then
        (case pl_cbs p ! i of
           [] \<Rightarrow> None
         | cb # cbs \<Rightarrow> Some (run_cb pg cb (p\<lparr>pl_cbs := (pl_cbs p)[i := cbs]\<rparr>)))
      else None)"
| "env_step pg (EnvStop g) p = pool_stop g p"
| "env_step pg (EnvTick t) p = (if pl_now p \<le> t then Some (p\<lparr>pl_now := t\<rparr>) else None)"
| "env_step pg (EnvFire i) p =
     (if i < length (rt_timers (pl_st p)) \<and> tm_active (rt_timers (pl_st p) ! i)
         \<and> tm_deadline (rt_timers (pl_st p) ! i) \<le> pl_now p
      then Some (p\<lparr>pl_st := fire_timer i (pl_st p), pl_fired := Suc (pl_fired p)\<rparr>) else None)"
| "env_step pg EnvTimer p =
     (if 0 < pl_fired p then locked (Inr (grace_timer_locked (pl_st p))) (p\<lparr>pl_fired := pl_fired p - 1\<rparr>)
      else None)"
| "env_step pg (EnvErrors es) p = Some (pool_errors es p)"
| "env_step pg (EnvDefer f) p =
     (if f = close_fid then None else Some (p\<lparr>pl_st := snd (add_deferred f (pl_st p))\<rparr>))"
| "env_step pg (EnvTask b) p =
     (if b then
        (case pool_apply 1 p of
           None \<Rightarrow> None
         | Some (p1, r) \<Rightarrow> Some (if r then p1\<lparr>pl_others := Suc (pl_others p1)\<rparr> else p1))
      else if 0 < pl_others p then map_option fst (pool_apply (- 1) (p\<lparr>pl_others := pl_others p - 1\<rparr>))
      else None)"
| "env_step pg (EnvParent e c) p = (if pl_parent p = None then Some (p\<lparr>pl_parent := Some (e, c)\<rparr>) else None)"
| "env_step pg EnvCancel p =
     (if pl_parent p \<noteq> None \<and> pl_done p = None then Some (p\<lparr>pl_done := pl_parent p\<rparr>) else None)"
| "env_step pg _ p = None"

section \<open>Workers\<close>

definition set_worker :: "nat \<Rightarrow> ('a, 'r) phase \<Rightarrow> ('a, 'r, 'm) pool \<Rightarrow> ('a, 'r, 'm) pool" where
  "set_worker i x p = p\<lparr>pl_worker := (pl_worker p)(i := x)\<rparr>"

text \<open>\<open>s.AddError(s.Go(\<dots>))\<close>: \<open>parent\<close> is the answer of the parent's \<open>Apply\<close>; a nil error adds nothing.\<close>

definition start_worker :: "bool \<Rightarrow> ('a, 'r, 'm) pool \<Rightarrow> ('a, 'r, 'm) pool option" where
  "start_worker parent p =
     (if is_stopping (pl_st p) \<or> \<not> parent then Some (pool_errors [Some ErrStopped] p)
      else case pool_apply 1 p of
             None \<Rightarrow> None
           | Some (p1, True) \<Rightarrow>
               Some (p1\<lparr>pl_worker := (pl_worker p1)(pl_started p1 := WTop), pl_started := Suc (pl_started p1)\<rparr>)
           | Some (p1, False) \<Rightarrow> Some (pool_errors [Some ErrStopped] p1))"

text \<open>The head of the loop, \<open>if err := ctx.Err(); err != nil\<close>.\<close>

definition check_top :: "('a, 'r, 'm) pool \<Rightarrow> ('a, 'r) phase" where
  "check_top p = (case pl_done p of Some (e, _) \<Rightarrow> WRet (Some e) | None \<Rightarrow> WLock)"

text \<open>
  The statements under \<open>nextMu\<close>: the count and the next item. Once the iterator has returned, and with it
  has called \<open>stop\<close>, the code's \<open>next\<close> has no more items; here it still may, so the model has more runs.
\<close>

definition take_next ::
  "('a, 'o) sq_prog \<Rightarrow> ('a, 'r, 'm) pool \<Rightarrow> ('a, 'r, 'm) pool \<times> nat \<times> 'a option" where
  "take_next pg p =
     (let p1 = p\<lparr>pl_idx := Suc (pl_idx p)\<rparr> in
      case sq_src pg (pl_pos p) of
        None \<Rightarrow> (p1, pl_idx p, None)
      | Some x \<Rightarrow> (p1\<lparr>pl_pos := Suc (pl_pos p)\<rparr>, pl_idx p, Some x))"

text \<open>The end of a worker's task: the error handler of its task, then \<open>Apply(-1)\<close>.\<close>

definition finish_step ::
  "('a, 'o) sq_prog \<Rightarrow> nat \<Rightarrow> ('a, 'r, 'm) pool \<Rightarrow> ('a, 'r, 'm) pool option" where
  "finish_step pg i p =
     (case pl_worker p i of
        WRet None \<Rightarrow> Some (set_worker i WRelease p)
      | WRet (Some e) \<Rightarrow>
          (case sq_handler pg of
             ErrorHandlerStop \<Rightarrow> Some (set_worker i WStop (pool_errors [decorate (sq_name pg) (Some e)] p))
           | ErrorHandlerRecord \<Rightarrow> Some (set_worker i WRelease (pool_errors [decorate (sq_name pg) (Some e)] p))
           | ErrorHandlerUser n \<Rightarrow> Some (set_worker i WRelease p))
      | WStop \<Rightarrow> pool_stop (sq_grace pg) (set_worker i WRelease p)
      | WRelease \<Rightarrow> map_option fst (pool_apply (- 1) (set_worker i WGone p))
      | _ \<Rightarrow> None)"

section \<open>The consumer's common part\<close>

text \<open>The value of \<open>s.Wait()\<close> once the context is canceled with cause \<open>c\<close>.\<close>

definition pool_wait :: "goerr \<Rightarrow> ('a, 'r, 'm) pool \<Rightarrow> goerr option" where
  "pool_wait c p =
     (let err = errors_join (map Some (errors_of (pl_st p))) in
      if errors_is c ErrGracePeriodExpired then errors_join [err, Some ErrGracePeriodExpired] else err)"

text \<open>
  \<open>s.Defer\<close>, the loop that starts the workers, \<open>s.Stop(StopOnIdle())\<close>; at the end \<open>close(earlyBreak)\<close>, the
  deferred \<open>s.Stop()\<close> and the deferred function that locks \<open>nextMu\<close> to call \<open>stop\<close>. The answer \<open>b\<close> is that
  of the parent's \<open>Apply\<close>.
\<close>

definition setup_step ::
  "('a, 'o) sq_prog \<Rightarrow> bool \<Rightarrow> ('a, 'r, 'm) pool \<Rightarrow> ('a, 'r, 'm) pool option" where
  "setup_step pg b p =
     (case pl_cons p of
        CDefer \<Rightarrow>
          (case add_deferred close_fid (pl_st p) of
             (True, st) \<Rightarrow> Some (p\<lparr>pl_st := st, pl_cons := CStart (sq_workers pg)\<rparr>)
           | (False, st) \<Rightarrow> Some (close_results pg (p\<lparr>pl_st := st, pl_cons := CStart (sq_workers pg)\<rparr>)))
      | CStart 0 \<Rightarrow> Some (p\<lparr>pl_cons := CIdle\<rparr>)
      | CStart (Suc k) \<Rightarrow> start_worker b (p\<lparr>pl_cons := CStart k\<rparr>)
      | CIdle \<Rightarrow> pool_stop_idle (sq_grace pg) (p\<lparr>pl_cons := CRange\<rparr>)
      | CBreak \<Rightarrow> Some (p\<lparr>pl_early := True, pl_cons := CStopping\<rparr>)
      | CStopping \<Rightarrow> pool_stop (sq_grace pg) (p\<lparr>pl_cons := CLock\<rparr>)
      | CLock \<Rightarrow> if pl_mu p = None then Some (p\<lparr>pl_cons := CDone\<rparr>) else None
      | _ \<Rightarrow> None)"

text \<open>The tail of both \<open>yield\<close> functions: the extra element for a non-nil error of \<open>Wait\<close>.\<close>

definition final_step :: "('a, 'r, 'm) pool \<Rightarrow> ('a, 'r, 'm) pool option" where
  "final_step p =
     (case pl_done p of
        None \<Rightarrow> None
      | Some (_, c) \<Rightarrow> Some (p\<lparr>pl_final := pool_wait c p, pl_cons := CStopping\<rparr>))"

end
