(* ===== verification/Seq_Inv.thy ===== *)
theory Seq_Inv
  imports Seq_Pool Machine_Claims
begin

text \<open>
  What holds of the stopper of a worker pool in every run: its count is the number of workers that
  have not released it and of the other tasks, its results are closed and its context is canceled
  only by a hard stop, and the only hard stop with a worker still running is an expired grace period.
\<close>

section \<open>Callbacks\<close>

definition pending :: "('a, 'r, 'm) pool \<Rightarrow> callback set" where
  "pending p = (\<Union>cbs\<in>set (pl_cbs p). set cbs)"

text \<open>The cancel function has been called with \<open>e\<close>, or is about to be.\<close>

definition handed :: "('a, 'r, 'm) pool \<Rightarrow> goerr \<Rightarrow> bool" where
  "handed p e \<longleftrightarrow> e \<in> set (pl_cancels p) \<or> (\<exists>c. CbCancel c e \<in> pending p)"

definition closing :: "('a, 'r, 'm) pool \<Rightarrow> bool" where
  "closing p \<longleftrightarrow> pl_closed p \<or> CbUser close_fid \<in> pending p"

lemma pending_with_cbs: "pending (with_cbs cbs p) = pending p \<union> set cbs"
  by (auto simp: pending_def with_cbs_def)

lemma pending_cong: "pl_cbs q = pl_cbs p \<Longrightarrow> pending q = pending p"
  by (simp add: pending_def)

lemma pending_pop:
  assumes "i < length (pl_cbs p)" and "pl_cbs p ! i = cb # cbs" and "pl_cbs q = (pl_cbs p)[i := cbs]"
  shows "pending p = insert cb (pending q)"
proof -
  let ?a = "take i (pl_cbs p)" and ?b = "drop (Suc i) (pl_cbs p)"
  have "pl_cbs p = ?a @ (cb # cbs) # ?b" using assms(1,2) by (metis id_take_nth_drop)
  moreover have "pl_cbs q = ?a @ cbs # ?b" using assms(1,3) by (simp add: upd_conv_take_nth_drop)
  ultimately have "set (pl_cbs p) = set ?a \<union> {cb # cbs} \<union> set ?b" "set (pl_cbs q) = set ?a \<union> {cbs} \<union> set ?b"
    by (metis Un_insert_right list.set(2) set_append sup_bot_right Un_insert_left insert_is_Un)+
  then show ?thesis by (auto simp: pending_def)
qed

lemma with_cbs_fields [simp]:
  "pl_st (with_cbs cbs p) = pl_st p" "pl_parent (with_cbs cbs p) = pl_parent p"
  "pl_done (with_cbs cbs p) = pl_done p" "pl_cancels (with_cbs cbs p) = pl_cancels p"
  "pl_now (with_cbs cbs p) = pl_now p" "pl_fired (with_cbs cbs p) = pl_fired p"
  "pl_others (with_cbs cbs p) = pl_others p" "pl_idx (with_cbs cbs p) = pl_idx p"
  "pl_pos (with_cbs cbs p) = pl_pos p" "pl_mu (with_cbs cbs p) = pl_mu p"
  "pl_early (with_cbs cbs p) = pl_early p" "pl_closed (with_cbs cbs p) = pl_closed p"
  "pl_chan (with_cbs cbs p) = pl_chan p" "pl_slots (with_cbs cbs p) = pl_slots p"
  "pl_started (with_cbs cbs p) = pl_started p" "pl_worker (with_cbs cbs p) = pl_worker p"
  "pl_calls (with_cbs cbs p) = pl_calls p" "pl_cons (with_cbs cbs p) = pl_cons p"
  "pl_out (with_cbs cbs p) = pl_out p" "pl_final (with_cbs cbs p) = pl_final p"
  by (simp_all add: with_cbs_def)

lemma with_cbs_cbs: "pl_cbs (with_cbs cbs p) = (if cbs = [] then pl_cbs p else pl_cbs p @ [rev cbs])"
  by (simp add: with_cbs_def)

text \<open>A deferred function is handed out only once the state has hard-stopped.\<close>

lemma hard_stop_user: "hard_stop_locked e s = (t, cbs) \<Longrightarrow> mu_cancel t = None"
  by (rule hard_stop_fields(4))

lemma soft_hooks_no_user: "CbUser f \<notin> set (soft_hooks s)"
  by (auto simp: soft_hooks_def split: option.splits list.splits)

lemma soft_stop_user:
  assumes "wf_core s" and "soft_stop_locked now g s = Inr (t, cbs)" and "CbUser f \<in> set cbs"
  shows "mu_cancel t = None"
  using assms(1)
proof (cases rule: soft_stop_cases [of _ now g])
  case (hard e u d)
  with hard_stop_user [OF hard(2)] assms(2) show ?thesis by simp
next
  case timer with assms(2,3) soft_hooks_no_user [of f s] show ?thesis by auto
qed

lemma crit_step_user:
  assumes "crit_step s fs t cbs" and "wf_state s" and "CbUser f \<in> set cbs"
  shows "mu_cancel t = None"
  using assms
proof (induction rule: crit_step.induct)
  case (defer_now h s t)
  then show ?case by (auto simp: add_deferred_def wf_state_def split: if_splits)
next
  case (applied now d s t cbs r)
  from wf_state_core [OF applied(2)] show ?case
  proof (cases rule: apply_locked_cases [of _ d now])
    case (idle g u c)
    with soft_stop_user [OF wf_core_count [OF wf_state_core [OF applied(2)] order_refl] idle(4)]
      applied(1,3) show ?thesis by simp
  next
    case (last u c)
    with hard_stop_user [OF last(5)] applied(1) show ?thesis by simp
  qed (use applied in \<open>auto split: option.splits\<close>)
next
  case (stop now g s t cbs)
  then show ?case unfolding stop_locked_def by (blast dest: soft_stop_user wf_state_core)
next
  case (stop_on_idle now g s t cbs)
  show ?case
  proof (cases "mu_count s = 0")
    case True
    with stop_on_idle have "soft_stop_locked now g (s\<lparr>mu_stopOnIdle := Some g\<rparr>) = Inr (t, cbs)"
      by (simp add: stop_on_idle_locked_def)
    from soft_stop_user [OF wf_core_idle [OF wf_state_core [OF stop_on_idle(2)]] this stop_on_idle(3)]
    show ?thesis .
  next
    case False
    with stop_on_idle show ?thesis by (auto simp: stop_on_idle_locked_def)
  qed
next
  case (grace s t cbs)
  then show ?case unfolding grace_timer_locked_def by (blast dest: hard_stop_user)
qed auto

section \<open>The invariant of the stopper\<close>

definition n_active :: "('a, 'r, 'm) pool \<Rightarrow> int" where
  "n_active p = (\<Sum>i<pl_started p. if pl_worker p i = WGone then 0 else 1)"

definition stop_inv :: "('a, 'r, 'm) pool \<Rightarrow> bool" where
  "stop_inv p \<longleftrightarrow> wf_state (pl_st p)
     \<and> mu_count (pl_st p) = n_active p + int (pl_others p)
     \<and> (mu_cancel (pl_st p) = None \<longrightarrow>
          handed p ErrGracePeriodExpired \<or> mu_stopping (pl_st p) \<and> mu_count (pl_st p) = 0)
     \<and> (closing p \<or> (\<exists>e. handed p e) \<longrightarrow> mu_cancel (pl_st p) = None)
     \<and> (\<forall>e c. pl_done p = Some (e, c) \<longrightarrow> pl_parent p \<noteq> None \<or> handed p c)
     \<and> (\<forall>i\<ge>pl_started p. pl_worker p i = WGone)
     \<and> (0 < pl_fired p \<longrightarrow> mu_stopping (pl_st p))"

lemma n_active_cong:
  "pl_started q = pl_started p \<Longrightarrow> pl_worker q = pl_worker p \<Longrightarrow> n_active q = n_active p"
  by (simp add: n_active_def)

lemma n_active_nonneg: "0 \<le> n_active p"
  by (simp add: n_active_def sum_nonneg)

lemma sum_update_int:
  fixes g :: "'b \<Rightarrow> int" and n :: nat
  shows "i < n \<Longrightarrow> (\<Sum>j<n. g ((f(i := x)) j)) = (\<Sum>j<n. g (f j)) - g (f i) + g x"
proof -
  assume i: "i < n"
  have "(\<Sum>j<n. g ((f(i := x)) j)) = g x + (\<Sum>j\<in>{..<n} - {i}. g ((f(i := x)) j))"
    using i sum.remove [of "{..<n}" i "\<lambda>j. g ((f(i := x)) j)"] by simp
  also have "(\<Sum>j\<in>{..<n} - {i}. g ((f(i := x)) j)) = (\<Sum>j\<in>{..<n} - {i}. g (f j))"
    by (intro sum.cong) auto
  finally have "(\<Sum>j<n. g ((f(i := x)) j)) = g x + (\<Sum>j\<in>{..<n} - {i}. g (f j))" .
  moreover have "(\<Sum>j<n. g (f j)) = g (f i) + (\<Sum>j\<in>{..<n} - {i}. g (f j))"
    using i sum.remove [of "{..<n}" i "\<lambda>j. g (f j)"] by simp
  ultimately show ?thesis by simp
qed

lemma n_active_set:
  assumes "i < pl_started p"
  shows "n_active (set_worker i x p)
    = n_active p - (if pl_worker p i = WGone then 0 else 1) + (if x = WGone then 0 else 1)"
  using sum_update_int [OF assms, of "\<lambda>w. if w = WGone then 0 else 1" "pl_worker p" x]
  by (simp add: n_active_def set_worker_def)

lemma n_active_pos:
  assumes "pl_worker p i \<noteq> WGone" and "\<forall>i\<ge>pl_started p. pl_worker p i = WGone"
  shows "0 < n_active p"
proof -
  have i: "i < pl_started p" using assms by (meson not_le)
  have "1 = (if pl_worker p i = WGone then 0 else 1 :: int)" using assms(1) by simp
  also have "\<dots> \<le> n_active p"
    unfolding n_active_def using i by (intro member_le_sum) auto
  finally show ?thesis by simp
qed

text \<open>A critical section keeps the invariant, whatever the pool does beside it.\<close>

lemma stop_inv_section:
  assumes "stop_inv p" and c: "crit_step (pl_st p) fs st cbs"
    and q: "pl_st q = st" "pl_cbs q = pl_cbs (with_cbs cbs p)" "pl_cancels q = pl_cancels p"
      "pl_done q = pl_done p" "pl_parent q = pl_parent p" "pl_closed q = pl_closed p"
    and count: "mu_count st = n_active q + int (pl_others q)"
    and gone: "\<forall>i\<ge>pl_started q. pl_worker q i = WGone"
    and fired: "0 < pl_fired q \<Longrightarrow> mu_stopping st"
  shows "stop_inv q"
proof -
  let ?s = "pl_st p"
  have wf: "wf_state ?s" using assms(1) by (simp add: stop_inv_def)
  note core = wf_state_core [OF wf]
  have wft: "wf_state st" by (rule crit_step_wf [OF c wf])
  have pend: "pending q = pending p \<union> set cbs"
    using q(2) pending_with_cbs [of cbs p] by (simp add: pending_def)
  have hand: "handed q e \<longleftrightarrow> handed p e \<or> (\<exists>c. CbCancel c e \<in> set cbs)" for e
    using q(3) pend by (auto simp: handed_def)
  have cl: "closing q \<longleftrightarrow> closing p \<or> CbUser close_fid \<in> set cbs"
    using q(6) pend by (auto simp: closing_def)
  note grows = crit_step_grows [OF c core, unfolded stop_grows_def]
  have cancels: "mu_cancel st = None" if "CbCancel x e \<in> set cbs" for x e
  proof -
    have "1 \<le> cancels_in cbs" using that by (induction cbs rule: cancels_in.induct) auto
    with crit_step_moves [OF c core] show ?thesis by (auto simp: moves_def split: if_splits)
  qed
  have n: "mu_cancel st = None \<longrightarrow> handed q ErrGracePeriodExpired \<or> mu_stopping st \<and> mu_count st = 0"
  proof
    assume none: "mu_cancel st = None"
    show "handed q ErrGracePeriodExpired \<or> mu_stopping st \<and> mu_count st = 0"
    proof (cases "mu_cancel ?s")
      case None
      have "0 \<le> mu_count st" using wft by (simp add: wf_state_def wf_core_def)
      with None assms(1) hand grows show ?thesis by (auto simp: stop_inv_def)
    next
      case (Some a)
      with none crit_step_moves [OF c core] have "cancels_in cbs = 1" by (simp add: moves_def)
      then obtain x e where "CbCancel x e \<in> set cbs"
        by (induction cbs rule: cancels_in.induct) auto
      with crit_step_cancels [OF c core this] hand show ?thesis by (auto simp: cancel_reason_def)
    qed
  qed
  have m: "closing q \<or> (\<exists>e. handed q e) \<longrightarrow> mu_cancel st = None"
  proof
    assume "closing q \<or> (\<exists>e. handed q e)"
    then consider "closing p \<or> (\<exists>e. handed p e)" | "CbUser close_fid \<in> set cbs"
      | x e where "CbCancel x e \<in> set cbs" using hand cl by blast
    then show "mu_cancel st = None"
    proof cases
      case 1
      then show ?thesis using assms(1) grows by (auto simp: stop_inv_def)
    qed (use crit_step_user [OF c wf] cancels in blast)+
  qed
  have d: "\<forall>e c. pl_done q = Some (e, c) \<longrightarrow> pl_parent q \<noteq> None \<or> handed q c"
    using assms(1) q(4,5) hand by (auto simp: stop_inv_def)
  from wft count n m d gone fired q(1) show ?thesis by (simp add: stop_inv_def)
qed

text \<open>Actions that touch neither the stopper nor the workers' number.\<close>

lemma stop_inv_cong:
  assumes "stop_inv p" and "pl_st q = pl_st p" "pl_cbs q = pl_cbs p" "pl_cancels q = pl_cancels p"
    "pl_done q = pl_done p" "pl_parent q = pl_parent p" "pl_closed q = pl_closed p"
    "pl_others q = pl_others p" "pl_fired q = pl_fired p" "n_active q = n_active p"
    "\<forall>i\<ge>pl_started q. pl_worker q i = WGone"
  shows "stop_inv q"
proof -
  have "pending q = pending p" using assms(3) by (rule pending_cong)
  then have "handed q = handed p" "closing q = closing p"
    using assms(4,7) by (auto simp: handed_def closing_def)
  with assms show ?thesis by (auto simp: stop_inv_def)
qed

text \<open>While a worker is running and the grace period has not expired, nothing is closed or canceled.\<close>

lemma stop_inv_quiet:
  assumes "stop_inv p" and "pl_worker p i \<noteq> WGone" and "\<not> handed p ErrGracePeriodExpired"
  shows "mu_cancel (pl_st p) \<noteq> None \<and> \<not> closing p \<and> (\<forall>e. \<not> handed p e)
    \<and> (pl_parent p = None \<longrightarrow> pl_done p = None)"
proof -
  have "0 < n_active p" using assms(1,2) by (intro n_active_pos) (auto simp: stop_inv_def)
  then have "mu_count (pl_st p) \<noteq> 0" using assms(1) by (simp add: stop_inv_def)
  with assms(1,3) have c: "mu_cancel (pl_st p) \<noteq> None" by (auto simp: stop_inv_def)
  with assms(1) have h: "\<not> closing p" "\<forall>e. \<not> handed p e" by (auto simp: stop_inv_def)
  have "pl_done p = None" if "pl_parent p = None"
  proof (rule ccontr)
    assume "pl_done p \<noteq> None"
    then obtain e x where "pl_done p = Some (e, x)" by (cases "pl_done p") auto
    with that h(2) assms(1) show False by (auto simp: stop_inv_def)
  qed
  with c h show ?thesis by blast
qed

section \<open>The actions keep it\<close>

definition same_stop :: "('a, 'r, 'm) pool \<Rightarrow> ('a, 'r, 'm) pool \<Rightarrow> bool" where
  "same_stop p q \<longleftrightarrow> pl_st q = pl_st p \<and> pl_cbs q = pl_cbs p \<and> pl_cancels q = pl_cancels p
     \<and> pl_done q = pl_done p \<and> pl_parent q = pl_parent p \<and> pl_closed q = pl_closed p
     \<and> pl_fired q = pl_fired p"

lemma stop_inv_same:
  "stop_inv p \<Longrightarrow> same_stop p q \<Longrightarrow> n_active q + int (pl_others q) = n_active p + int (pl_others p)
     \<Longrightarrow> \<forall>i\<ge>pl_started q. pl_worker q i = WGone \<Longrightarrow> stop_inv q"
  by (auto simp: stop_inv_def same_stop_def handed_def closing_def pending_def)

lemma stop_inv_apply:
  assumes inv: "stop_inv p" and ap: "pool_apply d r = Some (q, b)" and pr: "same_stop p r"
    and qq: "same_stop q q'" and gone: "\<forall>i\<ge>pl_started q'. pl_worker q' i = WGone"
    and count: "n_active q' + int (pl_others q') = n_active p + int (pl_others p) + (if b then d else 0)"
  shows "stop_inv q'"
proof -
  obtain st cbs where a: "apply_locked (pl_now r) d (pl_st p) = Inr (st, cbs, b)"
      and q: "q = with_cbs cbs (r\<lparr>pl_st := st\<rparr>)"
    using ap pr by (auto simp: pool_apply_def same_stop_def split: sum.splits)
  have core: "wf_core (pl_st p)" using inv by (simp add: stop_inv_def wf_state_core)
  note r = apply_locked_result [OF core a]
  have "mu_count st = mu_count (pl_st p) + (if b then d else 0)"
    using r(2,3) by (cases b) auto
  then have c: "mu_count st = n_active q' + int (pl_others q')"
    using inv count by (simp add: stop_inv_def)
  have f: "pl_st q' = st" "pl_cbs q' = pl_cbs (with_cbs cbs p)" "pl_cancels q' = pl_cancels p"
      "pl_done q' = pl_done p" "pl_parent q' = pl_parent p" "pl_closed q' = pl_closed p"
      "pl_fired q' = pl_fired p"
    using q pr qq by (simp_all add: same_stop_def with_cbs_cbs)
  have s: "0 < pl_fired q' \<Longrightarrow> mu_stopping st" using inv f(7) r(5) by (simp add: stop_inv_def)
  show ?thesis by (rule stop_inv_section [OF inv crit_step.applied [OF a] f(1-6) c gone s])
qed

lemma pool_apply_down: "pool_apply (- 1) r = Some (q, b) \<Longrightarrow> wf_state (pl_st r) \<Longrightarrow> b"
  by (auto simp: pool_apply_def split: sum.splits dest: apply_locked_result(1) [OF wf_state_core])

lemma stop_inv_locked:
  assumes inv: "stop_inv p" and c: "crit_step (pl_st p) fs st cbs"
    and l: "locked (Inr (st, cbs)) r = Some q" and pr: "same_stop p (r\<lparr>pl_fired := pl_fired p\<rparr>)"
    and count: "mu_count st = mu_count (pl_st p)" and st: "pl_fired r \<le> pl_fired p \<or> mu_stopping st"
    and n: "n_active r = n_active p" "pl_others r = pl_others p"
      "\<forall>i\<ge>pl_started r. pl_worker r i = WGone"
  shows "stop_inv q"
proof -
  have q: "q = with_cbs cbs (r\<lparr>pl_st := st\<rparr>)" using l by (simp add: locked_def)
  have n': "n_active q = n_active p" "pl_others q = pl_others p" "\<forall>i\<ge>pl_started q. pl_worker q i = WGone"
    using q n by (simp_all add: n_active_def)
  have f: "pl_st q = st" "pl_cbs q = pl_cbs (with_cbs cbs p)" "pl_cancels q = pl_cancels p"
      "pl_done q = pl_done p" "pl_parent q = pl_parent p" "pl_closed q = pl_closed p"
      "pl_fired q = pl_fired r"
    using q pr by (simp_all add: same_stop_def with_cbs_cbs)
  have g: "mu_stopping (pl_st p) \<Longrightarrow> mu_stopping st"
    using crit_step_grows [OF c wf_state_core] inv by (simp add: stop_inv_def stop_grows_def)
  have s: "mu_stopping st" if "0 < pl_fired q"
  proof (cases "mu_stopping st")
    case False
    with st that f(7) have "0 < pl_fired p" by simp
    with inv g show ?thesis by (simp add: stop_inv_def)
  qed
  have m: "mu_count st = n_active q + int (pl_others q)"
    using inv count n' by (simp add: stop_inv_def)
  show ?thesis by (rule stop_inv_section [OF inv c f(1-6) m n'(3) s])
qed

lemma stop_count:
  "wf_state s \<Longrightarrow> stop_locked now g s = Inr (t, cbs) \<Longrightarrow> mu_count t = mu_count s \<and> mu_stopping t"
  unfolding stop_locked_def using soft_stop_fields(1,3) [OF wf_state_core] by blast

lemma idle_count:
  assumes "wf_state s" and "stop_on_idle_locked now g s = Inr (t, cbs)"
  shows "mu_count t = mu_count s \<and> (mu_stopping t \<or> mu_stopOnIdle t \<noteq> None \<and> 0 < mu_count t)"
proof (cases "mu_count s = 0")
  case True
  with assms(2) have s: "soft_stop_locked now g (s\<lparr>mu_stopOnIdle := Some g\<rparr>) = Inr (t, cbs)"
    by (simp add: stop_on_idle_locked_def)
  from soft_stop_fields [OF wf_core_idle [OF wf_state_core [OF assms(1)]] s] show ?thesis by simp
next
  case False
  then show ?thesis using assms by (auto simp: stop_on_idle_locked_def wf_state_def wf_core_def)
qed

lemma stop_inv_stop:
  assumes "stop_inv p" and "pool_stop g r = Some q" and "same_stop p r"
    and "n_active r = n_active p" "pl_others r = pl_others p" "\<forall>i\<ge>pl_started r. pl_worker r i = WGone"
  shows "stop_inv q"
proof -
  obtain st cbs where a: "stop_locked (pl_now r) g (pl_st p) = Inr (st, cbs)"
    using assms(2,3) by (auto simp: pool_stop_def locked_def same_stop_def split: sum.splits)
  have wf: "wf_state (pl_st p)" using assms(1) by (simp add: stop_inv_def)
  have l: "locked (Inr (st, cbs)) r = Some q" using assms(2,3) a by (simp add: pool_stop_def same_stop_def)
  have f: "same_stop p (r\<lparr>pl_fired := pl_fired p\<rparr>)" "pl_fired r \<le> pl_fired p \<or> mu_stopping st"
    using assms(3) by (simp_all add: same_stop_def)
  show ?thesis
    by (rule stop_inv_locked [OF assms(1) crit_step.stop [OF a] l f(1) conjunct1 [OF stop_count [OF wf a]] f(2) assms(4-6)])
qed

lemma stop_inv_idle:
  assumes "stop_inv p" and "pool_stop_idle g r = Some q" and "same_stop p r"
    and "n_active r = n_active p" "pl_others r = pl_others p" "\<forall>i\<ge>pl_started r. pl_worker r i = WGone"
  shows "stop_inv q"
proof -
  obtain st cbs where a: "stop_on_idle_locked (pl_now r) g (pl_st p) = Inr (st, cbs)"
    using assms(2,3) by (auto simp: pool_stop_idle_def locked_def same_stop_def split: sum.splits)
  have wf: "wf_state (pl_st p)" using assms(1) by (simp add: stop_inv_def)
  have l: "locked (Inr (st, cbs)) r = Some q" using assms(2,3) a by (simp add: pool_stop_idle_def same_stop_def)
  have f: "same_stop p (r\<lparr>pl_fired := pl_fired p\<rparr>)" "pl_fired r \<le> pl_fired p \<or> mu_stopping st"
    using assms(3) by (simp_all add: same_stop_def)
  show ?thesis
    by (rule stop_inv_locked [OF assms(1) crit_step.stop_on_idle [OF a] l f(1) conjunct1 [OF idle_count [OF wf a]] f(2) assms(4-6)])
qed

lemma stop_inv_errors:
  assumes "stop_inv p" and "same_stop p r" and "n_active r = n_active p" "pl_others r = pl_others p"
    "\<forall>i\<ge>pl_started r. pl_worker r i = WGone"
  shows "stop_inv (pool_errors es r)"
proof -
  have "locked (Inr (add_errors es (pl_st p), [])) r = Some (pool_errors es r)"
    using assms(2) by (simp add: locked_def with_cbs_def pool_errors_def same_stop_def)
  from stop_inv_locked [OF assms(1) crit_step.errors this _ _ _ assms(3-5)] assms(2) show ?thesis
    by (simp add: same_stop_def add_errors_eq)
qed

lemma stop_inv_moved:
  assumes "stop_inv p"
    and st: "mu_cancel (pl_st q) = mu_cancel (pl_st p)" "mu_count (pl_st q) = mu_count (pl_st p)"
      "mu_stopping (pl_st q) = mu_stopping (pl_st p)" "wf_state (pl_st q) = wf_state (pl_st p)"
    and h: "handed q = handed p" and cl: "closing q \<Longrightarrow> closing p \<or> mu_cancel (pl_st p) = None"
    and d: "\<And>e c. pl_done q = Some (e, c) \<Longrightarrow> pl_parent q \<noteq> None \<or> handed q c"
    and eq: "pl_others q = pl_others p" "pl_fired q = pl_fired p" "n_active q = n_active p"
    and gone: "\<forall>i\<ge>pl_started q. pl_worker q i = WGone"
  shows "stop_inv q"
  using assms(1) cl d gone unfolding stop_inv_def st eq h by blast

lemma run_cb_inv:
  assumes inv: "stop_inv p" and i: "i < length (pl_cbs p)" "pl_cbs p ! i = cb # cbs"
  shows "stop_inv (run_cb pg cb (p\<lparr>pl_cbs := (pl_cbs p)[i := cbs]\<rparr>))"
proof -
  let ?p = "p\<lparr>pl_cbs := (pl_cbs p)[i := cbs]\<rparr>"
  let ?q = "run_cb pg cb ?p"
  have pend: "pending p = insert cb (pending ?p)" by (rule pending_pop [OF i]) simp
  have pq: "pending ?q = pending ?p"
    by (rule pending_cong, cases cb) (auto simp: close_results_def pool_errors_def)
  have dn: "pl_parent p \<noteq> None \<or> handed p c" if "pl_done p = Some (e, c)" for e c
    using inv that by (simp add: stop_inv_def)
  have h: "handed ?q = handed p"
    by (rule ext, cases cb; use pend pq in \<open>auto simp: handed_def close_results_def pool_errors_def\<close>)
  have cl: "closing p \<or> mu_cancel (pl_st p) = None" if "closing ?q"
    using that pend pq by (cases cb) (auto simp: closing_def close_results_def pool_errors_def split: if_splits)
  have st: "mu_cancel (pl_st ?q) = mu_cancel (pl_st p)" "mu_count (pl_st ?q) = mu_count (pl_st p)"
      "mu_stopping (pl_st ?q) = mu_stopping (pl_st p)" "wf_state (pl_st ?q) = wf_state (pl_st p)"
    by (cases cb; simp add: close_results_def pool_errors_def add_errors_eq)+
  have d: "pl_parent ?q \<noteq> None \<or> handed ?q c" if "pl_done ?q = Some (e, c)" for e c
  proof (cases "pl_done p")
    case None
    with that show ?thesis
      by (cases cb) (auto simp: handed_def close_results_def pool_errors_def split: if_splits)
  next
    case (Some x)
    then have "pl_done ?q = pl_done p" "pl_parent ?q = pl_parent p"
      by (cases cb; simp add: close_results_def pool_errors_def)+
    with that dn [of e c] h show ?thesis by simp
  qed
  have f: "pl_others ?q = pl_others p" "pl_fired ?q = pl_fired p" "pl_started ?q = pl_started p"
      "pl_worker ?q = pl_worker p"
    by (cases cb; simp add: close_results_def pool_errors_def)+
  then have "n_active ?q = n_active p" "\<forall>i\<ge>pl_started ?q. pl_worker ?q i = WGone"
    using inv by (simp_all add: n_active_def stop_inv_def)
  with f show ?thesis by (intro stop_inv_moved [OF inv st h cl d])
qed

lemma env_step_inv:
  assumes inv: "stop_inv p" and e: "env_step pg a p = Some q"
  shows "stop_inv q"
proof -
  have gone: "\<forall>i\<ge>pl_started p. pl_worker p i = WGone" using inv by (simp add: stop_inv_def)
  show ?thesis
  proof (cases a)
    case (Callback i)
    with e run_cb_inv [OF inv] show ?thesis by (auto split: if_splits list.splits)
  next
    case (EnvStop g)
    with e have "pool_stop g p = Some q" by simp
    then show ?thesis by (rule stop_inv_stop [OF inv]) (use gone in \<open>simp_all add: same_stop_def\<close>)
  next
    case (EnvTick t)
    with e have "q = p\<lparr>pl_now := t\<rparr>" by (simp split: if_splits)
    then show ?thesis
      by (intro stop_inv_cong [OF inv]) (use gone in \<open>simp_all add: n_active_def\<close>)
  next
    case (EnvFire i)
    with e have q: "q = p\<lparr>pl_st := fire_timer i (pl_st p), pl_fired := Suc (pl_fired p)\<rparr>"
        "i < length (rt_timers (pl_st p))" by (simp_all split: if_splits)
    have "mu_stopping (pl_st p)"
      using inv grace_timer_stopping [OF wf_state_core q(2)] by (simp add: stop_inv_def)
    then have "stop_inv p'" if "p' = q" for p'
      unfolding that
      by (intro stop_inv_section [OF inv crit_step.fired [of _ i]])
        (use q(1) gone inv in \<open>simp_all add: with_cbs_def n_active_def stop_inv_def\<close>)
    then show ?thesis by simp
  next
    case EnvTimer
    with e have l: "locked (Inr (grace_timer_locked (pl_st p))) (p\<lparr>pl_fired := pl_fired p - 1\<rparr>) = Some q"
        "0 < pl_fired p" by (simp_all split: if_splits)
    obtain st cbs where g: "grace_timer_locked (pl_st p) = (st, cbs)" by fastforce
    have "mu_stopping (pl_st p)" using inv l(2) by (simp add: stop_inv_def)
    from stop_inv_locked [OF inv crit_step.grace [OF this g] l(1) [unfolded g]]
      hard_stop_fields(3) [OF g [unfolded grace_timer_locked_def]] gone
    show ?thesis by (simp add: same_stop_def n_active_def)
  next
    case (EnvErrors es)
    with e have "q = pool_errors es p" by simp
    then show ?thesis using stop_inv_errors [OF inv] gone by (simp add: same_stop_def)
  next
    case (EnvDefer f)
    with e have q: "q = p\<lparr>pl_st := snd (add_deferred f (pl_st p))\<rparr>" by (simp split: if_splits)
    have "mu_cancel (pl_st q) = mu_cancel (pl_st p)" "mu_count (pl_st q) = mu_count (pl_st p)"
        "mu_stopping (pl_st q) = mu_stopping (pl_st p)" "wf_state (pl_st q) = wf_state (pl_st p)"
      using q by (auto simp: add_deferred_def)
    moreover have "handed q = handed p" "closing q = closing p" "n_active q = n_active p"
      using q by (auto simp: handed_def closing_def pending_def n_active_def)
    moreover have "pl_parent p \<noteq> None \<or> handed p c" if "pl_done p = Some (x, c)" for x c
      using inv that by (simp add: stop_inv_def)
    ultimately show ?thesis using q gone by (intro stop_inv_moved [OF inv]) simp_all
  next
    case (EnvTask b)
    show ?thesis
    proof (cases b)
      case True
      with e EnvTask obtain p1 r where a: "pool_apply 1 p = Some (p1, r)"
          "q = (if r then p1\<lparr>pl_others := Suc (pl_others p1)\<rparr> else p1)"
        by (auto split: option.splits)
      then have f: "pl_others p1 = pl_others p" "pl_worker p1 = pl_worker p" "pl_started p1 = pl_started p"
        by (auto simp: pool_apply_def split: sum.splits)
      show ?thesis
        by (rule stop_inv_apply [OF inv a(1)]) (use a(2) f gone in \<open>auto simp: same_stop_def n_active_def\<close>)
    next
      case False
      with e EnvTask obtain r where a: "pool_apply (- 1) (p\<lparr>pl_others := pl_others p - 1\<rparr>) = Some (q, r)"
          "0 < pl_others p"
        by (auto split: if_splits)
      then have f: "pl_others q = pl_others p - 1" "pl_worker q = pl_worker p" "pl_started q = pl_started p"
        by (auto simp: pool_apply_def split: sum.splits)
      have "r" using pool_apply_down [OF a(1)] inv by (simp add: stop_inv_def)
      then show ?thesis
        by (intro stop_inv_apply [OF inv a(1)]) (use a(2) f gone in \<open>auto simp: same_stop_def n_active_def\<close>)
    qed
  next
    case (EnvParent x c)
    with e have "q = p\<lparr>pl_parent := Some (x, c)\<rparr>" by (simp split: if_splits)
    then show ?thesis
      by (intro stop_inv_moved [OF inv])
        (use gone in \<open>simp_all add: handed_def closing_def pending_def n_active_def fun_eq_iff\<close>)
  next
    case EnvCancel
    with e have "q = p\<lparr>pl_done := pl_parent p\<rparr>" "pl_parent p \<noteq> None" by (simp_all split: if_splits)
    then show ?thesis
      by (intro stop_inv_moved [OF inv])
        (use gone in \<open>simp_all add: handed_def closing_def pending_def n_active_def fun_eq_iff\<close>)
  qed (use e in auto)
qed

lemma finish_step_inv:
  assumes inv: "stop_inv p" and e: "finish_step pg i p = Some q"
  shows "stop_inv q"
proof -
  have gone: "\<forall>i\<ge>pl_started p. pl_worker p i = WGone" using inv by (simp add: stop_inv_def)
  have w: "pl_worker p i \<noteq> WGone" using e by (auto simp: finish_step_def)
  with gone have i: "i < pl_started p" by (meson not_le)
  have same: "same_stop p (set_worker i x p)" for x by (simp add: same_stop_def set_worker_def)
  have n: "n_active (set_worker i x p) = n_active p - (if x = WGone then 1 else 0)" for x
    using n_active_set [OF i, of x] w by simp
  have g: "\<forall>j\<ge>pl_started (set_worker i x p). pl_worker (set_worker i x p) j = WGone" for x
    using gone i by (simp add: set_worker_def)
  have o: "pl_others (set_worker i x p) = pl_others p" for x by (simp add: set_worker_def)
  have errs: "stop_inv (set_worker i x (pool_errors es p))" if "x \<noteq> WGone" for x es
  proof -
    have "set_worker i x (pool_errors es p) = pool_errors es (set_worker i x p)"
      by (simp add: set_worker_def pool_errors_def)
    with stop_inv_errors [OF inv same _ o g, of x es] n [of x] that show ?thesis by simp
  qed
  have st: "stop_inv (set_worker i x p)" if "x \<noteq> WGone" for x
    by (rule stop_inv_same [OF inv same _ g]) (use n [of x] o that in simp)
  show ?thesis
  proof (cases "pl_worker p i")
    case (WRet r)
    with e errs st show ?thesis
      by (auto simp: finish_step_def split: option.splits err_handler.splits)
  next
    case WStop
    with e have "pool_stop (sq_grace pg) (set_worker i WRelease p) = Some q" by (simp add: finish_step_def)
    from stop_inv_stop [OF inv this same _ o g] n [of WRelease] show ?thesis by simp
  next
    case WRelease
    with e obtain r where a: "pool_apply (- 1) (set_worker i WGone p) = Some (q, r)"
      by (auto simp: finish_step_def)
    then have f: "pl_others q = pl_others p" "pl_worker q = pl_worker (set_worker i WGone p)"
        "pl_started q = pl_started p"
      by (auto simp: pool_apply_def set_worker_def split: sum.splits)
    have "r" using pool_apply_down [OF a] inv by (simp add: stop_inv_def set_worker_def)
    moreover have "n_active q = n_active (set_worker i WGone p)"
      using f by (intro n_active_cong) (simp_all add: set_worker_def)
    ultimately show ?thesis
      using stop_inv_apply [OF inv a same, of q] f g [of WGone] n [of WGone]
      by (simp add: same_stop_def set_worker_def)
  qed (use e in \<open>auto simp: finish_step_def\<close>)
qed

lemma start_worker_inv:
  assumes inv: "stop_inv p" and e: "start_worker b (p\<lparr>pl_cons := c\<rparr>) = Some q"
  shows "stop_inv q"
proof -
  let ?p = "p\<lparr>pl_cons := c\<rparr>"
  have gone: "\<forall>i\<ge>pl_started p. pl_worker p i = WGone" using inv by (simp add: stop_inv_def)
  have same: "same_stop p ?p" by (simp add: same_stop_def)
  have n: "n_active ?p = n_active p" by (simp add: n_active_def)
  show ?thesis
  proof (cases "is_stopping (pl_st ?p) \<or> \<not> b")
    case True
    with e have "q = pool_errors [Some ErrStopped] ?p" by (simp add: start_worker_def)
    with stop_inv_errors [OF inv same n] gone show ?thesis by simp
  next
    case False
    with e obtain p1 r where a: "pool_apply 1 ?p = Some (p1, r)"
        "q = (if r then p1\<lparr>pl_worker := (pl_worker p1)(pl_started p1 := WTop), pl_started := Suc (pl_started p1)\<rparr>
              else pool_errors [Some ErrStopped] p1)"
      by (auto simp: start_worker_def split: option.splits prod.splits bool.splits)
    then have f: "pl_others p1 = pl_others p" "pl_worker p1 = pl_worker p" "pl_started p1 = pl_started p"
      by (auto simp: pool_apply_def split: sum.splits)
    show ?thesis
    proof (cases r)
      case True
      have "n_active q = n_active p + 1"
        using a(2) True f gone by (simp add: n_active_def)
      with True a f gone show ?thesis
        by (intro stop_inv_apply [OF inv a(1) same]) (simp_all add: same_stop_def)
    next
      case False
      have "n_active p1 = n_active p" using f by (rule_tac n_active_cong) simp_all
      moreover have "stop_inv p1"
        by (rule stop_inv_apply [OF inv a(1) same]) (use False f gone calculation in \<open>simp_all add: same_stop_def\<close>)
      ultimately show ?thesis
        using False a(2) f gone stop_inv_errors [of p1 p1] by (simp add: same_stop_def)
    qed
  qed
qed

lemma setup_step_inv:
  assumes inv: "stop_inv p" and e: "setup_step pg b p = Some q"
  shows "stop_inv q"
proof -
  have gone: "\<forall>i\<ge>pl_started p. pl_worker p i = WGone" using inv by (simp add: stop_inv_def)
  have same: "same_stop p (p\<lparr>pl_cons := c\<rparr>)" for c by (simp add: same_stop_def)
  have n: "n_active (p\<lparr>pl_cons := c\<rparr>) = n_active p" for c by (simp add: n_active_def)
  show ?thesis
  proof (cases "pl_cons p")
    case CDefer
    obtain r st where a: "add_deferred close_fid (pl_st p) = (r, st)" by fastforce
    let ?r = "p\<lparr>pl_st := st, pl_cons := CStart (sq_workers pg)\<rparr>"
    have q: "q = (if r then ?r else close_results pg ?r)"
      using e CDefer a by (cases r) (auto simp: setup_step_def)
    have c: "mu_cancel (pl_st p) = None \<and> st = pl_st p" if "\<not> r"
      using a that inv by (auto simp: add_deferred_def stop_inv_def wf_state_def split: if_splits)
    have kept: "mu_count st = mu_count (pl_st p)" "mu_stopping st = mu_stopping (pl_st p)"
      using a by (auto simp: add_deferred_def split: if_splits)
    show ?thesis
    proof (cases r)
      case True
      with a have "crit_step (pl_st p) [close_fid] st []" by (simp add: crit_step.defer_kept)
      moreover have "mu_count st = n_active ?r + int (pl_others ?r)" "0 < pl_fired ?r \<longrightarrow> mu_stopping st"
        using inv kept by (simp_all add: stop_inv_def n_active_def)
      ultimately show ?thesis
        using True q gone by (intro stop_inv_section [OF inv]) (simp_all add: with_cbs_def)
    next
      case False
      then have q1: "q = close_results pg (p\<lparr>pl_cons := CStart (sq_workers pg)\<rparr>)"
        using q c by (cases p) simp
      have "handed q = handed p"
        using q1 by (simp add: handed_def pending_def close_results_def pool_errors_def fun_eq_iff)
      moreover have "pl_parent p \<noteq> None \<or> handed p x" if "pl_done p = Some (y, x)" for x y
        using inv that by (simp add: stop_inv_def)
      ultimately show ?thesis
        using q1 c [OF False] gone
        by (intro stop_inv_moved [OF inv])
          (simp_all add: close_results_def pool_errors_def n_active_def add_errors_eq split: if_splits)
    qed
  next
    case (CStart k)
    show ?thesis
    proof (cases k)
      case 0
      with e CStart have "q = p\<lparr>pl_cons := CIdle\<rparr>" by (simp add: setup_step_def)
      then show ?thesis using stop_inv_same [OF inv same] n gone by simp
    next
      case (Suc m)
      with e CStart have "start_worker b (p\<lparr>pl_cons := CStart m\<rparr>) = Some q" by (simp add: setup_step_def)
      then show ?thesis by (rule start_worker_inv [OF inv])
    qed
  next
    case CIdle
    with e have "pool_stop_idle (sq_grace pg) (p\<lparr>pl_cons := CRange\<rparr>) = Some q" by (simp add: setup_step_def)
    from stop_inv_idle [OF inv this same n] gone show ?thesis by simp
  next
    case CBreak
    with e have "q = p\<lparr>pl_early := True, pl_cons := CStopping\<rparr>" by (simp add: setup_step_def)
    then show ?thesis by (intro stop_inv_same [OF inv]) (use gone in \<open>simp_all add: same_stop_def n_active_def\<close>)
  next
    case CStopping
    with e have "pool_stop (sq_grace pg) (p\<lparr>pl_cons := CLock\<rparr>) = Some q" by (simp add: setup_step_def)
    from stop_inv_stop [OF inv this same n] gone show ?thesis by simp
  next
    case CLock
    with e have "q = p\<lparr>pl_cons := CDone\<rparr>" by (simp add: setup_step_def split: if_splits)
    then show ?thesis using stop_inv_same [OF inv same] n gone by simp
  qed (use e in \<open>auto simp: setup_step_def\<close>)
qed

text \<open>A running worker changes its phase without ending.\<close>

lemma stop_inv_worker:
  assumes inv: "stop_inv p" and r: "same_stop p r" and w: "pl_worker p i \<noteq> WGone" "x \<noteq> WGone"
    and f: "pl_worker r = pl_worker p" "pl_started r = pl_started p" "pl_others r = pl_others p"
  shows "stop_inv (set_worker i x r)"
proof -
  have gone: "\<forall>i\<ge>pl_started p. pl_worker p i = WGone" using inv by (simp add: stop_inv_def)
  with w(1) have i: "i < pl_started p" by (meson not_le)
  then have "n_active (set_worker i x r) = n_active p"
    using w f n_active_set [of i r x] n_active_cong [of r p] by simp
  moreover have "same_stop p (set_worker i x r)" using r by (simp add: same_stop_def set_worker_def)
  ultimately show ?thesis
    using gone i f by (intro stop_inv_same [OF inv]) (simp_all add: set_worker_def)
qed

end
