(* ===== verification/Seq_Map.thy ===== *)
theory Seq_Map
  imports Seq_Inv
begin

text \<open>
  seq/map.go: \<open>Map\<close> and \<open>Map2\<close>. A result channel (\<open>retChan\<close>) is named by the count of the item it is made
  for; \<open>pl_chan\<close> is the buffer of \<open>results\<close>, whose capacity is \<open>numWorkers\<close>, and \<open>pl_slots\<close> holds what has
  been sent on each result channel.
\<close>

definition map_result :: "'r \<Rightarrow> rt_frame list \<Rightarrow> ('r \<times> goerr option) outcome \<Rightarrow> 'r \<times> goerr option" where
  "map_result zero pcs out = snd (call_re pcs zero (\<lambda>u. (u, out)) ())"

section \<open>Workers\<close>

text \<open>
  The loop of a worker. A send on the closed \<open>results\<close> panics inside the select: \<open>nextMu\<close> stays locked, and
  the panic handler of the worker's task turns the panic into its error.
\<close>

fun map_worker ::
  "'r \<Rightarrow> ('a, 'r \<times> goerr option) sq_prog \<Rightarrow> ('r \<times> goerr option) action
     \<Rightarrow> ('a, 'r, nat) pool \<Rightarrow> ('a, 'r, nat) pool option" where
  "map_worker zero pg (Worker i) p =
     (case pl_worker p i of
        WTop \<Rightarrow> Some (set_worker i (check_top p) p)
      | WLock \<Rightarrow>
          if pl_mu p = None then
            (case take_next pg p of
               (p1, cnt, None) \<Rightarrow> Some (set_worker i (WRet None) p1)
             | (p1, cnt, Some item) \<Rightarrow> Some (set_worker i (WSelect cnt item) (p1\<lparr>pl_mu := Some i\<rparr>)))
          else None
      | _ \<Rightarrow> finish_step pg i p)"
| "map_worker zero pg (SelSend i) p =
     (case pl_worker p i of
        WSelect cnt item \<Rightarrow>
          if pl_closed p then
            Some (set_worker i (WRet (Some (recover_e (sq_pcs pg) None
              (PanicOther ''send on closed channel'')))) p)
          else if length (pl_chan p) < sq_workers pg then
            Some (set_worker i (WCall cnt item) (p\<lparr>pl_chan := pl_chan p @ [cnt], pl_mu := None\<rparr>))
          else None
      | _ \<Rightarrow> None)"
| "map_worker zero pg (SelBreak i) p =
     (case pl_worker p i of
        WSelect cnt item \<Rightarrow>
          if pl_early p then Some (set_worker i (WRet None) (p\<lparr>pl_mu := None\<rparr>)) else None
      | _ \<Rightarrow> None)"
| "map_worker zero pg (SelDone i) p =
     (case pl_worker p i of
        WSelect cnt item \<Rightarrow>
          if pl_done p \<noteq> None then Some (set_worker i (WRet None) (p\<lparr>pl_mu := None\<rparr>)) else None
      | _ \<Rightarrow> None)"
| "map_worker zero pg (CallEnds i out) p =
     (case pl_worker p i of
        WCall cnt item \<Rightarrow>
          if sq_fn pg cnt item out then
            Some (set_worker i WTop
              (p\<lparr>pl_slots := (pl_slots p)(cnt \<mapsto> map_result zero (sq_pcs pg) out),
                 pl_calls := pl_calls p @ [cnt]\<rparr>))
          else None
      | _ \<Rightarrow> None)"
| "map_worker zero pg _ p = None"

section \<open>The consumer\<close>

text \<open>\<open>yieldOrdered\<close>; the answer \<open>b\<close> is that of \<open>yield\<close>.\<close>

definition yield_ordered :: "bool \<Rightarrow> ('a, 'r, nat) pool \<Rightarrow> ('a, 'r, nat) pool option" where
  "yield_ordered b p =
     (case pl_cons p of
        CRange \<Rightarrow>
          (case pl_chan p of
             c # cs \<Rightarrow> Some (p\<lparr>pl_chan := cs, pl_cons := CSlot c\<rparr>)
           | [] \<Rightarrow> if pl_closed p then Some (p\<lparr>pl_cons := CFinal\<rparr>) else None)
      | CSlot c \<Rightarrow>
          (case pl_slots p c of
             None \<Rightarrow> None
           | Some r \<Rightarrow> Some (p\<lparr>pl_out := pl_out p @ [(c, r)], pl_cons := (if b then CRange else CBreak)\<rparr>))
      | CFinal \<Rightarrow> final_step p
      | _ \<Rightarrow> None)"

definition map_consume ::
  "('a, 'o) sq_prog \<Rightarrow> bool \<Rightarrow> ('a, 'r, nat) pool \<Rightarrow> ('a, 'r, nat) pool option" where
  "map_consume pg b p =
     (case pl_cons p of
        CRange \<Rightarrow> yield_ordered b p
      | CSlot c \<Rightarrow> yield_ordered b p
      | CFinal \<Rightarrow> yield_ordered b p
      | _ \<Rightarrow> setup_step pg b p)"

lemma map_consume_eq:
  "map_consume pg b p =
     (if pl_cons p \<in> {CRange, CFinal} \<or> (\<exists>c. pl_cons p = CSlot c) then yield_ordered b p
      else setup_step pg b p)"
  by (cases "pl_cons p") (simp_all add: map_consume_def)

definition map_step ::
  "'r \<Rightarrow> ('a, 'r \<times> goerr option) sq_prog \<Rightarrow> ('r \<times> goerr option) action
     \<Rightarrow> ('a, 'r, nat) pool \<Rightarrow> ('a, 'r, nat) pool option" where
  "map_step zero pg a p =
     (case a of
        Consume b \<Rightarrow> map_consume pg b p
      | Worker i \<Rightarrow> map_worker zero pg a p
      | SelSend i \<Rightarrow> map_worker zero pg a p
      | SelBreak i \<Rightarrow> map_worker zero pg a p
      | SelDone i \<Rightarrow> map_worker zero pg a p
      | CallEnds i out \<Rightarrow> map_worker zero pg a p
      | _ \<Rightarrow> env_step pg a p)"

fun map_run ::
  "'r \<Rightarrow> ('a, 'r \<times> goerr option) sq_prog \<Rightarrow> ('r \<times> goerr option) action list
     \<Rightarrow> ('a, 'r, nat) pool \<Rightarrow> ('a, 'r, nat) pool option" where
  "map_run zero pg [] p = Some p"
| "map_run zero pg (a # as) p =
     (case map_step zero pg a p of None \<Rightarrow> None | Some q \<Rightarrow> map_run zero pg as q)"

text \<open>\<open>Map2\<close> is the same code over pairs: \<open>iter.Pull2\<close> and a callback of both components.\<close>

definition map2_prog ::
  "(nat \<Rightarrow> ('k \<times> 'v) option) \<Rightarrow> nat \<Rightarrow> (nat \<Rightarrow> 'k \<Rightarrow> 'v \<Rightarrow> ('r \<times> goerr option) outcome \<Rightarrow> bool)
     \<Rightarrow> rt_frame list \<Rightarrow> string \<Rightarrow> err_handler \<Rightarrow> int \<Rightarrow> ('k \<times> 'v, 'r \<times> goerr option) sq_prog" where
  "map2_prog items n fn pcs name h g =
     \<lparr>sq_src = items, sq_workers = n, sq_fn = (\<lambda>i (k, v). fn i k v), sq_pcs = pcs, sq_name = name,
      sq_handler = h, sq_grace = g\<rparr>"

definition map2_run ::
  "'r \<Rightarrow> ('k \<times> 'v, 'r \<times> goerr option) sq_prog \<Rightarrow> ('r \<times> goerr option) action list
     \<Rightarrow> ('k \<times> 'v, 'r, nat) pool \<Rightarrow> ('k \<times> 'v, 'r, nat) pool option" where
  "map2_run zero pg as p = map_run zero pg as p"

section \<open>The invariant\<close>

text \<open>The indices of the items on their way from the iterator to \<open>yield\<close>, in order.\<close>

definition yielded :: "('a, 'r, 'm) pool \<Rightarrow> nat list" where
  "yielded p = map fst (pl_out p)"

definition in_slot :: "('a, 'r, 'm) pool \<Rightarrow> nat list" where
  "in_slot p = (case pl_cons p of CSlot c \<Rightarrow> [c] | _ \<Rightarrow> [])"

definition selecting :: "('a, 'r) phase \<Rightarrow> nat list" where
  "selecting w = (case w of WSelect c x \<Rightarrow> [c] | _ \<Rightarrow> [])"

definition in_select :: "('a, 'r, 'm) pool \<Rightarrow> nat list" where
  "in_select p = (case pl_mu p of Some i \<Rightarrow> selecting (pl_worker p i) | None \<Rightarrow> [])"

definition served :: "('a, 'r, nat) pool \<Rightarrow> nat list" where
  "served p = yielded p @ in_slot p @ pl_chan p"

text \<open>Early break, a canceled parent, or an expired grace period.\<close>

definition spoiled :: "('a, 'r, 'm) pool \<Rightarrow> bool" where
  "spoiled p \<longleftrightarrow> pl_early p \<or> pl_parent p \<noteq> None \<or> handed p ErrGracePeriodExpired"

definition finished_phase :: "('a, 'r) phase \<Rightarrow> bool" where
  "finished_phase w \<longleftrightarrow> (case w of WRet _ \<Rightarrow> True | WStop \<Rightarrow> True | WRelease \<Rightarrow> True | WGone \<Rightarrow> True | _ \<Rightarrow> False)"

definition order_inv :: "('a, 'o) sq_prog \<Rightarrow> ('a, 'r, nat) pool \<Rightarrow> bool" where
  "order_inv pg p \<longleftrightarrow>
     sorted_wrt (<) (served p @ in_select p) \<and> (\<forall>c\<in>set (served p @ in_select p). c < pl_pos p)
     \<and> (\<not> spoiled p \<longrightarrow> served p @ in_select p = [0..<pl_pos p])
     \<and> length (pl_chan p) \<le> sq_workers pg"

definition source_inv :: "('a, 'o) sq_prog \<Rightarrow> ('a, 'r, 'm) pool \<Rightarrow> bool" where
  "source_inv pg p \<longleftrightarrow>
     pl_pos p \<le> pl_idx p \<and> (pl_pos p < pl_idx p \<longrightarrow> sq_src pg (pl_pos p) = None)
     \<and> (\<forall>j<pl_pos p. sq_src pg j \<noteq> None)
     \<and> (\<forall>i<pl_started p. finished_phase (pl_worker p i) \<longrightarrow> spoiled p \<or> sq_src pg (pl_pos p) = None)
     \<and> (\<forall>i c x. pl_worker p i = WCall c x \<longrightarrow> sq_src pg c = Some x)
     \<and> (\<forall>i c x. pl_worker p i = WSelect c x \<longrightarrow> sq_src pg c = Some x \<and> Suc c = pl_pos p)"

definition mutex_inv :: "('a, 'r, 'm) pool \<Rightarrow> bool" where
  "mutex_inv p \<longleftrightarrow>
     (\<forall>i c x. pl_worker p i = WSelect c x \<longrightarrow> pl_mu p = Some i)
     \<and> (\<forall>i. pl_mu p = Some i \<longrightarrow> (\<exists>c x. pl_worker p i = WSelect c x) \<or> handed p ErrGracePeriodExpired)"

definition slot_inv :: "'r \<Rightarrow> ('a, 'r \<times> goerr option) sq_prog \<Rightarrow> ('a, 'r, nat) pool \<Rightarrow> bool" where
  "slot_inv zero pg p \<longleftrightarrow>
     (\<forall>i c x. pl_worker p i = WCall c x \<longrightarrow> c \<in> set (served p) \<and> pl_slots p c = None)
     \<and> (\<forall>i j c x y. pl_worker p i = WCall c x \<and> pl_worker p j = WCall c y \<longrightarrow> i = j)
     \<and> (\<forall>c\<in>set (served p). pl_slots p c \<noteq> None \<or> (\<exists>i x. pl_worker p i = WCall c x))
     \<and> (\<forall>c r. pl_slots p c = Some r \<longrightarrow> c \<in> set (served p)
          \<and> (\<exists>x out. sq_src pg c = Some x \<and> sq_fn pg c x out \<and> r = map_result zero (sq_pcs pg) out))
     \<and> (\<forall>c r. (c, r) \<in> set (pl_out p) \<longrightarrow> pl_slots p c = Some r)
     \<and> distinct (pl_calls p) \<and> (\<forall>c. c \<in> set (pl_calls p) \<longleftrightarrow> pl_slots p c \<noteq> None)"

definition map_inv :: "'r \<Rightarrow> ('a, 'r \<times> goerr option) sq_prog \<Rightarrow> ('a, 'r, nat) pool \<Rightarrow> bool" where
  "map_inv zero pg p \<longleftrightarrow>
     stop_inv p \<and> order_inv pg p \<and> source_inv pg p \<and> mutex_inv p \<and> slot_inv zero pg p"

section \<open>Frames\<close>

text \<open>What the stopper's own actions leave alone, and what never goes back.\<close>

definition same_core :: "('a, 'r, 'm) pool \<Rightarrow> ('a, 'r, 'm) pool \<Rightarrow> bool" where
  "same_core p q \<longleftrightarrow> pl_idx q = pl_idx p \<and> pl_pos q = pl_pos p \<and> pl_mu q = pl_mu p
     \<and> pl_chan q = pl_chan p \<and> pl_slots q = pl_slots p \<and> pl_calls q = pl_calls p \<and> pl_out q = pl_out p"

definition later :: "('a, 'r, 'm) pool \<Rightarrow> ('a, 'r, 'm) pool \<Rightarrow> bool" where
  "later p q \<longleftrightarrow> (\<forall>e. handed p e \<longrightarrow> handed q e) \<and> (pl_parent p \<noteq> None \<longrightarrow> pl_parent q \<noteq> None)
     \<and> (pl_early p \<longrightarrow> pl_early q)"

lemma handed_update [simp]:
  "handed (p\<lparr>pl_others := k\<rparr>) = handed p" "handed (p\<lparr>pl_fired := k\<rparr>) = handed p"
  "handed (p\<lparr>pl_cons := c\<rparr>) = handed p" "handed (p\<lparr>pl_worker := f\<rparr>) = handed p"
  "handed (p\<lparr>pl_idx := k\<rparr>) = handed p" "handed (p\<lparr>pl_pos := k\<rparr>) = handed p"
  "handed (p\<lparr>pl_mu := m\<rparr>) = handed p" "handed (p\<lparr>pl_chan := x\<rparr>) = handed p"
  by (simp_all add: handed_def pending_def fun_eq_iff)

lemma later_spoiled: "later p q \<Longrightarrow> spoiled p \<Longrightarrow> spoiled q"
  by (auto simp: later_def spoiled_def)

lemma later_with_cbs [simp]: "later p q \<Longrightarrow> later p (with_cbs cbs q)"
  by (auto simp: later_def handed_def pending_with_cbs)

lemma later_same [simp]:
  "pl_cbs q = pl_cbs p \<Longrightarrow> pl_cancels q = pl_cancels p \<Longrightarrow> pl_parent q = pl_parent p
     \<Longrightarrow> (pl_early p \<longrightarrow> pl_early q) \<Longrightarrow> later p q"
  by (simp add: later_def handed_def pending_def)

lemma same_core_with_cbs [simp]: "same_core p (with_cbs cbs q) = same_core p q"
  by (simp add: same_core_def)

text \<open>A pool operation changes the stopper and nothing of the core.\<close>

definition stop_only :: "('a, 'r, 'm) pool \<Rightarrow> ('a, 'r, 'm) pool \<Rightarrow> bool" where
  "stop_only p q \<longleftrightarrow> same_core p q \<and> later p q \<and> pl_worker q = pl_worker p
     \<and> pl_started q = pl_started p \<and> pl_cons q = pl_cons p \<and> pl_early q = pl_early p"

lemma stop_only_locked: "locked r p = Some q \<Longrightarrow> stop_only p q"
  by (auto simp: locked_def stop_only_def same_core_def split: sum.splits)

lemma stop_only_apply: "pool_apply d p = Some (q, b) \<Longrightarrow> stop_only p q"
  by (auto simp: pool_apply_def stop_only_def same_core_def split: sum.splits)

lemma stop_only_errors: "stop_only p (pool_errors es p)"
  by (simp add: pool_errors_def stop_only_def same_core_def)

lemmas stop_only_pool = stop_only_errors stop_only_apply
  stop_only_locked [of "stop_locked (pl_now p) g (pl_st p)" p, folded pool_stop_def]
  stop_only_locked [of "stop_on_idle_locked (pl_now p) g (pl_st p)" p, folded pool_stop_idle_def] for p g

lemma close_results_frame: "stop_only p (close_results pg p)"
  by (simp add: close_results_def pool_errors_def stop_only_def same_core_def)

lemma env_step_frame:
  assumes "env_step pg a p = Some q"
  shows "stop_only p q"
proof (cases a)
  case (Callback i)
  with assms obtain cb cbs where i: "i < length (pl_cbs p)" "pl_cbs p ! i = cb # cbs"
      and q: "q = run_cb pg cb (p\<lparr>pl_cbs := (pl_cbs p)[i := cbs]\<rparr>)"
    by (auto split: if_splits list.splits)
  have "pending p = insert cb (pending (p\<lparr>pl_cbs := (pl_cbs p)[i := cbs]\<rparr>))"
    by (rule pending_pop [OF i]) simp
  moreover have "pending q = pending (p\<lparr>pl_cbs := (pl_cbs p)[i := cbs]\<rparr>)"
    unfolding q by (rule pending_cong, cases cb) (auto simp: close_results_def pool_errors_def)
  moreover have "pl_parent q = pl_parent p" "pl_early q = pl_early p" "pl_worker q = pl_worker p"
      "pl_started q = pl_started p" "pl_cons q = pl_cons p" "same_core p q"
    unfolding q by (cases cb; simp add: close_results_def pool_errors_def same_core_def)+
  moreover have "set (pl_cancels p) \<subseteq> set (pl_cancels q)" "\<And>c e. cb = CbCancel c e \<Longrightarrow> e \<in> set (pl_cancels q)"
    unfolding q by (cases cb; auto simp: close_results_def pool_errors_def)+
  ultimately show ?thesis by (auto simp: stop_only_def later_def handed_def)
next
  case (EnvStop g)
  with assms show ?thesis by (auto intro: stop_only_pool)
next
  case EnvTimer
  with assms have "locked (Inr (grace_timer_locked (pl_st p))) (p\<lparr>pl_fired := pl_fired p - 1\<rparr>) = Some q"
    by (simp split: if_splits)
  from stop_only_locked [OF this] show ?thesis
    by (simp add: stop_only_def same_core_def later_def)
next
  case (EnvTask b)
  have o: "stop_only p q" if "stop_only (p\<lparr>pl_others := k\<rparr>) r" "q = r\<lparr>pl_others := m\<rparr> \<or> q = r" for k m r
    using that by (auto simp: stop_only_def same_core_def later_def)
  show ?thesis
  proof (cases b)
    case True
    with assms EnvTask obtain p1 r where "pool_apply 1 p = Some (p1, r)"
        "q = (if r then p1\<lparr>pl_others := Suc (pl_others p1)\<rparr> else p1)"
      by (auto split: option.splits)
    with stop_only_apply [of 1 p p1 r] o [of "pl_others p" p1 "Suc (pl_others p1)"] show ?thesis
      by (auto split: if_splits)
  next
    case False
    with assms EnvTask obtain r where "pool_apply (- 1) (p\<lparr>pl_others := pl_others p - 1\<rparr>) = Some (q, r)"
      by (auto split: if_splits)
    from stop_only_apply [OF this] o show ?thesis by blast
  qed
qed (use assms in \<open>auto simp: stop_only_def same_core_def pool_errors_def later_def handed_def pending_def split: if_splits\<close>)

section \<open>Every action keeps the invariant\<close>

definition core_inv :: "'r \<Rightarrow> ('a, 'r \<times> goerr option) sq_prog \<Rightarrow> ('a, 'r, nat) pool \<Rightarrow> bool" where
  "core_inv zero pg p \<longleftrightarrow> order_inv pg p \<and> source_inv pg p \<and> mutex_inv p \<and> slot_inv zero pg p"

lemma map_inv_core: "map_inv zero pg p \<longleftrightarrow> stop_inv p \<and> core_inv zero pg p"
  by (simp add: map_inv_def core_inv_def)

definition idle_phase :: "('a, 'r) phase \<Rightarrow> bool" where
  "idle_phase w \<longleftrightarrow> (\<forall>c x. w \<noteq> WSelect c x \<and> w \<noteq> WCall c x)"

lemma idle_phase_simps [simp]:
  "idle_phase WTop" "idle_phase WLock" "idle_phase (WRet e)" "idle_phase WStop" "idle_phase WRelease"
  "idle_phase WGone" "\<not> idle_phase (WSelect c x)" "\<not> idle_phase (WCall c x)"
  by (auto simp: idle_phase_def)

lemma finished_idle: "finished_phase w \<Longrightarrow> idle_phase w"
  by (cases w) (auto simp: finished_phase_def)

lemma finished_phase_simps [simp]:
  "\<not> finished_phase WTop" "\<not> finished_phase WLock" "finished_phase (WRet e)" "finished_phase WStop"
  "finished_phase WRelease" "finished_phase WGone" "\<not> finished_phase (WSelect c x)"
  "\<not> finished_phase (WCall c x)"
  by (simp_all add: finished_phase_def)

lemma selecting_idle [simp]: "idle_phase w \<Longrightarrow> selecting w = []"
  by (cases w) (auto simp: selecting_def)

lemma selecting_select [simp]: "selecting (WSelect c x) = [c]" "selecting (WCall c x) = []"
  by (simp_all add: selecting_def)

lemma set_worker_fields [simp]:
  "pl_worker (set_worker i x p) = (pl_worker p)(i := x)" "pl_mu (set_worker i x p) = pl_mu p"
  "pl_pos (set_worker i x p) = pl_pos p" "pl_idx (set_worker i x p) = pl_idx p"
  "pl_chan (set_worker i x p) = pl_chan p" "pl_slots (set_worker i x p) = pl_slots p"
  "pl_calls (set_worker i x p) = pl_calls p" "pl_cons (set_worker i x p) = pl_cons p"
  "pl_out (set_worker i x p) = pl_out p" "pl_started (set_worker i x p) = pl_started p"
  "pl_early (set_worker i x p) = pl_early p" "pl_done (set_worker i x p) = pl_done p"
  "pl_parent (set_worker i x p) = pl_parent p" "pl_closed (set_worker i x p) = pl_closed p"
  "pl_st (set_worker i x p) = pl_st p" "pl_cbs (set_worker i x p) = pl_cbs p"
  "pl_cancels (set_worker i x p) = pl_cancels p" "pl_others (set_worker i x p) = pl_others p"
  "pl_fired (set_worker i x p) = pl_fired p"
  by (simp_all add: set_worker_def)

lemma handed_set_worker [simp]: "handed (set_worker i x p) = handed p"
  by (simp add: set_worker_def)

lemma served_set_worker [simp]: "served (set_worker i x p) = served p"
  by (simp add: served_def yielded_def in_slot_def)

lemma spoiled_set_worker [simp]: "spoiled (set_worker i x p) = spoiled p"
  by (simp add: spoiled_def)

text \<open>The stopper's own actions.\<close>

lemma core_inv_stop_only:
  assumes "stop_only p q" and "core_inv zero pg p"
  shows "core_inv zero pg q"
proof -
  have f: "pl_idx q = pl_idx p" "pl_pos q = pl_pos p" "pl_mu q = pl_mu p" "pl_chan q = pl_chan p"
      "pl_slots q = pl_slots p" "pl_calls q = pl_calls p" "pl_out q = pl_out p"
      "pl_worker q = pl_worker p" "pl_started q = pl_started p" "served q = served p"
      "in_select q = in_select p"
    using assms(1)
    by (simp_all add: stop_only_def same_core_def served_def yielded_def in_slot_def in_select_def
        cong: option.case_cong)
  have g: "spoiled p \<Longrightarrow> spoiled q" "handed p ErrGracePeriodExpired \<Longrightarrow> handed q ErrGracePeriodExpired"
    using assms(1) later_spoiled by (auto simp: stop_only_def later_def)
  have "order_inv pg q" using assms(2) g by (auto simp: core_inv_def order_inv_def f)
  moreover have "source_inv pg q"
    using assms(2) g unfolding core_inv_def source_inv_def f by auto
  moreover have "mutex_inv q" using assms(2) g unfolding core_inv_def mutex_inv_def f by blast
  moreover have "slot_inv zero pg q" using assms(2) unfolding core_inv_def slot_inv_def f by blast
  ultimately show ?thesis by (simp add: core_inv_def)
qed

text \<open>A worker moves between phases in which it holds neither the mutex nor an item.\<close>

lemma core_inv_quiet:
  assumes inv: "core_inv zero pg p" and w: "idle_phase (pl_worker p i)" "idle_phase x"
    and fin: "finished_phase x \<Longrightarrow> spoiled p \<or> sq_src pg (pl_pos p) = None"
  shows "core_inv zero pg (set_worker i x p)"
proof -
  let ?q = "set_worker i x p"
  have s: "in_select ?q = in_select p" using w by (auto simp: in_select_def split: option.splits)
  have call: "pl_worker ?q j = WCall c y \<longleftrightarrow> pl_worker p j = WCall c y"
    and sel: "pl_worker ?q j = WSelect c y \<longleftrightarrow> pl_worker p j = WSelect c y" for j c y
    using w by (auto simp: idle_phase_def)
  have "order_inv pg ?q" using inv by (simp add: core_inv_def order_inv_def s)
  moreover have "source_inv pg ?q"
    using inv fin unfolding core_inv_def source_inv_def call sel by auto
  moreover have "mutex_inv ?q" using inv unfolding core_inv_def mutex_inv_def call sel by simp
  moreover have "slot_inv zero pg ?q" using inv unfolding core_inv_def slot_inv_def call by simp
  ultimately show ?thesis by (simp add: core_inv_def)
qed

text \<open>A new position in the source, for a worker that finds no item.\<close>

lemma core_inv_idx:
  assumes "core_inv zero pg p" and "sq_src pg (pl_pos p) = None"
  shows "core_inv zero pg (p\<lparr>pl_idx := Suc (pl_idx p)\<rparr>)"
proof -
  let ?q = "p\<lparr>pl_idx := Suc (pl_idx p)\<rparr>"
  have f: "served ?q = served p" "in_select ?q = in_select p" "spoiled ?q = spoiled p"
    by (simp_all add: served_def yielded_def in_slot_def in_select_def spoiled_def cong: option.case_cong)
  have "order_inv pg ?q" using assms by (simp add: core_inv_def order_inv_def f)
  moreover have "source_inv pg ?q" using assms by (simp add: core_inv_def source_inv_def f)
  moreover have "mutex_inv ?q" using assms by (simp add: core_inv_def mutex_inv_def)
  moreover have "slot_inv zero pg ?q" using assms by (simp add: core_inv_def slot_inv_def f)
  ultimately show ?thesis by (simp add: core_inv_def)
qed

text \<open>A worker takes an item under the mutex.\<close>

lemma core_inv_take:
  assumes inv: "core_inv zero pg p" and mu: "pl_mu p = None" and w: "pl_worker p i = WLock"
    and x: "sq_src pg (pl_pos p) = Some x"
  defines "q \<equiv> set_worker i (WSelect (pl_idx p) x)
      (p\<lparr>pl_idx := Suc (pl_idx p), pl_pos := Suc (pl_pos p), pl_mu := Some i\<rparr>)"
  shows "core_inv zero pg q"
proof -
  have ip: "pl_idx p = pl_pos p"
    using inv x by (auto simp: core_inv_def source_inv_def dest: le_neq_implies_less)
  have none: "pl_worker p j \<noteq> WSelect c y" for j c y
    using inv mu by (auto simp: core_inv_def mutex_inv_def)
  have srv: "served q = served p" "spoiled q = spoiled p" "handed q = handed p"
    by (simp_all add: q_def served_def yielded_def in_slot_def spoiled_def)
  have s: "in_select q = [pl_pos p]" "in_select p = []" using mu ip by (simp_all add: q_def in_select_def)
  have call: "pl_worker q j = WCall c y \<longleftrightarrow> pl_worker p j = WCall c y" for j c y
    using w by (simp add: q_def)
  have f: "pl_mu q = Some i" "pl_pos q = Suc (pl_pos p)" "pl_idx q = Suc (pl_pos p)"
      "pl_started q = pl_started p" "pl_worker q = (pl_worker p)(i := WSelect (pl_pos p) x)"
    by (simp_all add: q_def ip)
  have "order_inv pg q"
    using inv unfolding core_inv_def order_inv_def srv s f
    by (auto simp: q_def sorted_wrt_append less_Suc_eq)
  moreover have "source_inv pg q"
    using inv x none unfolding core_inv_def source_inv_def call f srv by (auto simp: ip less_Suc_eq)
  moreover have "mutex_inv q" using none unfolding mutex_inv_def f by auto
  moreover have "slot_inv zero pg q"
    using inv unfolding core_inv_def slot_inv_def call srv by (simp add: q_def)
  ultimately show ?thesis by (simp add: core_inv_def)
qed

lemma core_mutex:
  assumes "core_inv zero pg p"
  shows "pl_worker p i = WSelect c x \<Longrightarrow> pl_mu p = Some i"
    and "pl_mu p = Some i \<Longrightarrow> (\<exists>c x. pl_worker p i = WSelect c x) \<or> handed p ErrGracePeriodExpired"
  using assms unfolding core_inv_def mutex_inv_def by blast+

lemma core_select:
  assumes "core_inv zero pg p" and "pl_worker p i = WSelect c x"
  shows "pl_mu p = Some i" "in_select p = [c]" "\<And>j d y. pl_worker p j = WSelect d y \<Longrightarrow> j = i"
proof -
  show m: "pl_mu p = Some i" by (rule core_mutex(1) [OF assms])
  then show "in_select p = [c]" using assms(2) by (simp add: in_select_def)
  show "j = i" if "pl_worker p j = WSelect d y" for j d y using core_mutex(1) [OF assms(1) that] m by simp
qed

lemma core_call:
  assumes "core_inv zero pg p" and "pl_worker p i = WCall c x"
  shows "sq_src pg c = Some x" "c \<in> set (served p)" "pl_slots p c = None" "c \<notin> set (pl_calls p)"
    and "\<And>j y. pl_worker p j = WCall c y \<Longrightarrow> j = i"
proof -
  have src: "source_inv pg p" and sl: "slot_inv zero pg p" using assms(1) by (simp_all add: core_inv_def)
  show "sq_src pg c = Some x" using src assms(2) unfolding source_inv_def by blast
  show "c \<in> set (served p)" using sl assms(2) unfolding slot_inv_def by blast
  show n: "pl_slots p c = None" using sl assms(2) unfolding slot_inv_def by blast
  then show "c \<notin> set (pl_calls p)" using sl unfolding slot_inv_def by blast
  show "j = i" if "pl_worker p j = WCall c y" for j y using sl assms(2) that unfolding slot_inv_def by blast
qed

lemma core_slot:
  assumes "core_inv zero pg p"
  shows "pl_slots p c = Some r \<Longrightarrow> c \<in> set (served p)
      \<and> (\<exists>x out. sq_src pg c = Some x \<and> sq_fn pg c x out \<and> r = map_result zero (sq_pcs pg) out)"
    and "c \<in> set (served p) \<Longrightarrow> pl_slots p c \<noteq> None \<or> (\<exists>i x. pl_worker p i = WCall c x)"
    and "(c, r) \<in> set (pl_out p) \<Longrightarrow> pl_slots p c = Some r"
    and "c \<in> set (pl_calls p) \<longleftrightarrow> pl_slots p c \<noteq> None" "distinct (pl_calls p)"
  using assms unfolding core_inv_def slot_inv_def by blast+

lemma slot_invI:
  assumes "\<And>i c x. pl_worker p i = WCall c x \<Longrightarrow> c \<in> set (served p) \<and> pl_slots p c = None"
    and "\<And>i j c x y. pl_worker p i = WCall c x \<Longrightarrow> pl_worker p j = WCall c y \<Longrightarrow> i = j"
    and "\<And>c. c \<in> set (served p) \<Longrightarrow> pl_slots p c = None \<Longrightarrow> \<exists>i x. pl_worker p i = WCall c x"
    and "\<And>c r. pl_slots p c = Some r \<Longrightarrow> c \<in> set (served p)
          \<and> (\<exists>x out. sq_src pg c = Some x \<and> sq_fn pg c x out \<and> r = map_result zero (sq_pcs pg) out)"
    and "\<And>c r. (c, r) \<in> set (pl_out p) \<Longrightarrow> pl_slots p c = Some r"
    and "distinct (pl_calls p)" and "\<And>c. c \<in> set (pl_calls p) \<longleftrightarrow> pl_slots p c \<noteq> None"
  shows "slot_inv zero pg p"
  unfolding slot_inv_def using assms by blast

text \<open>An item is dropped, or its worker dies with the mutex.\<close>

lemma core_inv_drop:
  assumes inv: "core_inv zero pg p" and w: "pl_worker p i = WSelect c x" and sp: "spoiled p"
    and m: "m = None \<or> m = Some i \<and> handed p ErrGracePeriodExpired"
  shows "core_inv zero pg (set_worker i (WRet e) (p\<lparr>pl_mu := m\<rparr>))"
proof -
  let ?q = "set_worker i (WRet e) (p\<lparr>pl_mu := m\<rparr>)"
  note sel = core_select [OF inv w]
  have s: "in_select ?q = []" using m by (auto simp: in_select_def)
  have srv: "served ?q = served p" "spoiled ?q = spoiled p" "handed ?q = handed p"
    by (simp_all add: served_def yielded_def in_slot_def spoiled_def)
  have call: "pl_worker ?q j = WCall d y \<longleftrightarrow> pl_worker p j = WCall d y" for j d y
    using w by simp
  have none: "pl_worker ?q j \<noteq> WSelect d y" for j d y
    using sel(3) by auto
  have "order_inv pg ?q"
    using inv sp unfolding core_inv_def order_inv_def s srv by (auto simp: sorted_wrt_append)
  moreover have "source_inv pg ?q"
    using inv sp unfolding core_inv_def source_inv_def call srv by (simp add: none)
  moreover have "mutex_inv ?q" using m none unfolding mutex_inv_def srv by auto
  moreover have "slot_inv zero pg ?q"
    using inv unfolding core_inv_def slot_inv_def call srv by simp
  ultimately show ?thesis by (simp add: core_inv_def)
qed

text \<open>The result channel is queued.\<close>

lemma core_inv_send:
  assumes inv: "core_inv zero pg p" and w: "pl_worker p i = WSelect c x"
    and room: "length (pl_chan p) < sq_workers pg"
  shows "core_inv zero pg (set_worker i (WCall c x) (p\<lparr>pl_chan := pl_chan p @ [c], pl_mu := None\<rparr>))"
proof -
  let ?q = "set_worker i (WCall c x) (p\<lparr>pl_chan := pl_chan p @ [c], pl_mu := None\<rparr>)"
  note sel = core_select [OF inv w]
  have s: "in_select ?q = []" by (simp add: in_select_def)
  have srv: "served ?q = served p @ [c]" "spoiled ?q = spoiled p" "handed ?q = handed p"
    by (simp_all add: served_def yielded_def in_slot_def spoiled_def)
  have call: "pl_worker ?q j = WCall d y \<longleftrightarrow> (if j = i then d = c \<and> y = x else pl_worker p j = WCall d y)" for j d y
    by auto
  have none: "pl_worker ?q j \<noteq> WSelect d y" for j d y
    using sel(3) by auto
  have c: "c \<notin> set (served p)"
    using inv sel(2) by (auto simp: core_inv_def order_inv_def sorted_wrt_append)
  have new: "pl_worker p j \<noteq> WCall c y" "pl_slots p c = None" for j y
  proof -
    show "pl_worker p j \<noteq> WCall c y" using c core_call(2) [OF inv] by blast
    show "pl_slots p c = None" using c core_slot(1) [OF inv, of c] by (cases "pl_slots p c") auto
  qed
  have "order_inv pg ?q"
    using inv room unfolding core_inv_def order_inv_def s srv by (simp add: sel(2))
  moreover have "source_inv pg ?q"
  proof -
    have "sq_src pg c = Some x" using inv w by (simp add: core_inv_def source_inv_def)
    then show ?thesis
      using inv unfolding core_inv_def source_inv_def call srv by (simp add: none)
  qed
  moreover have "mutex_inv ?q" using none unfolding mutex_inv_def by simp
  moreover have "slot_inv zero pg ?q"
  proof -
    have sl: "pl_slots ?q = pl_slots p" "pl_out ?q = pl_out p" "pl_calls ?q = pl_calls p" by simp_all
    show ?thesis
    proof (rule slot_invI, unfold srv sl)
      fix j d y assume "pl_worker ?q j = WCall d y"
      then show "d \<in> set (served p @ [c]) \<and> pl_slots p d = None"
        using new(2) core_call(2,3) [OF inv, of j d y] by (simp add: call split: if_splits)
    next
      fix j k d y z assume "pl_worker ?q j = WCall d y" "pl_worker ?q k = WCall d z"
      then show "j = k"
        using new(1) core_call(5) [OF inv] unfolding call by (metis (full_types))
    next
      fix d assume d: "d \<in> set (served p @ [c])" "pl_slots p d = None"
      show "\<exists>j y. pl_worker ?q j = WCall d y"
      proof (cases "d = c")
        case True
        then show ?thesis unfolding call by metis
      next
        case False
        with d core_slot(2) [OF inv, of d] obtain j y where j: "pl_worker p j = WCall d y" by auto
        with w have "j \<noteq> i" by auto
        with j show ?thesis unfolding call by metis
      qed
    qed (use core_slot [OF inv] in \<open>auto\<close>)
  qed
  ultimately show ?thesis by (simp add: core_inv_def)
qed

text \<open>A call ends.\<close>

lemma core_inv_call:
  assumes inv: "core_inv zero pg p" and w: "pl_worker p i = WCall c x" and out: "sq_fn pg c x out"
  shows "core_inv zero pg (set_worker i WTop
    (p\<lparr>pl_slots := (pl_slots p)(c \<mapsto> map_result zero (sq_pcs pg) out), pl_calls := pl_calls p @ [c]\<rparr>))"
proof -
  let ?q = "set_worker i WTop (p\<lparr>pl_slots := (pl_slots p)(c \<mapsto> map_result zero (sq_pcs pg) out),
      pl_calls := pl_calls p @ [c]\<rparr>)"
  have srv: "served ?q = served p" "spoiled ?q = spoiled p" "handed ?q = handed p"
    by (simp_all add: served_def yielded_def in_slot_def spoiled_def handed_def pending_def fun_eq_iff)
  have s: "in_select ?q = in_select p" using w by (auto simp: in_select_def split: option.splits)
  note x = core_call [OF inv w]
  have call: "pl_worker ?q j = WCall d y \<longleftrightarrow> j \<noteq> i \<and> pl_worker p j = WCall d y" for j d y by simp
  have sel: "pl_worker ?q j = WSelect d y \<longleftrightarrow> pl_worker p j = WSelect d y" for j d y using w by simp
  have "order_inv pg ?q" using inv unfolding core_inv_def order_inv_def s srv by simp
  moreover have "source_inv pg ?q"
    using inv unfolding core_inv_def source_inv_def call sel srv by simp blast
  moreover have "mutex_inv ?q" using inv unfolding core_inv_def mutex_inv_def sel srv by simp
  moreover have "slot_inv zero pg ?q"
  proof -
    have sl: "pl_slots ?q = (pl_slots p)(c \<mapsto> map_result zero (sq_pcs pg) out)" "pl_out ?q = pl_out p"
        "pl_calls ?q = pl_calls p @ [c]" by simp_all
    show ?thesis
    proof (rule slot_invI, unfold srv sl)
      fix j d y assume "pl_worker ?q j = WCall d y"
      then have j: "j \<noteq> i" "pl_worker p j = WCall d y" by (auto split: if_splits)
      then have "d \<noteq> c" using x(5) by blast
      with core_call(2,3) [OF inv j(2)]
      show "d \<in> set (served p) \<and> ((pl_slots p)(c \<mapsto> map_result zero (sq_pcs pg) out)) d = None" by simp
    next
      fix j k d y z assume "pl_worker ?q j = WCall d y" "pl_worker ?q k = WCall d z"
      then show "j = k" using core_call(5) [OF inv] unfolding call by blast
    next
      fix d assume "d \<in> set (served p)" "((pl_slots p)(c \<mapsto> map_result zero (sq_pcs pg) out)) d = None"
      then have "d \<noteq> c" "\<exists>j y. pl_worker p j = WCall d y"
        using core_slot(2) [OF inv, of d] by (auto split: if_splits)
      with w show "\<exists>j y. pl_worker ?q j = WCall d y" unfolding call by force
    qed (use core_slot [OF inv] x out in \<open>auto split: if_splits\<close>)
  qed
  ultimately show ?thesis by (simp add: core_inv_def)
qed

text \<open>The consumer moves an index along.\<close>

lemma core_inv_served:
  assumes inv: "core_inv zero pg p"
    and f: "pl_idx q = pl_idx p" "pl_pos q = pl_pos p" "pl_mu q = pl_mu p" "pl_slots q = pl_slots p"
      "pl_calls q = pl_calls p" "pl_worker q = pl_worker p" "pl_started q = pl_started p"
    and srv: "served q = served p" and len: "length (pl_chan q) \<le> length (pl_chan p)"
    and g: "spoiled p \<Longrightarrow> spoiled q" "handed p ErrGracePeriodExpired \<Longrightarrow> handed q ErrGracePeriodExpired"
    and out: "\<And>c r. (c, r) \<in> set (pl_out q) \<Longrightarrow> pl_slots p c = Some r"
  shows "core_inv zero pg q"
proof -
  have s: "in_select q = in_select p" by (simp add: in_select_def f cong: option.case_cong)
  have "order_inv pg q" using inv g(1) len unfolding core_inv_def order_inv_def srv s f by auto
  moreover have "source_inv pg q" using inv g(1) unfolding core_inv_def source_inv_def f by auto
  moreover have "mutex_inv q" using inv g(2) unfolding core_inv_def mutex_inv_def f by blast
  moreover have "slot_inv zero pg q"
    using inv out unfolding core_inv_def slot_inv_def srv f by (elim conjE, intro conjI) simp_all
  ultimately show ?thesis by (simp add: core_inv_def)
qed

lemma core_inv_new:
  assumes inv: "core_inv zero pg p" and gone: "pl_worker p (pl_started p) = WGone"
  shows "core_inv zero pg (p\<lparr>pl_worker := (pl_worker p)(pl_started p := WTop), pl_started := Suc (pl_started p)\<rparr>)"
proof -
  let ?r = "set_worker (pl_started p) WTop p"
  let ?q = "?r\<lparr>pl_started := Suc (pl_started p)\<rparr>"
  have r: "core_inv zero pg ?r" using core_inv_quiet [OF inv, of "pl_started p" WTop] gone by simp
  have f: "served ?q = served ?r" "spoiled ?q = spoiled ?r" "handed ?q = handed ?r" "in_select ?q = in_select ?r"
    by (simp_all add: served_def yielded_def in_slot_def spoiled_def in_select_def handed_def pending_def fun_eq_iff
        cong: option.case_cong)
  have "order_inv pg ?q" using r unfolding core_inv_def order_inv_def f by simp
  moreover have "source_inv pg ?q"
    using r unfolding core_inv_def source_inv_def f by (auto simp: less_Suc_eq)
  moreover have "mutex_inv ?q" using r unfolding core_inv_def mutex_inv_def f by simp
  moreover have "slot_inv zero pg ?q" using r unfolding core_inv_def slot_inv_def f by simp
  ultimately have "core_inv zero pg ?q" by (simp add: core_inv_def)
  then show ?thesis by (simp add: set_worker_def)
qed

text \<open>A stop-only operation after a change of the consumer's phase.\<close>

lemma core_inv_phase:
  assumes inv: "core_inv zero pg p" and c: "in_slot p = []" "in_slot (p\<lparr>pl_cons := c\<rparr>) = []"
  shows "core_inv zero pg (p\<lparr>pl_cons := c\<rparr>)"
proof -
  have "(d, r) \<in> set (pl_out p) \<Longrightarrow> pl_slots p d = Some r" for d r by (rule core_slot(3) [OF inv])
  with c show ?thesis
    by (intro core_inv_served [OF inv]) (simp_all add: served_def yielded_def spoiled_def)
qed

lemma core_inv_setup:
  assumes inv: "map_inv zero pg p" and e: "setup_step pg b p = Some q"
  shows "core_inv zero pg q"
proof -
  have co: "core_inv zero pg p" using inv by (simp add: map_inv_core)
  have gone: "pl_worker p (pl_started p) = WGone" using inv by (simp add: map_inv_core stop_inv_def)
  have s0: "in_slot p = []" using e by (auto simp: setup_step_def in_slot_def split: consumer.splits)
  have ph: "core_inv zero pg (p\<lparr>pl_cons := c\<rparr>)" if "\<forall>d. c \<noteq> CSlot d" for c
    by (rule core_inv_phase [OF co s0]) (use that in \<open>auto simp: in_slot_def split: consumer.splits\<close>)
  show ?thesis
  proof (cases "pl_cons p")
    case CDefer
    obtain r st where a: "add_deferred close_fid (pl_st p) = (r, st)" by fastforce
    let ?p = "p\<lparr>pl_cons := CStart (sq_workers pg)\<rparr>"
    let ?r = "p\<lparr>pl_st := st, pl_cons := CStart (sq_workers pg)\<rparr>"
    have "stop_only ?p ?r" by (simp add: stop_only_def same_core_def)
    from core_inv_stop_only [OF this] ph have 1: "core_inv zero pg ?r" by simp
    from core_inv_stop_only [OF close_results_frame this] have 2: "core_inv zero pg (close_results pg ?r)" .
    have "q = (if r then ?r else close_results pg ?r)"
      using e CDefer a by (cases r) (simp_all add: setup_step_def)
    with 1 2 show ?thesis by simp
  next
    case (CStart k)
    show ?thesis
    proof (cases k)
      case 0
      with e CStart ph show ?thesis by (auto simp: setup_step_def)
    next
      case (Suc m)
      with e CStart have sw: "start_worker b (p\<lparr>pl_cons := CStart m\<rparr>) = Some q" by (simp add: setup_step_def)
      let ?p = "p\<lparr>pl_cons := CStart m\<rparr>"
      have p: "core_inv zero pg ?p" by (simp add: ph)
      show ?thesis
      proof (cases "is_stopping (pl_st ?p) \<or> \<not> b")
        case True
        with sw have "q = pool_errors [Some ErrStopped] ?p" by (simp add: start_worker_def)
        with core_inv_stop_only [OF stop_only_errors p] show ?thesis by simp
      next
        case False
        with sw obtain p1 r where a: "pool_apply 1 ?p = Some (p1, r)"
            "q = (if r then p1\<lparr>pl_worker := (pl_worker p1)(pl_started p1 := WTop), pl_started := Suc (pl_started p1)\<rparr>
                  else pool_errors [Some ErrStopped] p1)"
          by (auto simp: start_worker_def split: option.splits prod.splits bool.splits)
        have so: "stop_only ?p p1" by (rule stop_only_apply [OF a(1)])
        have p1: "core_inv zero pg p1" by (rule core_inv_stop_only [OF so p])
        have "pl_worker p1 (pl_started p1) = WGone" using so gone by (simp add: stop_only_def)
        with core_inv_new [OF p1] core_inv_stop_only [OF stop_only_errors p1] a(2) show ?thesis by simp
      qed
    qed
  next
    case CIdle
    with e have "pool_stop_idle (sq_grace pg) (p\<lparr>pl_cons := CRange\<rparr>) = Some q" by (simp add: setup_step_def)
    from core_inv_stop_only [OF stop_only_pool(4) [OF this] ph] show ?thesis by simp
  next
    case CBreak
    with e have "q = p\<lparr>pl_early := True, pl_cons := CStopping\<rparr>" by (simp add: setup_step_def)
    then show ?thesis
      using s0 by (intro core_inv_served [OF co])
        (auto simp: served_def yielded_def in_slot_def spoiled_def handed_def pending_def dest: core_slot(3) [OF co])
  next
    case CStopping
    with e have "pool_stop (sq_grace pg) (p\<lparr>pl_cons := CLock\<rparr>) = Some q" by (simp add: setup_step_def)
    from core_inv_stop_only [OF stop_only_pool(3) [OF this] ph] show ?thesis by simp
  next
    case CLock
    with e ph show ?thesis by (auto simp: setup_step_def split: if_splits)
  qed (use e in \<open>auto simp: setup_step_def\<close>)
qed

lemma core_inv_yield:
  assumes co: "core_inv zero pg p" and e: "yield_ordered b p = Some q"
  shows "core_inv zero pg q"
proof (cases "pl_cons p")
  case CRange
  show ?thesis
  proof (cases "pl_chan p")
    case Nil
    with e CRange have "q = p\<lparr>pl_cons := CFinal\<rparr>" by (simp add: yield_ordered_def split: if_splits)
    then show ?thesis using core_inv_phase [OF co] CRange by (simp add: in_slot_def)
  next
    case (Cons c cs)
    with e CRange have q: "q = p\<lparr>pl_chan := cs, pl_cons := CSlot c\<rparr>" by (simp add: yield_ordered_def)
    show ?thesis
      by (rule core_inv_served [OF co])
        (use q CRange Cons in \<open>auto simp: served_def yielded_def in_slot_def spoiled_def handed_def pending_def
           dest: core_slot(3) [OF co]\<close>)
  qed
next
  case (CSlot c)
  with e obtain r where r: "pl_slots p c = Some r"
      and q: "q = p\<lparr>pl_out := pl_out p @ [(c, r)], pl_cons := (if b then CRange else CBreak)\<rparr>"
    by (auto simp: yield_ordered_def split: option.splits)
  show ?thesis
    by (rule core_inv_served [OF co])
      (use q CSlot r in \<open>auto simp: served_def yielded_def in_slot_def spoiled_def handed_def pending_def
         dest: core_slot(3) [OF co]\<close>)
next
  case CFinal
  with e obtain x where "q = p\<lparr>pl_final := x, pl_cons := CStopping\<rparr>"
    by (auto simp: yield_ordered_def final_step_def split: option.splits)
  then show ?thesis
    by (intro core_inv_served [OF co])
      (use CFinal in \<open>auto simp: served_def yielded_def in_slot_def spoiled_def handed_def pending_def
         dest: core_slot(3) [OF co]\<close>)
qed (use e in \<open>auto simp: yield_ordered_def\<close>)

lemma map_inv_finish:
  assumes inv: "map_inv zero pg p" and e: "finish_step pg i p = Some q"
  shows "map_inv zero pg q"
proof -
  have st: "stop_inv p" and co: "core_inv zero pg p" using inv by (simp_all add: map_inv_core)
  have w: "finished_phase (pl_worker p i)" "pl_worker p i \<noteq> WGone"
    using e by (auto simp: finish_step_def finished_phase_def split: phase.splits)
  have "\<forall>i\<ge>pl_started p. pl_worker p i = WGone" using st by (simp add: stop_inv_def)
  with w(2) have "i < pl_started p" by (meson not_le)
  with co w(1) have f: "spoiled p \<or> sq_src pg (pl_pos p) = None"
    by (auto simp: core_inv_def source_inv_def)
  have s: "core_inv zero pg (set_worker i x p)" if "idle_phase x" for x
    using core_inv_quiet [OF co finished_idle [OF w(1)] that f] .
  have es: "core_inv zero pg (set_worker i x (pool_errors es p))" if "idle_phase x" for x es
    using core_inv_quiet [OF core_inv_stop_only [OF stop_only_errors co], where i = i and x = x] w(1) f that
    by (simp add: pool_errors_def spoiled_def handed_def pending_def finished_idle)
  have "core_inv zero pg q"
    using e s es
    by (auto simp: finish_step_def split: phase.splits option.splits err_handler.splits
        intro: core_inv_stop_only [OF stop_only_pool(3)] core_inv_stop_only [OF stop_only_apply])
  with finish_step_inv [OF st e] show ?thesis by (simp add: map_inv_core)
qed

lemma map_inv_worker:
  assumes inv: "map_inv zero pg p" and e: "map_worker zero pg a p = Some q"
  shows "map_inv zero pg q"
proof -
  have st: "stop_inv p" and co: "core_inv zero pg p" using inv by (simp_all add: map_inv_core)
  have gone: "\<forall>i\<ge>pl_started p. pl_worker p i = WGone" using st by (simp add: stop_inv_def)
  note act = stop_inv_worker [OF st]
  have quiet: "spoiled p" if "pl_done p \<noteq> None \<or> pl_closed p" "pl_worker p i \<noteq> WGone" for i
    using stop_inv_quiet [OF st that(2)] that(1) by (auto simp: spoiled_def closing_def)
  have graced: "handed p ErrGracePeriodExpired" if "pl_closed p" "pl_worker p i \<noteq> WGone" for i
    using stop_inv_quiet [OF st that(2)] that(1) by (auto simp: closing_def)
  show ?thesis
  proof (cases a)
    case (Worker i)
    show ?thesis
    proof (cases "pl_worker p i")
      case WTop
      with e Worker have q: "q = set_worker i (check_top p) p" by simp
      have c: "idle_phase (check_top p)" "check_top p \<noteq> WGone"
        by (auto simp: check_top_def split: option.splits)
      have f: "spoiled p" if "finished_phase (check_top p)"
        using that quiet [of i] WTop by (auto simp: check_top_def split: option.splits)
      from core_inv_quiet [OF co, of i "check_top p"] WTop c f act [of p i "check_top p"] q show ?thesis
        by (simp add: map_inv_core same_stop_def)
    next
      case WLock
      with e Worker have mu: "pl_mu p = None" by (simp split: if_splits)
      show ?thesis
      proof (cases "sq_src pg (pl_pos p)")
        case None
        let ?r = "p\<lparr>pl_idx := Suc (pl_idx p)\<rparr>"
        from None e Worker WLock mu have q: "q = set_worker i (WRet None) ?r"
          by (simp add: take_next_def Let_def)
        have "core_inv zero pg q"
          unfolding q by (rule core_inv_quiet [OF core_inv_idx [OF co None]]) (use WLock None in simp_all)
        moreover have "stop_inv q" unfolding q by (rule act) (use WLock in \<open>simp_all add: same_stop_def\<close>)
        ultimately show ?thesis by (simp add: map_inv_core)
      next
        case (Some x)
        let ?r = "p\<lparr>pl_idx := Suc (pl_idx p), pl_pos := Suc (pl_pos p), pl_mu := Some i\<rparr>"
        from Some e Worker WLock mu have q: "q = set_worker i (WSelect (pl_idx p) x) ?r"
          by (simp add: take_next_def Let_def)
        have "core_inv zero pg q" unfolding q by (rule core_inv_take [OF co mu WLock Some])
        moreover have "stop_inv q" unfolding q by (rule act) (use WLock in \<open>simp_all add: same_stop_def\<close>)
        ultimately show ?thesis by (simp add: map_inv_core)
      qed
    qed (use e Worker map_inv_finish [OF inv, of i q] in simp_all)
  next
    case (SelSend i)
    with e obtain c x where w: "pl_worker p i = WSelect c x" by (auto split: phase.splits)
    show ?thesis
    proof (cases "pl_closed p")
      case True
      with e SelSend w obtain y where q: "q = set_worker i (WRet y) p" by auto
      have "p\<lparr>pl_mu := pl_mu p\<rparr> = p" by simp
      have sp: "spoiled p" and h: "handed p ErrGracePeriodExpired"
        using quiet [of i] graced [OF True, of i] True w by simp_all
      have "p\<lparr>pl_mu := Some i\<rparr> = p" using core_select(1) [OF co w] by (cases p) simp
      with core_inv_drop [OF co w sp, where m = "Some i" and e = y] h
      have "core_inv zero pg q" unfolding q by simp
      moreover have "stop_inv q" unfolding q by (rule act) (use w in \<open>simp_all add: same_stop_def\<close>)
      ultimately show ?thesis by (simp add: map_inv_core)
    next
      case False
      with e SelSend w have room: "length (pl_chan p) < sq_workers pg"
          and q: "q = set_worker i (WCall c x) (p\<lparr>pl_chan := pl_chan p @ [c], pl_mu := None\<rparr>)"
        by (simp_all split: if_splits)
      have "core_inv zero pg q" unfolding q by (rule core_inv_send [OF co w room])
      moreover have "stop_inv q" unfolding q by (rule act) (use w in \<open>simp_all add: same_stop_def\<close>)
      ultimately show ?thesis by (simp add: map_inv_core)
    qed
  next
    case (SelBreak i)
    with e obtain c x where w: "pl_worker p i = WSelect c x" "pl_early p"
        and q: "q = set_worker i (WRet None) (p\<lparr>pl_mu := None\<rparr>)"
      by (auto split: phase.splits if_splits)
    have "core_inv zero pg q"
      unfolding q by (rule core_inv_drop [OF co w(1)]) (use w(2) in \<open>simp_all add: spoiled_def\<close>)
    moreover have "stop_inv q" unfolding q by (rule act) (use w in \<open>simp_all add: same_stop_def\<close>)
    ultimately show ?thesis by (simp add: map_inv_core)
  next
    case (SelDone i)
    with e obtain c x where w: "pl_worker p i = WSelect c x" "pl_done p \<noteq> None"
        and q: "q = set_worker i (WRet None) (p\<lparr>pl_mu := None\<rparr>)"
      by (auto split: phase.splits if_splits)
    have "core_inv zero pg q"
      unfolding q by (rule core_inv_drop [OF co w(1) quiet [of i]]) (use w in simp_all)
    moreover have "stop_inv q" unfolding q by (rule act) (use w in \<open>simp_all add: same_stop_def\<close>)
    ultimately show ?thesis by (simp add: map_inv_core)
  next
    case (CallEnds i out)
    with e obtain c x where w: "pl_worker p i = WCall c x" "sq_fn pg c x out"
        and q: "q = set_worker i WTop (p\<lparr>pl_slots := (pl_slots p)(c \<mapsto> map_result zero (sq_pcs pg) out),
          pl_calls := pl_calls p @ [c]\<rparr>)"
      by (auto split: phase.splits if_splits)
    have "core_inv zero pg q" unfolding q by (rule core_inv_call [OF co w])
    moreover have "stop_inv q" unfolding q by (rule act) (use w in \<open>simp_all add: same_stop_def\<close>)
    ultimately show ?thesis by (simp add: map_inv_core)
  qed (use e in auto)
qed

lemma map_inv_step:
  assumes inv: "map_inv zero pg p" and e: "map_step zero pg a p = Some q"
  shows "map_inv zero pg q"
proof -
  have st: "stop_inv p" and co: "core_inv zero pg p" using inv by (simp_all add: map_inv_core)
  have w: "map_inv zero pg q" if "map_worker zero pg a p = Some q" by (rule map_inv_worker [OF inv that])
  have n: "map_inv zero pg q" if "env_step pg a p = Some q"
    using env_step_inv [OF st that] core_inv_stop_only [OF env_step_frame [OF that] co]
    by (simp add: map_inv_core)
  have c: "map_inv zero pg q" if m: "map_consume pg b p = Some q" for b
  proof (cases "pl_cons p \<in> {CRange, CFinal} \<or> (\<exists>c. pl_cons p = CSlot c)")
    case True
    with m have y: "yield_ordered b p = Some q" by (simp add: map_consume_eq)
    have f: "same_stop p q" "pl_worker q = pl_worker p" "pl_started q = pl_started p" "pl_others q = pl_others p"
      using y by (auto simp: yield_ordered_def final_step_def same_stop_def
          split: consumer.splits option.splits list.splits if_splits)
    have "n_active q = n_active p" using f by (intro n_active_cong)
    moreover have "\<forall>i\<ge>pl_started p. pl_worker p i = WGone" using st by (simp add: stop_inv_def)
    ultimately have "stop_inv q" using f by (intro stop_inv_same [OF st]) simp_all
    with core_inv_yield [OF co y] show ?thesis by (simp add: map_inv_core)
  next
    case False
    with m have y: "setup_step pg b p = Some q" by (simp add: map_consume_eq)
    show ?thesis using setup_step_inv [OF st y] core_inv_setup [OF inv y] by (simp add: map_inv_core)
  qed
  show ?thesis using e w n c by (cases a) (simp_all add: map_step_def)
qed

end
