(* ===== verification/Seq_Flow.thy ===== *)
theory Seq_Flow
  imports Seq_Map
begin

text \<open>
  The flow of a \<open>Map\<close>: why its consumer always gets to the end unless a grace period expires. The
  internal actions are those of the pool's own goroutines, the callbacks that critical sections
  handed out included; the others belong to the environment.
\<close>

interpretation mapper: invariant_system
  "\<lambda>p. \<exists>par. p = new_pool par CDefer" "\<lambda>p q. \<exists>a. map_step zero pg a p = Some q" "map_inv zero pg" for zero pg
proof unfold_locales
  fix p :: "('a, 'b, nat) pool"
  assume "\<exists>par. p = new_pool par CDefer"
  then obtain par where p: "p = new_pool par CDefer" by blast
  have f: "wf_state (pl_st p)" "mu_cancel (pl_st p) = Some (Cleanup 0)" "mu_count (pl_st p) = 0"
      "n_active p = 0" "pending p = {}" "served p = []" "in_select p = []"
    by (simp_all add: p new_pool_def wf_new_state n_active_def pending_def served_def yielded_def
        in_slot_def in_select_def)
  then have "stop_inv p" by (simp add: stop_inv_def handed_def closing_def p new_pool_def)
  moreover have "order_inv pg p" using f by (simp add: order_inv_def p new_pool_def)
  moreover have "source_inv pg p" by (simp add: source_inv_def p new_pool_def)
  moreover have "mutex_inv p" by (simp add: mutex_inv_def p new_pool_def)
  moreover have "slot_inv zero pg p" using f by (simp add: slot_inv_def p new_pool_def)
  ultimately show "map_inv zero pg p" by (simp add: map_inv_def)
qed (blast intro: map_inv_step)

lemma map_run_steps:
  "map_run zero pg as p = Some q \<Longrightarrow> (\<lambda>p q. \<exists>a. map_step zero pg a p = Some q)\<^sup>*\<^sup>* p q"
proof (induction as arbitrary: p)
  case (Cons a as)
  then obtain r where "map_step zero pg a p = Some r" "map_run zero pg as r = Some q"
    by (auto split: option.splits)
  with Cons.IH show ?case by (metis (mono_tags, lifting) converse_rtranclp_into_rtranclp)
qed simp

lemma map_run_inv: "map_run zero pg as (new_pool par CDefer) = Some p \<Longrightarrow> map_inv zero pg p"
  by (rule mapper.inv_reachable [OF _ map_run_steps]) blast+

section \<open>The flow invariant\<close>

definition before_range :: "consumer \<Rightarrow> bool" where
  "before_range c \<longleftrightarrow> (case c of CDefer \<Rightarrow> True | CStart _ \<Rightarrow> True | CIdle \<Rightarrow> True | _ \<Rightarrow> False)"

definition after_range :: "consumer \<Rightarrow> bool" where
  "after_range c \<longleftrightarrow> (case c of CStopping \<Rightarrow> True | CLock \<Rightarrow> True | CDone \<Rightarrow> True | _ \<Rightarrow> False)"

definition to_start :: "('a, 'o) sq_prog \<Rightarrow> consumer \<Rightarrow> nat" where
  "to_start pg c = (case c of CDefer \<Rightarrow> sq_workers pg | CStart k \<Rightarrow> k | _ \<Rightarrow> 0)"

text \<open>
  The stopper's part: from \<open>s.Stop(StopOnIdle())\<close> on an idle state is stopping; the deferred \<open>close\<close> is
  registered or on its way (\<open>d\<close>; with \<open>g\<close>, unless a grace period expired); a handed-out cancel function is on
  its way.
\<close>

definition stopper_flow :: "bool \<Rightarrow> bool \<Rightarrow> ('a, 'r, 'm) pool \<Rightarrow> bool" where
  "stopper_flow d g p \<longleftrightarrow>
     (\<not> before_range (pl_cons p) \<longrightarrow> mu_stopping (pl_st p) \<or> mu_stopOnIdle (pl_st p) \<noteq> None)
     \<and> (d \<and> pl_cons p \<noteq> CDefer \<longrightarrow> closing p \<or> g \<and> handed p ErrGracePeriodExpired
          \<or> close_fid \<in> set (mu_deferred (pl_st p)) \<and> mu_cancel (pl_st p) \<noteq> None)
     \<and> (mu_cancel (pl_st p) = None \<longrightarrow> pl_done p \<noteq> None \<or> (\<exists>c e. CbCancel c e \<in> pending p))"

definition consumer_flow :: "('a, 'o) sq_prog \<Rightarrow> ('a, 'r, nat) pool \<Rightarrow> bool" where
  "consumer_flow pg p \<longleftrightarrow>
     pl_started p + to_start pg (pl_cons p) \<le> sq_workers pg
     \<and> (pl_cons p = CFinal \<longrightarrow> pl_closed p)
     \<and> (after_range (pl_cons p) \<longrightarrow> pl_early p \<or> pl_closed p)
     \<and> (pl_cons p = CFinal \<or> after_range (pl_cons p) \<longrightarrow> spoiled p \<or> pl_chan p = [])
     \<and> (\<forall>i c r. pl_worker p i \<noteq> WSend c r)"

text \<open>One critical section keeps the stopper's part.\<close>

lemma crit_step_idle:
  assumes "crit_step s fs t cbs" and "wf_core s" and "mu_stopping s \<or> mu_stopOnIdle s \<noteq> None"
  shows "mu_stopping t \<or> mu_stopOnIdle t \<noteq> None"
  using assms
proof (induction rule: crit_step.induct)
  case (applied now d s t cbs r)
  from applied(2) show ?case
  proof (cases rule: apply_locked_cases [of _ d now])
    case (idle g u c)
    with soft_stop_fields(1) [OF wf_core_count [OF applied(2) order_refl] idle(4)] applied(1) show ?thesis by simp
  next
    case (last u c)
    with hard_stop_fields(1,6) [OF last(5)] applied(1) show ?thesis by simp
  qed (use applied in auto)
next
  case (stop now g s t cbs)
  then show ?case unfolding stop_locked_def using soft_stop_fields(1) by blast
next
  case (stop_on_idle now g s t cbs)
  show ?case
  proof (cases "mu_count s = 0")
    case True
    with stop_on_idle have "soft_stop_locked now g (s\<lparr>mu_stopOnIdle := Some g\<rparr>) = Inr (t, cbs)"
      by (simp add: stop_on_idle_locked_def)
    from soft_stop_fields(1) [OF wf_core_idle [OF stop_on_idle(2)] this] show ?thesis by simp
  next
    case False
    with stop_on_idle show ?thesis by (auto simp: stop_on_idle_locked_def)
  qed
next
  case (grace s t cbs)
  with hard_stop_fields(1) [of ErrGracePeriodExpired s t cbs] show ?case
    by (simp add: grace_timer_locked_def)
qed (auto simp: add_deferred_def add_errors_eq add_stop_hook_locked_def unhook_locked_def Let_def
    split: if_splits option.splits)

lemma user_cbs_set: "f \<in> set (user_cbs cbs) \<longleftrightarrow> CbUser f \<in> set cbs"
  by (induction cbs rule: user_cbs.induct) auto

lemma cancels_in_pos: "0 < cancels_in cbs \<longleftrightarrow> (\<exists>c e. CbCancel c e \<in> set cbs)"
  by (induction cbs rule: cancels_in.induct) auto

text \<open>A deferred function stays registered or is handed out, by the hard stop at the latest.\<close>

lemma soft_stop_empties:
  assumes "wf_core s" and "soft_stop_locked now g s = Inr (t, cbs)" and "mu_cancel s \<noteq> None" "mu_cancel t = None"
  shows "mu_deferred t = []"
  using assms(1)
proof (cases rule: soft_stop_cases [of _ now g])
  case (hard e u d)
  with hard_stop_fields(10) [OF hard(2)] assms show ?thesis by simp
next
  case timer with assms show ?thesis by auto
qed

lemma crit_step_empties:
  assumes "crit_step s fs t cbs" and "wf_core s" and "mu_cancel s \<noteq> None" "mu_cancel t = None"
  shows "mu_deferred t = []"
  using assms
proof (induction rule: crit_step.induct)
  case (applied now d s t cbs r)
  from applied(2) show ?case
  proof (cases rule: apply_locked_cases [of _ d now])
    case (idle g u c)
    with soft_stop_empties [OF wf_core_count [OF applied(2) order_refl] idle(4)] applied(1,3,4)
    show ?thesis by simp
  next
    case (last u c)
    with hard_stop_fields(10) [OF last(5)] applied(1,3) show ?thesis by simp
  qed (use applied in auto)
next
  case (stop now g s t cbs)
  then show ?case unfolding stop_locked_def using soft_stop_empties by blast
next
  case (stop_on_idle now g s t cbs)
  show ?case
  proof (cases "mu_count s = 0")
    case True
    with stop_on_idle have "soft_stop_locked now g (s\<lparr>mu_stopOnIdle := Some g\<rparr>) = Inr (t, cbs)"
      by (simp add: stop_on_idle_locked_def)
    from soft_stop_empties [OF wf_core_idle [OF stop_on_idle(2)] this] stop_on_idle(3,4) show ?thesis by simp
  next
    case False
    with stop_on_idle show ?thesis by (auto simp: stop_on_idle_locked_def)
  qed
next
  case (grace s t cbs)
  with hard_stop_fields(10) [of ErrGracePeriodExpired s t cbs] show ?case
    by (simp add: grace_timer_locked_def)
qed (auto simp: add_deferred_def add_errors_eq add_stop_hook_locked_def unhook_locked_def Let_def
    split: if_splits option.splits)

lemma crit_step_deferred:
  assumes c: "crit_step s fs t cbs" and "wf_core s" and "f \<in> set (mu_deferred s) \<or> f \<in> set fs"
    and "mu_cancel s \<noteq> None"
  shows "CbUser f \<in> set cbs \<or> f \<in> set (mu_deferred t) \<and> mu_cancel t \<noteq> None"
proof -
  have "f \<in># mset (mu_deferred s) + mset fs" using assms(3) by auto
  with crit_step_moves [OF c assms(2)] have "f \<in># mset (mu_deferred t) + mset (user_cbs cbs)"
    by (simp add: moves_def)
  then have "f \<in> set (mu_deferred t) \<or> CbUser f \<in> set cbs" by (simp add: user_cbs_set)
  moreover have "mu_cancel t \<noteq> None" if "f \<in> set (mu_deferred t)"
    using crit_step_empties [OF c assms(2,4)] that by (cases "mu_cancel t") auto
  ultimately show ?thesis by blast
qed

text \<open>Preservation by a critical section, and by the execution of a callback.\<close>

definition sectioned :: "('a, 'r, 'm) pool \<Rightarrow> ('a, 'r, 'm) pool \<Rightarrow> bool" where
  "sectioned p q \<longleftrightarrow> (\<exists>fs cbs. crit_step (pl_st p) fs (pl_st q) cbs \<and> pl_cbs q = pl_cbs (with_cbs cbs p))
     \<and> pl_cancels q = pl_cancels p \<and> pl_done q = pl_done p \<and> pl_closed q = pl_closed p"

lemma sectionedI:
  "crit_step (pl_st p) fs (pl_st q) cbs \<Longrightarrow> pl_cbs q = pl_cbs (with_cbs cbs p) \<Longrightarrow> pl_cancels q = pl_cancels p
     \<Longrightarrow> pl_done q = pl_done p \<Longrightarrow> pl_closed q = pl_closed p \<Longrightarrow> sectioned p q"
  by (auto simp: sectioned_def)

lemma crit_step_refl: "crit_step s [] s []"
  using crit_step.errors [of s "[]"] by (simp add: add_errors_def)

lemma sectioned_same: "same_stop p q \<Longrightarrow> sectioned p q"
  by (rule sectionedI [where fs = "[]" and cbs = "[]"])
    (simp_all add: same_stop_def with_cbs_def crit_step_refl)

lemma sectioned_errors: "same_stop p r \<Longrightarrow> sectioned p (pool_errors es r)"
  by (rule sectionedI [where fs = "[]" and cbs = "[]"])
    (simp_all add: same_stop_def with_cbs_def pool_errors_def crit_step.errors)

lemma sectioned_locked:
  assumes "locked (Inr (st, cbs)) r = Some q" and "crit_step (pl_st p) fs st cbs"
    and "pl_cbs r = pl_cbs p" "pl_cancels r = pl_cancels p" "pl_done r = pl_done p" "pl_closed r = pl_closed p"
  shows "sectioned p q"
  using assms by (intro sectionedI [where fs = fs and cbs = cbs]) (auto simp: locked_def with_cbs_cbs)

lemma sectioned_stop: "pool_stop g r = Some q \<Longrightarrow> same_stop p r \<Longrightarrow> sectioned p q"
  by (auto simp: pool_stop_def locked_def with_cbs_cbs same_stop_def split: sum.splits
      intro!: sectionedI [OF crit_step.stop])

lemma sectioned_idle: "pool_stop_idle g r = Some q \<Longrightarrow> same_stop p r \<Longrightarrow> sectioned p q"
  by (auto simp: pool_stop_idle_def locked_def with_cbs_cbs same_stop_def split: sum.splits
      intro!: sectionedI [OF crit_step.stop_on_idle])

lemma sectioned_apply: "pool_apply d r = Some (q, b) \<Longrightarrow> same_stop p r \<Longrightarrow> sectioned p q"
  by (auto simp: pool_apply_def with_cbs_cbs same_stop_def split: sum.splits
      intro!: sectionedI [OF crit_step.applied])

lemma sectioned_after: "sectioned p q \<Longrightarrow> same_stop q r \<Longrightarrow> sectioned p r"
  by (auto simp: sectioned_def same_stop_def)

lemma stopper_flow_section:
  assumes fl: "stopper_flow d g p" and inv: "stop_inv p" and pq: "sectioned p q"
    and cons: "\<not> before_range (pl_cons q) \<Longrightarrow> before_range (pl_cons p)
        \<Longrightarrow> mu_stopping (pl_st q) \<or> mu_stopOnIdle (pl_st q) \<noteq> None"
      "d \<Longrightarrow> pl_cons q \<noteq> CDefer \<Longrightarrow> pl_cons p = CDefer \<Longrightarrow> closing q \<or> g \<and> handed q ErrGracePeriodExpired
         \<or> close_fid \<in> set (mu_deferred (pl_st q)) \<and> mu_cancel (pl_st q) \<noteq> None"
  shows "stopper_flow d g q"
proof -
  have core: "wf_core (pl_st p)" using inv by (simp add: stop_inv_def wf_state_core)
  from pq obtain fs cbs where c: "crit_step (pl_st p) fs (pl_st q) cbs"
    and q: "pl_cbs q = pl_cbs (with_cbs cbs p)" "pl_cancels q = pl_cancels p"
      "pl_done q = pl_done p" "pl_closed q = pl_closed p"
    by (auto simp: sectioned_def)
  have pend: "pending q = pending p \<union> set cbs"
    using q(1) pending_with_cbs [of cbs p] by (simp add: pending_def)
  have hand: "handed p e \<Longrightarrow> handed q e" and cl: "closing p \<Longrightarrow> closing q"
    and cl2: "CbUser close_fid \<in> set cbs \<Longrightarrow> closing q" for e
    using q(2,4) pend by (auto simp: handed_def closing_def)
  have 1: "mu_stopping (pl_st q) \<or> mu_stopOnIdle (pl_st q) \<noteq> None" if "\<not> before_range (pl_cons q)"
  proof (cases "before_range (pl_cons p)")
    case True
    with cons(1) that show ?thesis by blast
  next
    case False
    then have "mu_stopping (pl_st p) \<or> mu_stopOnIdle (pl_st p) \<noteq> None" using fl by (simp add: stopper_flow_def)
    then show ?thesis by (rule crit_step_idle [OF c core])
  qed
  have 2: "closing q \<or> g \<and> handed q ErrGracePeriodExpired
      \<or> close_fid \<in> set (mu_deferred (pl_st q)) \<and> mu_cancel (pl_st q) \<noteq> None"
    if d: "d" and dq: "pl_cons q \<noteq> CDefer"
  proof (cases "pl_cons p = CDefer")
    case True
    with cons(2) d dq show ?thesis by blast
  next
    case False
    then consider "closing p" | "g" "handed p ErrGracePeriodExpired"
      | "close_fid \<in> set (mu_deferred (pl_st p))" "mu_cancel (pl_st p) \<noteq> None"
      using fl d by (auto simp: stopper_flow_def)
    then show ?thesis
    proof cases
      case 3
      with crit_step_deferred [OF c core] cl2 show ?thesis by blast
    qed (use cl hand in blast)+
  qed
  have 3: "pl_done q \<noteq> None \<or> (\<exists>c e. CbCancel c e \<in> pending q)" if "mu_cancel (pl_st q) = None"
  proof (cases "mu_cancel (pl_st p)")
    case None
    with fl pend q(3) show ?thesis by (auto simp: stopper_flow_def)
  next
    case (Some x)
    with that crit_step_moves [OF c core] have "0 < cancels_in cbs" by (simp add: moves_def)
    then show ?thesis using pend cancels_in_pos by blast
  qed
  from 1 2 3 show ?thesis by (simp add: stopper_flow_def)
qed

lemma stopper_flow_cb:
  assumes fl: "stopper_flow d g p" and i: "i < length (pl_cbs p)" "pl_cbs p ! i = cb # cbs"
  shows "stopper_flow d g (run_cb pg cb (p\<lparr>pl_cbs := (pl_cbs p)[i := cbs]\<rparr>))"
proof -
  let ?p = "p\<lparr>pl_cbs := (pl_cbs p)[i := cbs]\<rparr>"
  let ?q = "run_cb pg cb ?p"
  have pend: "pending p = insert cb (pending ?p)" by (rule pending_pop [OF i]) simp
  have pq: "pending ?q = pending ?p"
    by (rule pending_cong, cases cb) (auto simp: close_results_def pool_errors_def)
  have st: "mu_cancel (pl_st ?q) = mu_cancel (pl_st p)" "mu_deferred (pl_st ?q) = mu_deferred (pl_st p)"
      "mu_stopping (pl_st ?q) = mu_stopping (pl_st p)" "mu_stopOnIdle (pl_st ?q) = mu_stopOnIdle (pl_st p)"
      "pl_cons ?q = pl_cons p"
    by (cases cb; simp add: close_results_def pool_errors_def add_errors_eq)+
  have h: "handed p e \<Longrightarrow> handed ?q e" for e
    using pend pq by (cases cb) (auto simp: handed_def close_results_def pool_errors_def)
  have c: "closing p \<Longrightarrow> closing ?q"
    using pend pq by (cases cb) (auto simp: closing_def close_results_def pool_errors_def)
  have d: "pl_done p \<noteq> None \<or> (\<exists>c e. CbCancel c e \<in> pending p)
      \<Longrightarrow> pl_done ?q \<noteq> None \<or> (\<exists>c e. CbCancel c e \<in> pending ?q)"
    using pend pq by (cases cb) (auto simp: close_results_def pool_errors_def split: option.splits)
  from fl h [of ErrGracePeriodExpired] c d show ?thesis unfolding stopper_flow_def st by blast
qed

lemma sectioned_env:
  assumes e: "env_step pg a p = Some q" and inv: "stop_inv p" and a: "\<And>i. a \<noteq> Callback i" "a \<noteq> EnvCancel"
  shows "sectioned p q"
proof (cases a)
  case (EnvStop g)
  with e show ?thesis by (auto intro: sectioned_stop simp: same_stop_def)
next
  case (EnvFire i)
  with e show ?thesis
    by (intro sectionedI [where fs = "[]" and cbs = "[]"])
      (auto simp: with_cbs_def crit_step.fired split: if_splits)
next
  case EnvTimer
  with e have l: "locked (Inr (grace_timer_locked (pl_st p))) (p\<lparr>pl_fired := pl_fired p - 1\<rparr>) = Some q"
      "0 < pl_fired p" by (simp_all split: if_splits)
  obtain st cbs where g: "grace_timer_locked (pl_st p) = (st, cbs)" by fastforce
  have "mu_stopping (pl_st p)" using inv l(2) by (simp add: stop_inv_def)
  from sectioned_locked [OF l(1) [unfolded g] crit_step.grace [OF this g]] show ?thesis by simp
next
  case (EnvErrors es)
  with e show ?thesis using sectioned_errors [of p p es] by (simp add: same_stop_def)
next
  case (EnvDefer f)
  with e have q: "q = p\<lparr>pl_st := snd (add_deferred f (pl_st p))\<rparr>" by (simp split: if_splits)
  obtain b st where d: "add_deferred f (pl_st p) = (b, st)" by fastforce
  show ?thesis
  proof (cases b)
    case True
    with d q show ?thesis
      by (intro sectionedI [where fs = "[f]" and cbs = "[]"]) (simp_all add: with_cbs_def crit_step.defer_kept)
  next
    case False
    with d have "st = pl_st p" by (auto simp: add_deferred_def split: if_splits)
    with d q show ?thesis by (intro sectioned_same) (simp add: same_stop_def)
  qed
next
  case (EnvTask b)
  show ?thesis
  proof (cases b)
    case True
    with e EnvTask obtain p1 r where "pool_apply 1 p = Some (p1, r)"
        "q = (if r then p1\<lparr>pl_others := Suc (pl_others p1)\<rparr> else p1)"
      by (auto split: option.splits)
    with sectioned_apply [of 1 p p1 r p] sectioned_after [of p p1 q] show ?thesis
      by (auto simp: same_stop_def split: if_splits)
  next
    case False
    with e EnvTask obtain r where "pool_apply (- 1) (p\<lparr>pl_others := pl_others p - 1\<rparr>) = Some (q, r)"
      by (auto split: if_splits)
    then show ?thesis by (rule sectioned_apply) (simp add: same_stop_def)
  qed
next
  case (EnvTick t)
  with e show ?thesis by (auto intro!: sectioned_same simp: same_stop_def split: if_splits)
next
  case (EnvParent x c)
  with e show ?thesis
    by (intro sectionedI [where fs = "[]" and cbs = "[]"]) (auto simp: with_cbs_def crit_step_refl split: if_splits)
qed (use e a in auto)

lemma stopper_flow_env:
  assumes fl: "stopper_flow d g p" and inv: "stop_inv p" and e: "env_step pg a p = Some q"
  shows "stopper_flow d g q"
proof (cases "(\<exists>i. a = Callback i) \<or> a = EnvCancel")
  case False
  then have "sectioned p q" using sectioned_env [OF e inv] by blast
  moreover have "pl_cons q = pl_cons p" using env_step_frame [OF e] by (simp add: stop_only_def)
  ultimately show ?thesis by (intro stopper_flow_section [OF fl inv]) auto
next
  case True
  then show ?thesis
  proof
    assume "\<exists>i. a = Callback i"
    with e stopper_flow_cb [OF fl] show ?thesis by (auto split: if_splits list.splits)
  next
    assume "a = EnvCancel"
    with e have "q = p\<lparr>pl_done := pl_parent p\<rparr>" "pl_parent p \<noteq> None" by (simp_all split: if_splits)
    with fl show ?thesis by (simp add: stopper_flow_def closing_def handed_def pending_def)
  qed
qed

lemma sectioned_finish:
  assumes "finish_step pg i p = Some q"
  shows "sectioned p q"
proof -
  have same: "same_stop p (set_worker i x p)" for x by (simp add: same_stop_def)
  have errs: "sectioned p (set_worker i x (pool_errors es p))" for x es
    by (rule sectioned_after [OF sectioned_errors [of p p es]]) (simp_all add: same_stop_def)
  show ?thesis
    using assms errs same
    by (auto simp: finish_step_def split: phase.splits option.splits err_handler.splits
        intro: sectioned_same sectioned_stop sectioned_apply)
qed

lemma start_worker_sectioned:
  assumes "start_worker b (p\<lparr>pl_cons := c\<rparr>) = Some q"
  shows "sectioned p q \<and> pl_cons q = c"
proof -
  let ?p = "p\<lparr>pl_cons := c\<rparr>"
  have same: "same_stop p ?p" by (simp add: same_stop_def)
  show ?thesis
  proof (cases "is_stopping (pl_st ?p) \<or> \<not> b")
    case True
    with assms have "q = pool_errors [Some ErrStopped] ?p" by (simp add: start_worker_def)
    with sectioned_errors [OF same] show ?thesis by (simp add: pool_errors_def)
  next
    case False
    with assms obtain p1 r where a: "pool_apply 1 ?p = Some (p1, r)"
        "q = (if r then p1\<lparr>pl_worker := (pl_worker p1)(pl_started p1 := WTop), pl_started := Suc (pl_started p1)\<rparr>
              else pool_errors [Some ErrStopped] p1)"
      by (auto simp: start_worker_def split: option.splits prod.splits bool.splits)
    have s: "sectioned p p1" by (rule sectioned_apply [OF a(1) same])
    have cons: "pl_cons p1 = c" using stop_only_apply [OF a(1)] by (simp add: stop_only_def)
    show ?thesis
    proof (cases r)
      case True
      with a(2) cons sectioned_after [OF s, of q] show ?thesis by (simp add: same_stop_def)
    next
      case False
      have "is_stopping (pl_st p)" if "pool_apply 1 ?p = Some (p1, False)"
        using that by (auto simp: pool_apply_def apply_locked_def is_stopping_def Let_def
            split: sum.splits if_splits option.splits prod.splits)
      with False a(1) \<open>\<not> (is_stopping (pl_st ?p) \<or> \<not> b)\<close> show ?thesis by simp
    qed
  qed
qed

lemma stopper_flow_setup:
  assumes fl: "stopper_flow d g p" and inv: "stop_inv p" and e: "setup_step pg b p = Some q"
    and early: "d \<Longrightarrow> pl_cons p = CDefer \<Longrightarrow> g \<or> mu_count (pl_st p) = 0"
  shows "stopper_flow d g q"
proof -
  have same: "same_stop p (p\<lparr>pl_cons := c\<rparr>)" for c by (simp add: same_stop_def)
  show ?thesis
  proof (cases "pl_cons p")
    case CDefer
    obtain r st where a: "add_deferred close_fid (pl_st p) = (r, st)" by fastforce
    show ?thesis
    proof (cases r)
      case True
      with e CDefer a have q: "q = p\<lparr>pl_st := st, pl_cons := CStart (sq_workers pg)\<rparr>" by (simp add: setup_step_def)
      have s: "sectioned p q"
        using a True q by (intro sectionedI [where fs = "[close_fid]" and cbs = "[]"])
          (simp_all add: with_cbs_def crit_step.defer_kept)
      have d: "close_fid \<in> set (mu_deferred st)" "mu_cancel st = mu_cancel (pl_st p)"
          "\<not> (mu_stopping (pl_st p) \<and> mu_count (pl_st p) = 0)"
        using a True by (auto simp: add_deferred_def split: if_splits)
      have "mu_cancel (pl_st p) = None \<Longrightarrow> d \<Longrightarrow> g \<and> handed p ErrGracePeriodExpired"
        using inv d(3) early CDefer by (auto simp: stop_inv_def wf_state_def wf_core_def)
      then have "d \<Longrightarrow> g \<and> handed q ErrGracePeriodExpired \<or> close_fid \<in> set (mu_deferred (pl_st q)) \<and> mu_cancel (pl_st q) \<noteq> None"
        using q d by (auto simp: handed_def pending_def)
      then show ?thesis by (intro stopper_flow_section [OF fl inv s]) (use q in \<open>auto simp: before_range_def\<close>)
    next
      case False
      with a have st: "st = pl_st p" by (auto simp: add_deferred_def split: if_splits)
      from False e CDefer a st have q: "q = close_results pg (p\<lparr>pl_cons := CStart (sq_workers pg)\<rparr>)"
        by (cases p) (simp add: setup_step_def)
      then have "closing q" "pl_cons q = CStart (sq_workers pg)" "pending q = pending p" "pl_done q = pl_done p"
          "mu_cancel (pl_st q) = mu_cancel (pl_st p)"
        by (auto simp: closing_def close_results_def pool_errors_def pending_def add_errors_eq)
      with fl show ?thesis by (simp add: stopper_flow_def before_range_def)
    qed
  next
    case (CStart k)
    show ?thesis
    proof (cases k)
      case 0
      with e CStart have "q = p\<lparr>pl_cons := CIdle\<rparr>" by (simp add: setup_step_def)
      with CStart show ?thesis
        by (intro stopper_flow_section [OF fl inv sectioned_same]) (auto simp: same_stop_def before_range_def)
    next
      case (Suc m)
      with e CStart have "start_worker b (p\<lparr>pl_cons := CStart m\<rparr>) = Some q" by (simp add: setup_step_def)
      from start_worker_sectioned [OF this] CStart show ?thesis
        by (intro stopper_flow_section [OF fl inv]) (auto simp: before_range_def)
    qed
  next
    case CIdle
    with e have i: "pool_stop_idle (sq_grace pg) (p\<lparr>pl_cons := CRange\<rparr>) = Some q" by (simp add: setup_step_def)
    have wf: "wf_state (pl_st p)" using inv by (simp add: stop_inv_def)
    from i obtain st cbs where st: "stop_on_idle_locked (pl_now p) (sq_grace pg) (pl_st p) = Inr (st, cbs)" "pl_st q = st"
      by (auto simp: pool_stop_idle_def locked_def split: sum.splits)
    from idle_count [OF wf st(1)] st(2) sectioned_idle [OF i same] CIdle show ?thesis
      by (intro stopper_flow_section [OF fl inv]) auto
  next
    case CBreak
    with e have "q = p\<lparr>pl_early := True, pl_cons := CStopping\<rparr>" by (simp add: setup_step_def)
    with CBreak show ?thesis
      by (intro stopper_flow_section [OF fl inv sectioned_same]) (auto simp: same_stop_def before_range_def)
  next
    case CStopping
    with e have s: "pool_stop (sq_grace pg) (p\<lparr>pl_cons := CLock\<rparr>) = Some q" by (simp add: setup_step_def)
    from sectioned_stop [OF this same] CStopping show ?thesis
      by (intro stopper_flow_section [OF fl inv]) (auto simp: before_range_def)
  next
    case CLock
    with e have "q = p\<lparr>pl_cons := CDone\<rparr>" by (simp add: setup_step_def split: if_splits)
    with CLock show ?thesis
      by (intro stopper_flow_section [OF fl inv sectioned_same]) (auto simp: same_stop_def before_range_def)
  qed (use e in \<open>auto simp: setup_step_def\<close>)
qed

lemma stopper_flow_step:
  assumes fl: "stopper_flow True True p" and inv: "stop_inv p" and e: "map_step zero pg a p = Some q"
  shows "stopper_flow True True q"
proof -
  have same: "stopper_flow True True q" if "same_stop p q" "before_range (pl_cons q) = before_range (pl_cons p)"
      "pl_cons p = CDefer \<longleftrightarrow> pl_cons q = CDefer"
    using that by (intro stopper_flow_section [OF fl inv sectioned_same]) auto
  have w: "stopper_flow True True q" if m: "map_worker zero pg a p = Some q"
  proof (cases "\<exists>i. finish_step pg i p = Some q")
    case True
    then obtain i where f: "finish_step pg i p = Some q" by blast
    have "pl_cons q = pl_cons p"
      using f by (auto simp: finish_step_def pool_errors_def pool_stop_def locked_def pool_apply_def
          split: phase.splits option.splits err_handler.splits sum.splits)
    then show ?thesis by (intro stopper_flow_section [OF fl inv sectioned_finish [OF f]]) auto
  next
    case False
    with m have "same_stop p q \<and> pl_cons q = pl_cons p"
      by (cases a) (auto simp: same_stop_def take_next_def Let_def split: phase.splits if_splits option.splits)
    with same show ?thesis by simp
  qed
  have c: "stopper_flow True True q" if m: "map_consume pg b p = Some q" for b
  proof (cases "pl_cons p \<in> {CRange, CFinal} \<or> (\<exists>c. pl_cons p = CSlot c)")
    case True
    with m have y: "yield_ordered b p = Some q" by (simp add: map_consume_eq)
    have "same_stop p q \<and> before_range (pl_cons q) = before_range (pl_cons p) \<and> pl_cons q \<noteq> CDefer \<and> pl_cons p \<noteq> CDefer"
      using y by (auto simp: yield_ordered_def final_step_def same_stop_def before_range_def
          split: consumer.splits option.splits list.splits if_splits)
    with same show ?thesis by blast
  next
    case False
    with m stopper_flow_setup [OF fl inv, of pg b q] show ?thesis by (simp add: map_consume_eq)
  qed
  have n: "stopper_flow True True q" if "env_step pg a p = Some q" by (rule stopper_flow_env [OF fl inv that])
  show ?thesis using e w c n by (cases a) (simp_all add: map_step_def del: env_step.simps)
qed

section \<open>The consumer's part\<close>

lemma finish_frame:
  assumes "finish_step pg i p = Some q"
  shows "\<exists>x. finished_phase x \<and> pl_worker q = (pl_worker p)(i := x) \<and> pl_cons q = pl_cons p
    \<and> pl_started q = pl_started p \<and> pl_chan q = pl_chan p \<and> pl_early q = pl_early p
    \<and> pl_closed q = pl_closed p \<and> pl_mu q = pl_mu p \<and> pl_pos q = pl_pos p \<and> later p q"
proof -
  have l: "later p r" if "stop_only (set_worker i x p) r" for x r
    using that by (simp add: stop_only_def later_def)
  have o: "\<exists>x. finished_phase x \<and> pl_worker r = (pl_worker p)(i := x) \<and> pl_cons r = pl_cons p
    \<and> pl_started r = pl_started p \<and> pl_chan r = pl_chan p \<and> pl_early r = pl_early p \<and> pl_closed r = pl_closed p
    \<and> pl_mu r = pl_mu p \<and> pl_pos r = pl_pos p \<and> later p r"
    if "stop_only (set_worker i x p) r" "finished_phase x" "pl_closed r = pl_closed p" for x r
    using that l [OF that(1)] by (auto simp: stop_only_def same_core_def)
  have so: "stop_only (set_worker i x p) (set_worker i x p)" for x
    by (simp add: stop_only_def same_core_def)
  have es: "stop_only (set_worker i x p) (set_worker i x (pool_errors es p))" for x es
    by (simp add: stop_only_def same_core_def pool_errors_def set_worker_def)
  have ce: "pl_closed (set_worker i x (pool_errors es p)) = pl_closed p" for x es
    by (simp add: pool_errors_def)
  show ?thesis
  proof (cases "pl_worker p i")
    case (WRet r)
    with assms o [OF so] o [OF es _ ce] show ?thesis
      by (cases r; cases "sq_handler pg") (auto simp: finish_step_def simp del: fun_upd_apply)
  next
    case WStop
    with assms have s: "pool_stop (sq_grace pg) (set_worker i WRelease p) = Some q" by (simp add: finish_step_def)
    then have "pl_closed q = pl_closed p" by (auto simp: pool_stop_def locked_def split: sum.splits)
    with o [OF stop_only_pool(3) [OF s]] show ?thesis by simp
  next
    case WRelease
    with assms obtain b where s: "pool_apply (- 1) (set_worker i WGone p) = Some (q, b)"
      by (auto simp: finish_step_def)
    then have "pl_closed q = pl_closed p" by (auto simp: pool_apply_def split: sum.splits)
    with o [OF stop_only_apply [OF s]] show ?thesis by simp
  qed (use assms in \<open>auto simp: finish_step_def\<close>)
qed

lemma env_closed: "env_step pg a p = Some q \<Longrightarrow> pl_closed p \<Longrightarrow> pl_closed q"
proof (cases a)
  case (Callback i)
  assume "env_step pg a p = Some q" "pl_closed p"
  with Callback obtain cb cbs where "q = run_cb pg cb (p\<lparr>pl_cbs := (pl_cbs p)[i := cbs]\<rparr>)"
    by (auto split: if_splits list.splits)
  then show ?thesis using \<open>pl_closed p\<close> by (cases cb) (auto simp: close_results_def pool_errors_def)
qed (auto simp: pool_stop_def locked_def pool_apply_def pool_errors_def split: if_splits sum.splits option.splits prod.splits)

lemma consumer_flow_frame:
  assumes "consumer_flow pg p" and "pl_cons q = pl_cons p" "pl_started q = pl_started p" "pl_chan q = pl_chan p"
    and "pl_early q = pl_early p" "pl_closed p \<Longrightarrow> pl_closed q" "spoiled p \<Longrightarrow> spoiled q"
    and "\<And>i c r. pl_worker q i = WSend c r \<Longrightarrow> pl_worker p i = WSend c r"
  shows "consumer_flow pg q"
  using assms unfolding consumer_flow_def by metis

lemma consumer_flow_env:
  assumes "consumer_flow pg p" and e: "env_step pg a p = Some q"
  shows "consumer_flow pg q"
proof -
  have so: "stop_only p q" by (rule env_step_frame [OF e])
  then have "spoiled p \<Longrightarrow> spoiled q" using later_spoiled by (auto simp: stop_only_def)
  with so env_closed [OF e] show ?thesis
    by (intro consumer_flow_frame [OF assms(1)]) (auto simp: stop_only_def same_core_def)
qed

lemma consumer_flow_worker:
  assumes fl: "consumer_flow pg p" and inv: "map_inv zero pg p" and e: "map_worker zero pg a p = Some q"
  shows "consumer_flow pg q"
proof (cases "\<exists>i. finish_step pg i p = Some q")
  case True
  then obtain i where "finish_step pg i p = Some q" by blast
  from finish_frame [OF this] obtain x where x: "finished_phase x" "pl_worker q = (pl_worker p)(i := x)"
      "pl_cons q = pl_cons p" "pl_started q = pl_started p" "pl_chan q = pl_chan p" "pl_early q = pl_early p"
      "pl_closed q = pl_closed p" "later p q" by blast
  then show ?thesis
    using later_spoiled [OF x(8)]
    by (intro consumer_flow_frame [OF fl]) (auto simp: finished_phase_def split: if_splits)
next
  case False
  have f: "pl_cons q = pl_cons p" "pl_started q = pl_started p" "pl_early q = pl_early p" "pl_closed q = pl_closed p"
      "pl_parent q = pl_parent p" "pl_cbs q = pl_cbs p" "pl_cancels q = pl_cancels p"
      "\<And>i c r. pl_worker q i = WSend c r \<Longrightarrow> pl_worker p i = WSend c r"
    using e False
    by (cases a; auto simp: take_next_def check_top_def Let_def split: phase.splits if_splits option.splits)+
  have sp: "spoiled q = spoiled p" using f by (simp add: spoiled_def handed_def pending_def)
  show ?thesis
  proof (cases "pl_chan q = pl_chan p")
    case True
    with f sp show ?thesis by (intro consumer_flow_frame [OF fl]) auto
  next
    case ch: False
    then obtain i where "a = SelSend i" "\<not> pl_closed p"
      using e False
      by (cases a) (auto simp: take_next_def check_top_def Let_def split: phase.splits if_splits option.splits)
    with fl f sp show ?thesis
      unfolding consumer_flow_def by (metis (no_types, lifting) consumer.distinct spoiled_def)
  qed
qed

lemma consumer_flow_yield:
  assumes fl: "consumer_flow pg p" and e: "yield_ordered b p = Some q"
  shows "consumer_flow pg q"
proof -
  have f: "pl_started q = pl_started p" "pl_early q = pl_early p" "pl_closed q = pl_closed p"
      "pl_worker q = pl_worker p" "spoiled q = spoiled p"
    using e by (auto simp: yield_ordered_def final_step_def spoiled_def handed_def pending_def
        split: consumer.splits option.splits list.splits if_splits)
  show ?thesis
  proof (cases "pl_cons p")
    case CRange
    with e have "(\<exists>c. pl_cons q = CSlot c) \<or> pl_cons q = CFinal \<and> pl_chan q = [] \<and> pl_closed p"
      by (auto simp: yield_ordered_def split: list.splits if_splits)
    with fl CRange f show ?thesis by (auto simp: consumer_flow_def to_start_def after_range_def)
  next
    case (CSlot c)
    with e have "pl_cons q = CRange \<or> pl_cons q = CBreak"
      by (cases b) (auto simp: yield_ordered_def split: option.splits)
    with fl CSlot f show ?thesis by (auto simp: consumer_flow_def to_start_def after_range_def)
  next
    case CFinal
    with e have "pl_cons q = CStopping" "pl_chan q = pl_chan p"
      by (auto simp: yield_ordered_def final_step_def split: option.splits)
    with fl CFinal f show ?thesis by (simp add: consumer_flow_def to_start_def after_range_def)
  qed (use e in \<open>auto simp: yield_ordered_def\<close>)
qed

lemma start_worker_frame:
  assumes "start_worker b r = Some q"
  shows "pl_started q \<le> Suc (pl_started r) \<and> pl_cons q = pl_cons r
    \<and> (\<forall>i. pl_worker q i = pl_worker r i \<or> pl_worker q i = WTop)"
proof (cases "is_stopping (pl_st r) \<or> \<not> b")
  case True
  with assms have "q = pool_errors [Some ErrStopped] r" by (simp add: start_worker_def)
  then show ?thesis by (simp add: pool_errors_def)
next
  case False
  with assms obtain p1 x where a: "pool_apply 1 r = Some (p1, x)"
      "q = (if x then p1\<lparr>pl_worker := (pl_worker p1)(pl_started p1 := WTop), pl_started := Suc (pl_started p1)\<rparr>
            else pool_errors [Some ErrStopped] p1)"
    by (auto simp: start_worker_def split: option.splits prod.splits bool.splits)
  from stop_only_apply [OF a(1)] a(2) show ?thesis
    by (cases x) (auto simp: stop_only_def pool_errors_def)
qed

lemma consumer_flow_setup:
  assumes fl: "consumer_flow pg p" and e: "setup_step pg b p = Some q"
  shows "consumer_flow pg q"
proof (cases "pl_cons p")
  case CDefer
  with e have "pl_cons q = CStart (sq_workers pg)" "pl_started q = pl_started p" "pl_worker q = pl_worker p"
    by (auto simp: setup_step_def close_results_def pool_errors_def split: prod.splits bool.splits)
  with fl CDefer show ?thesis by (simp add: consumer_flow_def to_start_def after_range_def)
next
  case (CStart k)
  show ?thesis
  proof (cases k)
    case 0
    with e CStart have "q = p\<lparr>pl_cons := CIdle\<rparr>" by (simp add: setup_step_def)
    with fl CStart show ?thesis by (simp add: consumer_flow_def to_start_def after_range_def)
  next
    case (Suc m)
    with e CStart have "start_worker b (p\<lparr>pl_cons := CStart m\<rparr>) = Some q" by (simp add: setup_step_def)
    note w = start_worker_frame [OF this]
    have "pl_worker q i \<noteq> WSend c r" for i c r
    proof -
      have "pl_worker p i \<noteq> WSend c r" using fl unfolding consumer_flow_def by blast
      moreover have "pl_worker q i = pl_worker p i \<or> pl_worker q i = WTop" using w by simp
      ultimately show ?thesis by auto
    qed
    moreover have "pl_started q + m \<le> sq_workers pg"
      using w fl CStart Suc by (simp add: consumer_flow_def to_start_def)
    ultimately show ?thesis using w by (simp add: consumer_flow_def to_start_def after_range_def)
  qed
next
  case CIdle
  with e have i: "pool_stop_idle (sq_grace pg) (p\<lparr>pl_cons := CRange\<rparr>) = Some q" by (simp add: setup_step_def)
  have "pl_cons q = CRange" "pl_started q = pl_started p" "pl_worker q = pl_worker p"
    using stop_only_pool(4) [OF i] by (simp_all add: stop_only_def)
  with fl CIdle show ?thesis by (simp add: consumer_flow_def to_start_def after_range_def)
next
  case CBreak
  with e have "q = p\<lparr>pl_early := True, pl_cons := CStopping\<rparr>" by (simp add: setup_step_def)
  with fl CBreak show ?thesis by (simp add: consumer_flow_def to_start_def after_range_def spoiled_def)
next
  case CStopping
  with e have s: "pool_stop (sq_grace pg) (p\<lparr>pl_cons := CLock\<rparr>) = Some q" by (simp add: setup_step_def)
  have so: "stop_only (p\<lparr>pl_cons := CLock\<rparr>) q" by (rule stop_only_pool(3) [OF s])
  have "pl_closed q = pl_closed p" using s by (auto simp: pool_stop_def locked_def split: sum.splits)
  moreover have "spoiled p \<Longrightarrow> spoiled q"
    using so later_spoiled [of "p\<lparr>pl_cons := CLock\<rparr>" q] by (simp add: stop_only_def spoiled_def)
  ultimately show ?thesis
    using fl CStopping so by (auto simp: consumer_flow_def to_start_def after_range_def stop_only_def same_core_def)
next
  case CLock
  with e have "q = p\<lparr>pl_cons := CDone\<rparr>" by (simp add: setup_step_def split: if_splits)
  with fl CLock show ?thesis by (simp add: consumer_flow_def to_start_def after_range_def spoiled_def)
qed (use e in \<open>auto simp: setup_step_def\<close>)

definition flow_inv :: "'r \<Rightarrow> ('a, 'r \<times> goerr option) sq_prog \<Rightarrow> ('a, 'r, nat) pool \<Rightarrow> bool" where
  "flow_inv zero pg p \<longleftrightarrow> map_inv zero pg p \<and> stopper_flow True True p \<and> consumer_flow pg p"

lemma flow_inv_step:
  assumes fl: "flow_inv zero pg p" and e: "map_step zero pg a p = Some q"
  shows "flow_inv zero pg q"
proof -
  have inv: "map_inv zero pg p" "stopper_flow True True p" and c: "consumer_flow pg p"
    using fl by (simp_all add: flow_inv_def)
  have w: "consumer_flow pg q" if "map_worker zero pg a p = Some q"
    by (rule consumer_flow_worker [OF c inv(1) that])
  have n: "consumer_flow pg q" if "env_step pg a p = Some q" by (rule consumer_flow_env [OF c that])
  have m: "consumer_flow pg q" if "map_consume pg b p = Some q" for b
    using that consumer_flow_yield [OF c] consumer_flow_setup [OF c]
    by (auto simp: map_consume_eq split: if_splits)
  have "consumer_flow pg q"
    using e w n m by (cases a) (simp_all add: map_step_def del: env_step.simps map_worker.simps)
  moreover have "stopper_flow True True q"
    using inv by (intro stopper_flow_step [OF inv(2) _ e]) (simp add: map_inv_def)
  ultimately show ?thesis using map_inv_step [OF inv(1) e] by (simp add: flow_inv_def)
qed

interpretation flow: invariant_system
  "\<lambda>p. \<exists>par. p = new_pool par CDefer" "\<lambda>p q. \<exists>a. map_step zero pg a p = Some q" "flow_inv zero pg" for zero pg
proof unfold_locales
  fix p :: "('a, 'b, nat) pool"
  assume i: "\<exists>par. p = new_pool par CDefer"
  then have "stopper_flow True True p" "consumer_flow pg p"
    by (auto simp: stopper_flow_def consumer_flow_def new_pool_def before_range_def to_start_def after_range_def)
  with mapper.inv_init [OF i] show "flow_inv zero pg p" by (simp add: flow_inv_def)
qed (blast intro: flow_inv_step)

lemma map_run_flow: "map_run zero pg as (new_pool par CDefer) = Some p \<Longrightarrow> flow_inv zero pg p"
  by (rule flow.inv_reachable [OF _ map_run_steps]) blast+

end
