(* ===== verification/Seq_Progress.thy ===== *)
theory Seq_Progress
  imports Seq_Flow
begin

text \<open>
  Liveness of \<open>Map\<close>. Some internal action is enabled until the consumer has finished, and every internal
  action makes a measure smaller; so the iterator returns, whatever the schedule, unless the
  environment keeps interfering or the grace period expires.
\<close>

fun internal :: "'o action \<Rightarrow> bool" where
  "internal (Consume b) = True"
| "internal (Worker i) = True"
| "internal (SelSend i) = True"
| "internal (SelBreak i) = True"
| "internal (SelDone i) = True"
| "internal (CallEnds i out) = True"
| "internal (Callback i) = True"
| "internal _ = False"

section \<open>Enabled actions\<close>

lemma pool_stop_total: "wf_state (pl_st p) \<Longrightarrow> \<exists>q. pool_stop g p = Some q"
  using soft_stop_no_crash [OF wf_state_core, of "pl_st p" "pl_now p" g]
  by (auto simp: pool_stop_def stop_locked_def locked_def)

lemma pool_stop_idle_total: "wf_state (pl_st p) \<Longrightarrow> \<exists>q. pool_stop_idle g p = Some q"
  using soft_stop_no_crash [OF wf_core_idle [OF wf_state_core], of "pl_st p" "pl_now p" g "Some g"]
  by (cases "mu_count (pl_st p) = 0") (auto simp: pool_stop_idle_def stop_on_idle_locked_def locked_def)

lemma pool_apply_total:
  assumes "wf_state (pl_st p)" and "0 \<le> mu_count (pl_st p) + d"
  shows "\<exists>q b. pool_apply d p = Some (q, b)"
proof (cases "apply_locked (pl_now p) d (pl_st p)")
  case (Inl c)
  with apply_locked_crash_iff [OF wf_state_core [OF assms(1)], of "pl_now p" d] assms(2) show ?thesis by auto
next
  case (Inr x)
  then show ?thesis by (cases x) (simp add: pool_apply_def)
qed

lemma wf_count_nonneg: "wf_state s \<Longrightarrow> 0 \<le> mu_count s"
  by (simp add: wf_state_def wf_core_def)

lemma start_worker_total: "wf_state (pl_st p) \<Longrightarrow> \<exists>q. start_worker b p = Some q"
  using pool_apply_total [of p 1] wf_count_nonneg [of "pl_st p"]
  by (cases "is_stopping (pl_st p) \<or> \<not> b") (auto simp: start_worker_def split: bool.splits)

lemma finish_step_total:
  assumes inv: "stop_inv p" and w: "finished_phase (pl_worker p i)" "pl_worker p i \<noteq> WGone"
  shows "\<exists>q. finish_step pg i p = Some q"
proof (cases "pl_worker p i")
  case (WRet r)
  then show ?thesis by (cases r; cases "sq_handler pg") (auto simp: finish_step_def)
next
  case WStop
  with inv pool_stop_total [of "set_worker i WRelease p" "sq_grace pg"] show ?thesis
    by (simp add: finish_step_def stop_inv_def)
next
  case WRelease
  have "0 < n_active p" using w(2) inv by (intro n_active_pos) (auto simp: stop_inv_def)
  then have "0 \<le> mu_count (pl_st p) + - 1" using inv by (simp add: stop_inv_def)
  with inv pool_apply_total [of "set_worker i WGone p" "- 1"] WRelease show ?thesis
    by (auto simp: finish_step_def stop_inv_def)
qed (use w in \<open>auto simp: finished_phase_def\<close>)

lemma setup_step_total:
  assumes "wf_state (pl_st p)" and "pl_cons p \<in> {CDefer, CIdle, CBreak, CStopping} \<or> (\<exists>k. pl_cons p = CStart k)"
  shows "\<exists>q. setup_step pg b p = Some q"
proof (cases "pl_cons p")
  case CDefer
  then show ?thesis by (cases "add_deferred close_fid (pl_st p)") (auto simp: setup_step_def split: bool.splits)
next
  case (CStart k)
  with start_worker_total [of "p\<lparr>pl_cons := CStart (k - 1)\<rparr>" b] assms(1) show ?thesis
    by (cases k) (auto simp: setup_step_def)
next
  case CIdle
  with pool_stop_idle_total [of "p\<lparr>pl_cons := CRange\<rparr>"] assms(1) show ?thesis by (simp add: setup_step_def)
next
  case CStopping
  with pool_stop_total [of "p\<lparr>pl_cons := CLock\<rparr>"] assms(1) show ?thesis by (simp add: setup_step_def)
qed (use assms in \<open>auto simp: setup_step_def\<close>)

lemma callback_enabled: "cb \<in> pending p \<Longrightarrow> \<exists>i q. map_step zero pg (Callback i) p = Some q"
proof -
  assume "cb \<in> pending p"
  then obtain cbs where "cbs \<in> set (pl_cbs p)" "cb \<in> set cbs" by (auto simp: pending_def)
  then obtain i where i: "i < length (pl_cbs p)" "pl_cbs p ! i = cbs" by (auto simp: in_set_conv_nth)
  with \<open>cb \<in> set cbs\<close> have "map_step zero pg (Callback i) p \<noteq> None"
    by (cases cbs) (auto simp: map_step_def)
  then show ?thesis by blast
qed

text \<open>A worker that still runs can go on, or the one that holds the mutex can.\<close>

lemma worker_enabled:
  assumes fl: "flow_inv zero pg p" and g: "\<not> handed p ErrGracePeriodExpired"
    and total: "\<And>c x. sq_src pg c = Some x \<Longrightarrow> \<exists>out. sq_fn pg c x out"
    and w: "pl_worker p i \<noteq> WGone" and room: "pl_early p \<or> length (pl_chan p) < sq_workers pg"
  shows "\<exists>a q. internal a \<and> a \<noteq> Consume False \<and> map_step zero pg a p = Some q"
proof -
  have st: "stop_inv p" and co: "core_inv zero pg p" and cf: "consumer_flow pg p"
    using fl by (auto simp: flow_inv_def map_inv_core)
  have closed: "\<not> pl_closed p" using stop_inv_quiet [OF st w g] by (auto simp: closing_def)
  have sel: ?thesis if s: "pl_worker p j = WSelect c x" for j c x
  proof (cases "pl_early p")
    case True
    with s have "map_step zero pg (SelBreak j) p \<noteq> None" by (simp add: map_step_def)
    then show ?thesis by (intro exI [of _ "SelBreak j"]) auto
  next
    case False
    with s closed room have "map_step zero pg (SelSend j) p \<noteq> None" by (simp add: map_step_def)
    then show ?thesis by (intro exI [of _ "SelSend j"]) auto
  qed
  have wk: ?thesis if "map_worker zero pg (Worker i) p \<noteq> None"
    using that internal.simps(2) [of i] unfolding map_step_def
    by (intro exI [of _ "Worker i"]) (auto simp del: map_worker.simps)
  show ?thesis
  proof (cases "pl_worker p i")
    case WTop
    then show ?thesis by (intro wk) simp
  next
    case WLock
    show ?thesis
    proof (cases "pl_mu p")
      case None
      with WLock show ?thesis
        by (intro wk) (auto simp: take_next_def Let_def split: option.splits)
    next
      case (Some j)
      with core_mutex(2) [OF co this] g sel show ?thesis by blast
    qed
  next
    case (WSelect c x)
    then show ?thesis by (rule sel)
  next
    case (WCall c x)
    with total core_call(1) [OF co WCall] obtain out where "sq_fn pg c x out" by blast
    with WCall have "map_step zero pg (CallEnds i out) p \<noteq> None" by (simp add: map_step_def)
    then show ?thesis by (intro exI [of _ "CallEnds i out"]) auto
  next
    case (WSend c r)
    then show ?thesis using cf unfolding consumer_flow_def by blast
  next
    case (WRet r)
    with finish_step_total [OF st, of i pg] show ?thesis by (intro wk) auto
  next
    case WStop
    with finish_step_total [OF st, of i pg] show ?thesis by (intro wk) auto
  next
    case WRelease
    with finish_step_total [OF st, of i pg] show ?thesis by (intro wk) auto
  next
    case WGone
    with w show ?thesis by simp
  qed
qed

lemma map_progress:
  assumes fl: "flow_inv zero pg p" and g: "\<not> handed p ErrGracePeriodExpired" and o: "pl_others p = 0"
    and total: "\<And>c x. sq_src pg c = Some x \<Longrightarrow> \<exists>out. sq_fn pg c x out"
    and cons: "pl_cons p \<noteq> CDone"
  shows "\<exists>a q. internal a \<and> a \<noteq> Consume False \<and> map_step zero pg a p = Some q"
proof -
  have st: "stop_inv p" and co: "core_inv zero pg p" and cf: "consumer_flow pg p" and sf: "stopper_flow True True p"
    using fl by (auto simp: flow_inv_def map_inv_core)
  have wf: "wf_state (pl_st p)" using st by (simp add: stop_inv_def)
  have gone: "\<forall>i\<ge>pl_started p. pl_worker p i = WGone" using st by (simp add: stop_inv_def)
  have cons1: ?thesis if "map_consume pg True p \<noteq> None"
    using that by (intro exI [of _ "Consume True"]) (auto simp: map_step_def)
  have setup1: ?thesis if "pl_cons p \<in> {CDefer, CIdle, CBreak, CStopping} \<or> (\<exists>k. pl_cons p = CStart k)"
    using setup_step_total [OF wf that, of pg True] that
    by (intro cons1) (auto simp: map_consume_eq)
  have cb: ?thesis if "c \<in> pending p" for c
    using callback_enabled [OF that, of zero pg] internal.simps(7) by blast
  note wk = worker_enabled [OF fl g total]
  have cancelled: ?thesis if "mu_cancel (pl_st p) = None" "pl_cons p = CFinal"
  proof (cases "pl_done p")
    case None
    with sf that cb show ?thesis unfolding stopper_flow_def by blast
  next
    case (Some x)
    with that show ?thesis by (intro cons1) (auto simp: map_consume_eq yield_ordered_def final_step_def split: prod.splits)
  qed
  show ?thesis
  proof (cases "pl_cons p")
    case CRange
    show ?thesis
    proof (cases "pl_chan p = [] \<and> \<not> pl_closed p")
      case False
      with CRange show ?thesis
        by (intro cons1) (auto simp: map_consume_eq yield_ordered_def split: list.splits)
    next
      case opn: True
      show ?thesis
      proof (cases "\<exists>i. pl_worker p i \<noteq> WGone")
        case True
        then obtain i where i: "pl_worker p i \<noteq> WGone" by blast
        with gone have "i < pl_started p" by (meson not_le)
        then have "0 < sq_workers pg" using cf by (simp add: consumer_flow_def)
        with opn wk i show ?thesis by auto
      next
        case False
        then have "n_active p = 0" by (simp add: n_active_def)
        with st o have c0: "mu_count (pl_st p) = 0" by (simp add: stop_inv_def)
        have "mu_stopping (pl_st p) \<or> mu_stopOnIdle (pl_st p) \<noteq> None"
          using sf CRange by (simp add: stopper_flow_def before_range_def)
        with wf c0 have "mu_cancel (pl_st p) = None" by (auto simp: wf_state_def)
        with sf g CRange have "closing p" unfolding stopper_flow_def by auto
        with opn cb show ?thesis by (auto simp: closing_def)
      qed
    qed
  next
    case (CSlot c)
    show ?thesis
    proof (cases "pl_slots p c")
      case (Some r)
      with CSlot show ?thesis by (intro cons1) (auto simp: map_consume_eq yield_ordered_def)
    next
      case None
      have "c \<in> set (served p)" using CSlot by (simp add: served_def in_slot_def)
      with None core_slot(2) [OF co] obtain i x where w: "pl_worker p i = WCall c x" by blast
      with total core_call(1) [OF co w] obtain out where "sq_fn pg c x out" by blast
      with w have "map_step zero pg (CallEnds i out) p \<noteq> None" by (simp add: map_step_def)
      then show ?thesis by (intro exI [of _ "CallEnds i out"]) auto
    qed
  next
    case CFinal
    then have "closing p" using cf by (simp add: consumer_flow_def closing_def)
    with st CFinal show ?thesis by (intro cancelled) (auto simp: stop_inv_def)
  next
    case CLock
    show ?thesis
    proof (cases "pl_mu p")
      case None
      with CLock show ?thesis by (intro cons1) (simp add: map_consume_eq setup_step_def)
    next
      case (Some i)
      with core_mutex(2) [OF co this] g obtain c x where w: "pl_worker p i = WSelect c x" by blast
      then have "\<not> pl_closed p" using stop_inv_quiet [OF st, of i] g by (auto simp: closing_def)
      with cf CLock have "pl_early p" by (simp add: consumer_flow_def after_range_def)
      with wk [of i] w show ?thesis by auto
    qed
  qed (use cons setup1 in auto)
qed

end
