(* ===== verification/Seq_Measure.thy ===== *)
theory Seq_Measure
  imports Seq_Progress
begin

text \<open>
  The measure that every internal action of a \<open>Map\<close> makes smaller: what is left of the input, where
  the workers and the consumer are, the queued results, and the callbacks that are pending or still
  registered.
\<close>

section \<open>Callbacks to come\<close>

definition hook_load :: "'cfg gostate \<Rightarrow> nat" where
  "hook_load s = (case mu_stopHooks s of Some (h # hs) \<Rightarrow> 1 | _ \<Rightarrow> 0)"

definition load :: "'cfg gostate \<Rightarrow> nat" where
  "load s = (if mu_cancel s = None then 0 else 1) + length (mu_deferred s) + hook_load s"

lemma hard_stop_load: "hard_stop_locked e s = (t, cbs) \<Longrightarrow> load t + length cbs = load s"
  using hard_stop_fields(4,5,10,11) [of e s t cbs]
  by (auto simp: load_def hook_load_def split: option.splits)

lemma soft_prepared_load: "load (soft_prepared s) + length (soft_hooks s) = load s"
  by (auto simp: load_def hook_load_def soft_prepared_def soft_hooks_def split: option.splits list.splits)

lemma update_grace_timer_load [simp]: "load (update_grace_timer_locked now g s) = load s"
  by (simp add: load_def hook_load_def)

lemma soft_stop_load:
  assumes "wf_core s" and "soft_stop_locked now g s = Inr (t, cbs)"
  shows "load t + length cbs = load s"
  using assms(1)
proof (cases rule: soft_stop_cases [of _ now g])
  case (hard e u d)
  with hard_stop_load [OF hard(2)] soft_prepared_load [of s] assms(2) show ?thesis by auto
next
  case timer
  with soft_prepared_load [of s] assms(2) show ?thesis by auto
qed

lemma apply_load:
  assumes "wf_core s" and "apply_locked now d s = Inr (t, cbs, True)"
  shows "load t + length cbs = load s"
  using assms(1)
proof (cases rule: apply_locked_cases [of _ d now])
  case plain with assms(2) show ?thesis by (auto simp: load_def hook_load_def)
next
  case (idle g u c)
  with soft_stop_load [OF wf_core_count [OF assms(1) order_refl] idle(4)] assms(2)
  show ?thesis by (simp add: load_def hook_load_def)
next
  case (last u c)
  with hard_stop_load [OF last(5)] assms(2) show ?thesis by (simp add: load_def hook_load_def)
qed (use assms in auto)

lemma idle_load:
  assumes "wf_core s" and "stop_on_idle_locked now g s = Inr (t, cbs)"
  shows "load t + length cbs = load s"
proof (cases "mu_count s = 0")
  case True
  with assms(2) have "soft_stop_locked now g (s\<lparr>mu_stopOnIdle := Some g\<rparr>) = Inr (t, cbs)"
    by (simp add: stop_on_idle_locked_def)
  from soft_stop_load [OF wf_core_idle [OF assms(1)] this] show ?thesis by (simp add: load_def hook_load_def)
next
  case False
  with assms(2) show ?thesis by (auto simp: stop_on_idle_locked_def load_def hook_load_def)
qed

section \<open>The measure\<close>

definition cb_load :: "('a, 'r, 'm) pool \<Rightarrow> nat" where
  "cb_load p = sum_list (map length (pl_cbs p)) + load (pl_st p)"

fun rank :: "('a, 'r) phase \<Rightarrow> nat" where
  "rank WTop = 6"
| "rank WLock = 5"
| "rank (WSelect c x) = 15"
| "rank (WCall c x) = 11"
| "rank (WSend c r) = 10"
| "rank (WRet e) = 4"
| "rank WStop = 3"
| "rank WRelease = 2"
| "rank WGone = 0"

fun cons_rank :: "nat \<Rightarrow> consumer \<Rightarrow> nat" where
  "cons_rank n CDefer = 22 + 7 * n"
| "cons_rank n (CStart k) = 20 + 7 * k"
| "cons_rank n CIdle = 19"
| "cons_rank n CRange = 10"
| "cons_rank n (CSlot c) = 12"
| "cons_rank n CBreak = 8"
| "cons_rank n CFinal = 7"
| "cons_rank n CStopping = 6"
| "cons_rank n CLock = 5"
| "cons_rank n CDone = 0"

definition ranks :: "('a, 'r, 'm) pool \<Rightarrow> nat" where
  "ranks p = (\<Sum>i<pl_started p. rank (pl_worker p i))"

definition pool_measure :: "nat \<Rightarrow> nat \<Rightarrow> ('a, 'r, 'm) pool \<Rightarrow> nat" where
  "pool_measure items workers p = 20 * (items - pl_pos p) + ranks p + 3 * length (pl_chan p)
     + cons_rank workers (pl_cons p) + cb_load p"

lemma cb_load_with_cbs: "cb_load (with_cbs cbs p) = cb_load p + length cbs"
  by (simp add: cb_load_def with_cbs_def)

lemma ranks_set: "i < pl_started p \<Longrightarrow> ranks (set_worker i x p) + rank (pl_worker p i) = ranks p + rank x"
proof -
  assume i: "i < pl_started p"
  have "(\<Sum>j<pl_started p. rank (((pl_worker p)(i := x)) j))
      = rank x + (\<Sum>j\<in>{..<pl_started p} - {i}. rank (((pl_worker p)(i := x)) j))"
    using i sum.remove [of "{..<pl_started p}" i "\<lambda>j. rank (((pl_worker p)(i := x)) j)"] by simp
  also have "(\<Sum>j\<in>{..<pl_started p} - {i}. rank (((pl_worker p)(i := x)) j))
      = (\<Sum>j\<in>{..<pl_started p} - {i}. rank (pl_worker p j))"
    by (intro sum.cong) auto
  finally show ?thesis
    using i sum.remove [of "{..<pl_started p}" i "\<lambda>j. rank (pl_worker p j)"]
    by (simp add: ranks_def)
qed

text \<open>What the stopper's operations do to it.\<close>

lemma stop_only_measure:
  "stop_only p q \<Longrightarrow> cb_load q = cb_load p \<Longrightarrow> pool_measure n k q = pool_measure n k p"
  by (simp add: stop_only_def same_core_def pool_measure_def ranks_def)

lemma cb_load_stop:
  assumes "wf_state (pl_st p)" and "pool_stop g p = Some q"
  shows "cb_load q = cb_load p"
proof -
  obtain st cbs where a: "stop_locked (pl_now p) g (pl_st p) = Inr (st, cbs)" and q: "q = with_cbs cbs (p\<lparr>pl_st := st\<rparr>)"
    using assms(2) by (auto simp: pool_stop_def locked_def split: sum.splits)
  from soft_stop_load [OF wf_state_core [OF assms(1)] a [unfolded stop_locked_def]] show ?thesis
    unfolding q cb_load_with_cbs by (simp add: cb_load_def)
qed

lemma cb_load_idle:
  assumes "wf_state (pl_st p)" and "pool_stop_idle g p = Some q"
  shows "cb_load q = cb_load p"
proof -
  obtain st cbs where a: "stop_on_idle_locked (pl_now p) g (pl_st p) = Inr (st, cbs)" and q: "q = with_cbs cbs (p\<lparr>pl_st := st\<rparr>)"
    using assms(2) by (auto simp: pool_stop_idle_def locked_def split: sum.splits)
  from idle_load [OF wf_state_core [OF assms(1)] a] show ?thesis
    unfolding q cb_load_with_cbs by (simp add: cb_load_def)
qed

lemma cb_load_apply:
  assumes "wf_state (pl_st p)" and "pool_apply d p = Some (q, True)"
  shows "cb_load q = cb_load p"
proof -
  obtain st cbs where a: "apply_locked (pl_now p) d (pl_st p) = Inr (st, cbs, True)" and q: "q = with_cbs cbs (p\<lparr>pl_st := st\<rparr>)"
    using assms(2) by (auto simp: pool_apply_def split: sum.splits)
  from apply_load [OF wf_state_core [OF assms(1)] a] show ?thesis
    unfolding q cb_load_with_cbs by (simp add: cb_load_def)
qed

lemma cb_load_errors [simp]: "cb_load (pool_errors es p) = cb_load p"
  by (simp add: cb_load_def pool_errors_def add_errors_eq load_def hook_load_def)

lemma cb_load_set [simp]: "cb_load (set_worker i x p) = cb_load p"
  by (simp add: cb_load_def)

lemma measure_set:
  "i < pl_started p \<Longrightarrow> pool_measure n k (set_worker i x p) + rank (pl_worker p i) = pool_measure n k p + rank x"
  using ranks_set [of i p x] by (simp add: pool_measure_def)

section \<open>Every internal action makes it smaller\<close>

lemma finish_measure:
  assumes inv: "stop_inv p" and e: "finish_step pg i p = Some q"
  shows "pool_measure n k q < pool_measure n k p"
proof -
  have w: "pl_worker p i \<noteq> WGone" using e by (auto simp: finish_step_def)
  have "\<forall>i\<ge>pl_started p. pl_worker p i = WGone" using inv by (simp add: stop_inv_def)
  with w have i: "i < pl_started p" by (meson not_le)
  have wf: "wf_state (pl_st p)" using inv by (simp add: stop_inv_def)
  note m = measure_set [OF i, of n k]
  have es: "pool_measure n k (set_worker i x (pool_errors es p)) = pool_measure n k (set_worker i x p)" for x es
    by (intro stop_only_measure)
      (simp_all add: stop_only_def same_core_def pool_errors_def set_worker_def cb_load_def add_errors_eq
        load_def hook_load_def)
  show ?thesis
  proof (cases "pl_worker p i")
    case (WRet r)
    with e m [of WRelease] m [of WStop] es [of WRelease] es [of WStop] show ?thesis
      by (cases r; cases "sq_handler pg") (auto simp: finish_step_def)
  next
    case WStop
    with e have s: "pool_stop (sq_grace pg) (set_worker i WRelease p) = Some q" by (simp add: finish_step_def)
    have "cb_load q = cb_load (set_worker i WRelease p)" by (rule cb_load_stop [OF _ s]) (use wf in simp)
    from stop_only_measure [OF stop_only_pool(3) [OF s] this, of n k] m [of WRelease] WStop show ?thesis by simp
  next
    case WRelease
    with e obtain b where s: "pool_apply (- 1) (set_worker i WGone p) = Some (q, b)" by (auto simp: finish_step_def)
    then have "b" using pool_apply_down [OF s] wf by simp
    with s have s': "pool_apply (- 1) (set_worker i WGone p) = Some (q, True)" by simp
    have "cb_load q = cb_load (set_worker i WGone p)" by (rule cb_load_apply [OF _ s']) (use wf in simp)
    from stop_only_measure [OF stop_only_apply [OF s] this, of n k] m [of WGone] WRelease show ?thesis by simp
  qed (use e in \<open>auto simp: finish_step_def\<close>)
qed

lemma worker_measure:
  assumes inv: "map_inv zero pg p" and e: "map_worker zero pg a p = Some q" and n: "sq_src pg n = None"
  shows "pool_measure n k q < pool_measure n k p"
proof -
  have st: "stop_inv p" and src: "source_inv pg p" using inv by (simp_all add: map_inv_def)
  have gone: "\<forall>i\<ge>pl_started p. pl_worker p i = WGone" using st by (simp add: stop_inv_def)
  then have i: "pl_worker p i \<noteq> WGone \<Longrightarrow> i < pl_started p" for i by (meson not_le)
  have mono: "pool_measure n k r + rank (pl_worker p i) + d = pool_measure n k p + rank x + e'"
    if "i < pl_started p" "r = set_worker i x r'" "pl_worker r' = pl_worker p" "pl_started r' = pl_started p"
      "pl_cons r' = pl_cons p" "cb_load r' = cb_load p"
      "20 * (n - pl_pos r') + 3 * length (pl_chan r') + d = 20 * (n - pl_pos p) + 3 * length (pl_chan p) + e'"
    for i r x r' d e'
    using that ranks_set [of i r' x] by (simp add: pool_measure_def ranks_def)
  show ?thesis
  proof (cases a)
    case (Worker i)
    show ?thesis
    proof (cases "pl_worker p i")
      case WTop
      with e Worker have q: "q = set_worker i (check_top p) p" by simp
      have "rank (check_top p) < 6" by (auto simp: check_top_def split: option.splits)
      with measure_set [OF i, of i n k "check_top p"] WTop q show ?thesis by simp
    next
      case WLock
      show ?thesis
      proof (cases "sq_src pg (pl_pos p)")
        case None
        with e Worker WLock have q: "q = set_worker i (WRet None) (p\<lparr>pl_idx := Suc (pl_idx p)\<rparr>)"
          by (simp add: take_next_def Let_def split: if_splits)
        from mono [OF i q, of 0 0] WLock show ?thesis by (simp add: cb_load_def)
      next
        case (Some x)
        with e Worker WLock have q: "q = set_worker i (WSelect (pl_idx p) x)
            (p\<lparr>pl_idx := Suc (pl_idx p), pl_pos := Suc (pl_pos p), pl_mu := Some i\<rparr>)"
          by (simp add: take_next_def Let_def split: if_splits)
        have "pl_pos p \<le> n" using src n unfolding source_inv_def by (meson not_le)
        with Some n have "pl_pos p < n" by (cases "pl_pos p = n") auto
        then have "20 * (n - Suc (pl_pos p)) + 20 = 20 * (n - pl_pos p)" by simp
        with mono [OF i q, of 20 0] WLock show ?thesis by (simp add: cb_load_def)
      qed
    qed (use e Worker finish_measure [OF st, of pg i q n k] in simp_all)
  next
    case (SelSend i)
    with e obtain c x where w: "pl_worker p i = WSelect c x" by (auto split: phase.splits)
    show ?thesis
    proof (cases "pl_closed p")
      case True
      with e SelSend w obtain y where q: "q = set_worker i (WRet y) p" by auto
      with measure_set [OF i, of i n k "WRet y"] w show ?thesis by simp
    next
      case False
      with e SelSend w have q: "q = set_worker i (WCall c x) (p\<lparr>pl_chan := pl_chan p @ [c], pl_mu := None\<rparr>)"
        by (simp split: if_splits)
      from mono [OF i q, of 0 3] w show ?thesis by (simp add: cb_load_def)
    qed
  next
    case (SelBreak i)
    with e obtain c x where w: "pl_worker p i = WSelect c x"
        and q: "q = set_worker i (WRet None) (p\<lparr>pl_mu := None\<rparr>)"
      by (auto split: phase.splits if_splits)
    from mono [OF i q, of 0 0] w show ?thesis by (simp add: cb_load_def)
  next
    case (SelDone i)
    with e obtain c x where w: "pl_worker p i = WSelect c x"
        and q: "q = set_worker i (WRet None) (p\<lparr>pl_mu := None\<rparr>)"
      by (auto split: phase.splits if_splits)
    from mono [OF i q, of 0 0] w show ?thesis by (simp add: cb_load_def)
  next
    case (CallEnds i out)
    with e obtain c x where w: "pl_worker p i = WCall c x"
        and q: "q = set_worker i WTop (p\<lparr>pl_slots := (pl_slots p)(c \<mapsto> map_result zero (sq_pcs pg) out),
          pl_calls := pl_calls p @ [c]\<rparr>)"
      by (auto split: phase.splits if_splits)
    from mono [OF i q, of 0 0] w show ?thesis by (simp add: cb_load_def)
  qed (use e in auto)
qed

lemma yield_measure:
  assumes e: "yield_ordered b p = Some q"
  shows "pool_measure n k q < pool_measure n k p"
proof -
  have f: "cb_load q = cb_load p" "ranks q = ranks p" "pl_pos q = pl_pos p"
    using e by (auto simp: yield_ordered_def final_step_def cb_load_def ranks_def
        split: consumer.splits option.splits list.splits if_splits)
  have "3 * length (pl_chan q) + cons_rank k (pl_cons q) < 3 * length (pl_chan p) + cons_rank k (pl_cons p)"
    using e by (auto simp: yield_ordered_def final_step_def split: consumer.splits option.splits list.splits if_splits)
  with f show ?thesis by (simp add: pool_measure_def)
qed

lemma setup_measure:
  assumes inv: "stop_inv p" and e: "setup_step pg b p = Some q"
  shows "pool_measure n (sq_workers pg) q < pool_measure n (sq_workers pg) p"
proof -
  have wf: "wf_state (pl_st p)" using inv by (simp add: stop_inv_def)
  let ?m = "pool_measure n (sq_workers pg)"
  have ph: "?m (p\<lparr>pl_cons := c\<rparr>) + cons_rank (sq_workers pg) (pl_cons p) = ?m p + cons_rank (sq_workers pg) c" for c
    by (simp add: pool_measure_def ranks_def cb_load_def)
  have st: "wf_state (pl_st (p\<lparr>pl_cons := c\<rparr>))" for c using wf by simp
  show ?thesis
  proof (cases "pl_cons p")
    case CDefer
    obtain r t where a: "add_deferred close_fid (pl_st p) = (r, t)" by fastforce
    let ?r = "p\<lparr>pl_st := t, pl_cons := CStart (sq_workers pg)\<rparr>"
    have l: "load t \<le> load (pl_st p) + 1"
      using a by (auto simp: add_deferred_def load_def hook_load_def split: if_splits)
    have q: "q = (if r then ?r else close_results pg ?r)"
      using e CDefer a by (cases r) (auto simp: setup_step_def)
    have "stop_only ?r (close_results pg ?r)" "cb_load (close_results pg ?r) = cb_load ?r"
      using close_results_frame by (blast, simp add: close_results_def, simp add: cb_load_def)
    with q stop_only_measure have "?m q = ?m ?r" by (cases r) auto
    also have "\<dots> < ?m p" using l CDefer by (simp add: pool_measure_def ranks_def cb_load_def)
    finally show ?thesis .
  next
    case (CStart j)
    show ?thesis
    proof (cases j)
      case 0
      with e CStart ph [of CIdle] show ?thesis by (auto simp: setup_step_def)
    next
      case (Suc m)
      let ?p = "p\<lparr>pl_cons := CStart m\<rparr>"
      from e CStart Suc have sw: "start_worker b ?p = Some q" by (simp add: setup_step_def)
      have less: "?m ?p + 7 = ?m p" using ph [of "CStart m"] CStart Suc by simp
      show ?thesis
      proof (cases "is_stopping (pl_st ?p) \<or> \<not> b")
        case True
        with sw have "q = pool_errors [Some ErrStopped] ?p" by (simp add: start_worker_def)
        with stop_only_measure [OF stop_only_errors, of "[Some ErrStopped]" ?p n "sq_workers pg"] less
        show ?thesis by simp
      next
        case False
        with sw obtain p1 r where a: "pool_apply 1 ?p = Some (p1, r)"
            "q = (if r then p1\<lparr>pl_worker := (pl_worker p1)(pl_started p1 := WTop), pl_started := Suc (pl_started p1)\<rparr>
                  else pool_errors [Some ErrStopped] p1)"
          by (auto simp: start_worker_def split: option.splits prod.splits bool.splits)
        obtain t cbs where ap: "apply_locked (pl_now p) 1 (pl_st p) = Inr (t, cbs, r)"
          using a(1) by (auto simp: pool_apply_def split: sum.splits)
        have r using False apply_locked_result(1) [OF wf_state_core [OF wf] ap] by (simp add: is_stopping_def)
        then have "pool_apply 1 ?p = Some (p1, True)" using a(1) by simp
        with cb_load_apply [OF st] have "cb_load p1 = cb_load ?p" by blast
        with stop_only_measure [OF stop_only_apply [OF a(1)]] have "?m p1 = ?m ?p" by simp
        moreover have "?m q = ?m p1 + 6"
          using \<open>r\<close> a(2) by (simp add: pool_measure_def ranks_def cb_load_def)
        ultimately show ?thesis using less by simp
      qed
    qed
  next
    case CIdle
    with e have i: "pool_stop_idle (sq_grace pg) (p\<lparr>pl_cons := CRange\<rparr>) = Some q" by (simp add: setup_step_def)
    from stop_only_measure [OF stop_only_pool(4) [OF i] cb_load_idle [OF st i], of n "sq_workers pg"]
      ph [of CRange] CIdle show ?thesis by simp
  next
    case CBreak
    with e have "q = p\<lparr>pl_early := True, pl_cons := CStopping\<rparr>" by (simp add: setup_step_def)
    with CBreak show ?thesis by (simp add: pool_measure_def ranks_def cb_load_def)
  next
    case CStopping
    with e have i: "pool_stop (sq_grace pg) (p\<lparr>pl_cons := CLock\<rparr>) = Some q" by (simp add: setup_step_def)
    from stop_only_measure [OF stop_only_pool(3) [OF i] cb_load_stop [OF st i], of n "sq_workers pg"]
      ph [of CLock] CStopping show ?thesis by simp
  next
    case CLock
    with e ph [of CDone] show ?thesis by (auto simp: setup_step_def split: if_splits)
  qed (use e in \<open>auto simp: setup_step_def\<close>)
qed

lemma sum_list_pop:
  "i < length xs \<Longrightarrow> xs ! i = y # ys \<Longrightarrow> sum_list (map length (xs[i := ys])) + 1 = sum_list (map length xs)"
proof (induction xs arbitrary: i)
  case (Cons x xs)
  then show ?case by (cases i) auto
qed simp

lemma callback_measure:
  assumes "env_step pg (Callback i) p = Some q"
  shows "pool_measure n k q < pool_measure n k p"
proof -
  obtain cb cbs where i: "i < length (pl_cbs p)" "pl_cbs p ! i = cb # cbs"
      and q: "q = run_cb pg cb (p\<lparr>pl_cbs := (pl_cbs p)[i := cbs]\<rparr>)"
    using assms by (auto split: if_splits list.splits)
  have "pl_cbs q = (pl_cbs p)[i := cbs]" "load (pl_st q) = load (pl_st p)" "pl_pos q = pl_pos p"
      "pl_chan q = pl_chan p" "pl_cons q = pl_cons p" "ranks q = ranks p"
    unfolding q by (cases cb; simp add: close_results_def pool_errors_def add_errors_eq load_def hook_load_def ranks_def)+
  with sum_list_pop [OF i] show ?thesis by (simp add: pool_measure_def cb_load_def)
qed

lemma internal_measure:
  assumes inv: "map_inv zero pg p" and e: "map_step zero pg a p = Some q" and a: "internal a"
    and n: "sq_src pg n = None"
  shows "pool_measure n (sq_workers pg) q < pool_measure n (sq_workers pg) p"
proof -
  have st: "stop_inv p" using inv by (simp add: map_inv_def)
  have w: ?thesis if "map_worker zero pg a p = Some q" by (rule worker_measure [OF inv that n])
  have c: ?thesis if "map_consume pg b p = Some q" for b
    using that yield_measure setup_measure [OF st] by (auto simp: map_consume_eq split: if_splits)
  have k: ?thesis if "env_step pg (Callback i) p = Some q" for i using that by (rule callback_measure)
  show ?thesis using e a w c k by (cases a) (simp_all add: map_step_def del: env_step.simps map_worker.simps)
qed

end
