(* ===== verification/Seq_Claims.thy ===== *)
theory Seq_Claims
  imports Seq_Measure
begin

text \<open>
  The properties of \<open>Map\<close>: order and completeness of what it yields, absence of deadlock, termination,
  and the two ways in which its documentation does not hold.
\<close>

section \<open>Runs without interference\<close>

text \<open>No error, no early break, no cancellation, no expired grace period, no other task.\<close>

definition calm :: "('a, 'r, 'm) pool \<Rightarrow> bool" where
  "calm p \<longleftrightarrow> \<not> spoiled p \<and> pl_others p = 0 \<and> pl_cons p \<noteq> CBreak
     \<and> (\<forall>i. pl_worker p i \<noteq> WStop \<and> (\<forall>e. pl_worker p i \<noteq> WRet (Some e)))"

lemma idle_stop_reason:
  assumes "wf_core s" and "soft_stop_locked now g s = Inr (t, cbs)" and "mu_count s = 0"
  shows "CbCancel c ErrGracePeriodExpired \<notin> set cbs"
  using assms(1)
proof (cases rule: soft_stop_cases [of _ now g])
  case (hard e u d)
  with assms(2,3) soft_hooks_no_cancel [of c ErrGracePeriodExpired s]
    hard_stop_cancels [OF hard(2), of c ErrGracePeriodExpired] show ?thesis by auto
next
  case timer with assms(3) show ?thesis by simp
qed

lemma apply_reason:
  assumes "wf_core s" and "apply_locked now d s = Inr (t, cbs, r)"
  shows "CbCancel c ErrGracePeriodExpired \<notin> set cbs"
  using assms(1)
proof (cases rule: apply_locked_cases [of _ d now])
  case (idle g u cs)
  with idle_stop_reason [OF wf_core_count [OF assms(1) order_refl] idle(4)] assms(2) show ?thesis by simp
next
  case (last u cs)
  with assms(2) hard_stop_cancels [OF last(5), of c ErrGracePeriodExpired] show ?thesis by auto
qed (use assms(2) in \<open>auto split: option.splits\<close>)

lemma handed_with_cbs:
  "handed (with_cbs cbs (p\<lparr>pl_st := st\<rparr>)) e \<longleftrightarrow> handed p e \<or> (\<exists>c. CbCancel c e \<in> set cbs)"
proof -
  have "pending (p\<lparr>pl_st := st\<rparr>) = pending p" by (rule pending_cong) simp
  then show ?thesis by (auto simp: handed_def pending_with_cbs)
qed

lemma handed_apply:
  "wf_state (pl_st p) \<Longrightarrow> pool_apply d p = Some (q, b) \<Longrightarrow>
     handed q ErrGracePeriodExpired \<longleftrightarrow> handed p ErrGracePeriodExpired"
  by (auto simp: pool_apply_def handed_with_cbs split: sum.splits dest: apply_reason [OF wf_state_core])

lemma handed_idle:
  assumes "wf_state (pl_st p)" and "pool_stop_idle g p = Some q"
  shows "handed q ErrGracePeriodExpired \<longleftrightarrow> handed p ErrGracePeriodExpired"
proof -
  obtain st cbs where a: "stop_on_idle_locked (pl_now p) g (pl_st p) = Inr (st, cbs)" and q: "q = with_cbs cbs (p\<lparr>pl_st := st\<rparr>)"
    using assms(2) by (auto simp: pool_stop_idle_def locked_def split: sum.splits)
  have "CbCancel c ErrGracePeriodExpired \<notin> set cbs" for c
  proof (cases "mu_count (pl_st p) = 0")
    case True
    with a have s: "soft_stop_locked (pl_now p) g ((pl_st p)\<lparr>mu_stopOnIdle := Some g\<rparr>) = Inr (st, cbs)"
      by (simp add: stop_on_idle_locked_def)
    show ?thesis by (rule idle_stop_reason [OF wf_core_idle [OF wf_state_core [OF assms(1)]] s]) (use True in simp)
  next
    case False
    with a show ?thesis by (auto simp: stop_on_idle_locked_def)
  qed
  then show ?thesis by (simp add: q handed_with_cbs)
qed

lemma handed_spent_stop:
  assumes "wf_state (pl_st p)" and "pool_stop g p = Some q" and "mu_cancel (pl_st p) = None"
  shows "handed q e \<longleftrightarrow> handed p e"
proof -
  obtain st cbs where a: "stop_locked (pl_now p) g (pl_st p) = Inr (st, cbs)" and q: "q = with_cbs cbs (p\<lparr>pl_st := st\<rparr>)"
    using assms(2) by (auto simp: pool_stop_def locked_def split: sum.splits)
  have "CbCancel c x \<notin> set cbs" for c x
    using crit_step_cancels [OF crit_step.stop [OF a] wf_state_core [OF assms(1)]] assms(3) by auto
  then show ?thesis by (simp add: q handed_with_cbs)
qed

lemma handed_errors [simp]: "handed (pool_errors es p) = handed p"
  by (simp add: handed_def pending_def pool_errors_def fun_eq_iff)

lemma calm_finish:
  assumes inv: "stop_inv p" and c: "calm p" and e: "finish_step pg i p = Some q"
  shows "calm q"
proof -
  have wf: "wf_state (pl_st p)" using inv by (simp add: stop_inv_def)
  have "pl_worker p i \<noteq> WStop" "\<forall>x. pl_worker p i \<noteq> WRet (Some x)" using c by (auto simp: calm_def)
  then consider "pl_worker p i = WRet None" "q = set_worker i WRelease p"
    | b where "pl_worker p i = WRelease" "pool_apply (- 1) (set_worker i WGone p) = Some (q, b)"
    using e by (auto simp: finish_step_def split: phase.splits option.splits)
  then show ?thesis
  proof cases
    case 1
    with c show ?thesis by (auto simp: calm_def)
  next
    case 2
    have "handed q ErrGracePeriodExpired \<longleftrightarrow> handed p ErrGracePeriodExpired"
      using handed_apply [OF _ 2(2)] wf by simp
    moreover have "pl_parent q = pl_parent p" "pl_others q = pl_others p"
      using 2(2) by (auto simp: pool_apply_def split: sum.splits)
    ultimately show ?thesis
      using c stop_only_apply [OF 2(2)] by (auto simp: calm_def spoiled_def stop_only_def)
  qed
qed

lemma calm_worker:
  assumes fl: "flow_inv zero pg p" and c: "calm p" and e: "map_worker zero pg a p = Some q"
  shows "calm q"
proof (cases "\<exists>i. finish_step pg i p = Some q")
  case True
  with calm_finish [OF _ c] fl show ?thesis by (auto simp: flow_inv_def map_inv_def)
next
  case False
  have st: "stop_inv p" using fl by (simp add: flow_inv_def map_inv_def)
  have quiet: "pl_done p = None \<and> \<not> pl_closed p" if "pl_worker p i \<noteq> WGone" for i
    using stop_inv_quiet [OF st that] c by (auto simp: calm_def spoiled_def closing_def)
  have f: "pl_others q = pl_others p" "pl_cons q = pl_cons p" "spoiled q = spoiled p"
    using e False
    by (cases a; auto simp: take_next_def Let_def spoiled_def handed_def pending_def
        split: phase.splits if_splits option.splits)+
  have old: "pl_worker p j \<noteq> WStop \<and> pl_worker p j \<noteq> WRet (Some x)" for j x
    using c by (auto simp: calm_def)
  have w: "pl_worker q j \<noteq> WStop \<and> pl_worker q j \<noteq> WRet (Some x)" for j x
  proof (cases a)
    case (Worker i)
    then have "pl_worker p i = WTop \<or> pl_worker p i = WLock"
      using e False by (cases "pl_worker p i") auto
    moreover have "check_top p = WLock" using calculation quiet [of i] by (auto simp: check_top_def)
    ultimately show ?thesis
      using e Worker old [of j x] by (auto simp: take_next_def Let_def split: if_splits option.splits)
  next
    case (SelSend i)
    with e quiet [of i] old [of j x] show ?thesis by (auto split: phase.splits if_splits)
  qed (use e old [of j x] in \<open>auto split: phase.splits if_splits\<close>)
  from c f w show ?thesis by (simp add: calm_def)
qed

lemma calm_consume:
  assumes fl: "flow_inv zero pg p" and c: "calm p" and e: "map_consume pg True p = Some q"
  shows "calm q"
proof (cases "pl_cons p \<in> {CRange, CFinal} \<or> (\<exists>c. pl_cons p = CSlot c)")
  case True
  with e have "yield_ordered True p = Some q" by (simp add: map_consume_eq)
  then have "pl_others q = pl_others p" "pl_worker q = pl_worker p" "spoiled q = spoiled p" "pl_cons q \<noteq> CBreak"
    by (auto simp: yield_ordered_def final_step_def spoiled_def handed_def pending_def
        split: consumer.splits option.splits list.splits if_splits)
  with c show ?thesis by (simp add: calm_def)
next
  case False
  with e have s: "setup_step pg True p = Some q" by (simp add: map_consume_eq)
  have st: "stop_inv p" and cf: "consumer_flow pg p" using fl by (simp_all add: flow_inv_def map_inv_def)
  have wf: "wf_state (pl_st p)" using st by (simp add: stop_inv_def)
  have ok: "calm q" if "handed q ErrGracePeriodExpired = handed p ErrGracePeriodExpired" "pl_parent q = pl_parent p"
      "pl_early q = pl_early p" "pl_others q = pl_others p" "pl_cons q \<noteq> CBreak"
      "\<forall>i. pl_worker q i = pl_worker p i \<or> pl_worker q i = WTop"
    using that c unfolding calm_def spoiled_def by (metis phase.distinct(11) phase.distinct(9))
  show ?thesis
  proof (cases "pl_cons p")
    case CDefer
    with s show ?thesis
      by (intro ok) (auto simp: setup_step_def close_results_def pool_errors_def handed_def pending_def
          split: prod.splits bool.splits if_splits)
  next
    case (CStart k)
    show ?thesis
    proof (cases k)
      case 0
      with s CStart show ?thesis by (intro ok) (auto simp: setup_step_def)
    next
      case (Suc m)
      let ?p = "p\<lparr>pl_cons := CStart m\<rparr>"
      from s CStart Suc have sw: "start_worker True ?p = Some q" by (simp add: setup_step_def)
      show ?thesis
      proof (cases "is_stopping (pl_st ?p)")
        case True
        with sw have "q = pool_errors [Some ErrStopped] ?p" by (simp add: start_worker_def)
        then show ?thesis by (intro ok) (simp_all add: pool_errors_def handed_def pending_def)
      next
        case False
        with sw obtain p1 r where a: "pool_apply 1 ?p = Some (p1, r)"
            "q = (if r then p1\<lparr>pl_worker := (pl_worker p1)(pl_started p1 := WTop), pl_started := Suc (pl_started p1)\<rparr>
                  else pool_errors [Some ErrStopped] p1)"
          by (auto simp: start_worker_def split: option.splits prod.splits bool.splits)
        have h: "handed p1 ErrGracePeriodExpired = handed p ErrGracePeriodExpired"
          using handed_apply [OF _ a(1)] wf by simp
        have f: "pl_parent p1 = pl_parent p" "pl_early p1 = pl_early p" "pl_others p1 = pl_others p"
            "pl_worker p1 = pl_worker p" "pl_cons p1 = CStart m"
          using a(1) by (auto simp: pool_apply_def split: sum.splits)
        have "handed q = handed p1" using a(2) by (auto simp: handed_def pending_def pool_errors_def)
        with h f a(2) show ?thesis by (intro ok) (auto simp: pool_errors_def)
      qed
    qed
  next
    case CIdle
    with s have i: "pool_stop_idle (sq_grace pg) (p\<lparr>pl_cons := CRange\<rparr>) = Some q" by (simp add: setup_step_def)
    have "pl_parent q = pl_parent p" "pl_others q = pl_others p"
      using i by (auto simp: pool_stop_idle_def locked_def split: sum.splits)
    then show ?thesis
      using handed_idle [OF _ i] wf stop_only_pool(4) [OF i] by (intro ok) (simp_all add: stop_only_def)
  next
    case CBreak
    with c show ?thesis by (simp add: calm_def)
  next
    case CStopping
    with s have i: "pool_stop (sq_grace pg) (p\<lparr>pl_cons := CLock\<rparr>) = Some q" by (simp add: setup_step_def)
    have "closing p" using cf c CStopping by (auto simp: consumer_flow_def after_range_def calm_def spoiled_def closing_def)
    then have "mu_cancel (pl_st p) = None" using st by (auto simp: stop_inv_def)
    then have h: "handed q e = handed p e" for e using handed_spent_stop [OF _ i] wf by simp
    have "pl_parent q = pl_parent p" "pl_others q = pl_others p"
      using i by (auto simp: pool_stop_def locked_def split: sum.splits)
    then show ?thesis using h stop_only_pool(3) [OF i] by (intro ok) (simp_all add: stop_only_def)
  next
    case CLock
    with s show ?thesis by (intro ok) (auto simp: setup_step_def split: if_splits)
  qed (use s in \<open>auto simp: setup_step_def\<close>)
qed

lemma calm_callback:
  assumes c: "calm p" and e: "env_step pg (Callback i) p = Some q"
  shows "calm q"
proof -
  obtain cb cbs where i: "i < length (pl_cbs p)" "pl_cbs p ! i = cb # cbs"
      and q: "q = run_cb pg cb (p\<lparr>pl_cbs := (pl_cbs p)[i := cbs]\<rparr>)"
    using e by (auto split: if_splits list.splits)
  let ?p = "p\<lparr>pl_cbs := (pl_cbs p)[i := cbs]\<rparr>"
  have pend: "pending p = insert cb (pending ?p)" by (rule pending_pop [OF i]) simp
  have pq: "pending q = pending ?p"
    unfolding q by (rule pending_cong, cases cb) (auto simp: close_results_def pool_errors_def)
  have "handed q = handed p"
    by (rule ext, cases cb; use pend pq q in \<open>auto simp: handed_def close_results_def pool_errors_def\<close>)
  moreover have "pl_parent q = pl_parent p" "pl_early q = pl_early p" "pl_others q = pl_others p"
      "pl_worker q = pl_worker p" "pl_cons q = pl_cons p"
    unfolding q by (cases cb; simp add: close_results_def pool_errors_def)+
  ultimately show ?thesis using c by (simp add: calm_def spoiled_def)
qed

lemma calm_step:
  assumes fl: "flow_inv zero pg p" and c: "calm p" and e: "map_step zero pg a p = Some q"
    and a: "internal a" "a \<noteq> Consume False"
  shows "calm q"
proof -
  have w: ?thesis if "map_worker zero pg a p = Some q" by (rule calm_worker [OF fl c that])
  have k: ?thesis if "env_step pg (Callback i) p = Some q" for i by (rule calm_callback [OF c that])
  have m: ?thesis if "map_consume pg b p = Some q" "a = Consume b" for b
    using that a(2) calm_consume [OF fl c] by (cases b) auto
  show ?thesis using e a(1) w k m by (cases a) (simp_all add: map_step_def del: env_step.simps map_worker.simps)
qed

text \<open>All workers are started, since nothing stops the context before \<open>s.Stop\<close>.\<close>

definition launch :: "('a, 'o) sq_prog \<Rightarrow> ('a, 'r, 'm) pool \<Rightarrow> bool" where
  "launch pg p \<longleftrightarrow> pl_started p + to_start pg (pl_cons p) = sq_workers pg
     \<and> (before_range (pl_cons p) \<longrightarrow> \<not> mu_stopping (pl_st p) \<and> mu_stopOnIdle (pl_st p) = None)"

lemma apply_launch:
  assumes "wf_state (pl_st p)" and "pool_apply d p = Some (q, b)"
    and "\<not> mu_stopping (pl_st p)" "mu_stopOnIdle (pl_st p) = None"
  shows "b \<and> \<not> mu_stopping (pl_st q) \<and> mu_stopOnIdle (pl_st q) = None"
proof -
  obtain st cbs where a: "apply_locked (pl_now p) d (pl_st p) = Inr (st, cbs, b)" and q: "q = with_cbs cbs (p\<lparr>pl_st := st\<rparr>)"
    using assms(2) by (auto simp: pool_apply_def split: sum.splits)
  from wf_state_core [OF assms(1)] show ?thesis
    by (cases rule: apply_locked_cases [of _ d "pl_now p"]) (use a q assms(3,4) in auto)
qed

lemma launch_worker:
  assumes l: "launch pg p" and st: "stop_inv p" and c: "calm p" and e: "map_worker zero pg a p = Some q"
  shows "launch pg q"
proof (cases "\<exists>i. finish_step pg i p = Some q")
  case False
  then have "pl_started q = pl_started p" "pl_cons q = pl_cons p" "pl_st q = pl_st p"
    using e by (cases a; auto simp: take_next_def Let_def split: phase.splits if_splits option.splits)+
  with l show ?thesis by (simp add: launch_def)
next
  case True
  then obtain i where f: "finish_step pg i p = Some q" by blast
  have wf: "wf_state (pl_st p)" using st by (simp add: stop_inv_def)
  have "pl_worker p i \<noteq> WStop" "\<forall>x. pl_worker p i \<noteq> WRet (Some x)" using c by (auto simp: calm_def)
  then consider "q = set_worker i WRelease p" | b where "pool_apply (- 1) (set_worker i WGone p) = Some (q, b)"
    using f by (auto simp: finish_step_def split: phase.splits option.splits)
  then show ?thesis
  proof cases
    case 1
    with l show ?thesis by (simp add: launch_def)
  next
    case 2
    from apply_launch [OF _ 2] wf l stop_only_apply [OF 2] show ?thesis
      by (auto simp: launch_def stop_only_def)
  qed
qed

lemma launch_consume:
  assumes l: "launch pg p" and st: "stop_inv p" and e: "map_consume pg True p = Some q"
  shows "launch pg q"
proof (cases "pl_cons p \<in> {CRange, CFinal} \<or> (\<exists>c. pl_cons p = CSlot c)")
  case True
  with e have "yield_ordered True p = Some q" by (simp add: map_consume_eq)
  then have "pl_started q = pl_started p" "to_start pg (pl_cons q) = to_start pg (pl_cons p)" "\<not> before_range (pl_cons q)"
    by (auto simp: yield_ordered_def final_step_def to_start_def before_range_def
        split: consumer.splits option.splits list.splits if_splits)
  with l show ?thesis by (simp add: launch_def)
next
  case False
  with e have s: "setup_step pg True p = Some q" by (simp add: map_consume_eq)
  have wf: "wf_state (pl_st p)" using st by (simp add: stop_inv_def)
  show ?thesis
  proof (cases "pl_cons p")
    case CDefer
    with l have n: "\<not> mu_stopping (pl_st p)" by (simp add: launch_def before_range_def)
    with s CDefer have "pl_cons q = CStart (sq_workers pg)" "pl_started q = pl_started p"
        "mu_stopping (pl_st q) = mu_stopping (pl_st p)" "mu_stopOnIdle (pl_st q) = mu_stopOnIdle (pl_st p)"
      by (auto simp: setup_step_def add_deferred_def)
    with l CDefer show ?thesis by (simp add: launch_def to_start_def before_range_def)
  next
    case (CStart k)
    show ?thesis
    proof (cases k)
      case 0
      with s CStart have "q = p\<lparr>pl_cons := CIdle\<rparr>" by (simp add: setup_step_def)
      with l CStart 0 show ?thesis by (simp add: launch_def to_start_def before_range_def)
    next
      case (Suc m)
      let ?p = "p\<lparr>pl_cons := CStart m\<rparr>"
      have n: "\<not> mu_stopping (pl_st p)" "mu_stopOnIdle (pl_st p) = None"
        using l CStart by (simp_all add: launch_def before_range_def)
      from s CStart Suc n obtain p1 r where a: "pool_apply 1 ?p = Some (p1, r)"
          "q = (if r then p1\<lparr>pl_worker := (pl_worker p1)(pl_started p1 := WTop), pl_started := Suc (pl_started p1)\<rparr>
                else pool_errors [Some ErrStopped] p1)"
        by (auto simp: setup_step_def start_worker_def is_stopping_def split: option.splits prod.splits bool.splits)
      from apply_launch [OF _ a(1)] wf n stop_only_apply [OF a(1)] a(2) l CStart Suc show ?thesis
        by (auto simp: launch_def to_start_def stop_only_def)
    qed
  next
    case CIdle
    with s have i: "pool_stop_idle (sq_grace pg) (p\<lparr>pl_cons := CRange\<rparr>) = Some q" by (simp add: setup_step_def)
    from stop_only_pool(4) [OF this] l CIdle show ?thesis
      by (simp add: stop_only_def launch_def to_start_def before_range_def)
  next
    case CBreak
    with s have "q = p\<lparr>pl_early := True, pl_cons := CStopping\<rparr>" by (simp add: setup_step_def)
    with l CBreak show ?thesis by (simp add: launch_def to_start_def before_range_def)
  next
    case CStopping
    with s have i: "pool_stop (sq_grace pg) (p\<lparr>pl_cons := CLock\<rparr>) = Some q" by (simp add: setup_step_def)
    from stop_only_pool(3) [OF this] l CStopping show ?thesis
      by (simp add: stop_only_def launch_def to_start_def before_range_def)
  next
    case CLock
    with s have "q = p\<lparr>pl_cons := CDone\<rparr>" by (simp add: setup_step_def split: if_splits)
    with l CLock show ?thesis by (simp add: launch_def to_start_def before_range_def)
  qed (use s in \<open>auto simp: setup_step_def\<close>)
qed

lemma launch_step:
  assumes l: "launch pg p" and fl: "flow_inv zero pg p" and c: "calm p" and e: "map_step zero pg a p = Some q"
    and a: "internal a" "a \<noteq> Consume False"
  shows "launch pg q"
proof -
  have st: "stop_inv p" using fl by (simp add: flow_inv_def map_inv_def)
  have w: ?thesis if "map_worker zero pg a p = Some q" by (rule launch_worker [OF l st c that])
  have k: ?thesis if x: "env_step pg (Callback i) p = Some q" for i
  proof -
    have "mu_stopping (pl_st q) = mu_stopping (pl_st p)" "mu_stopOnIdle (pl_st q) = mu_stopOnIdle (pl_st p)"
    proof -
      obtain cb cbs where "q = run_cb pg cb (p\<lparr>pl_cbs := (pl_cbs p)[i := cbs]\<rparr>)"
        using x by (auto split: if_splits list.splits)
      then show "mu_stopping (pl_st q) = mu_stopping (pl_st p)" "mu_stopOnIdle (pl_st q) = mu_stopOnIdle (pl_st p)"
        by (cases cb; simp add: close_results_def pool_errors_def add_errors_eq)+
    qed
    with l env_step_frame [OF x] show ?thesis by (simp add: launch_def stop_only_def)
  qed
  have m: ?thesis if "map_consume pg b p = Some q" "a = Consume b" for b
    using that a(2) launch_consume [OF l st] by (cases b) auto
  show ?thesis using e a(1) w k m by (cases a) (simp_all add: map_step_def del: env_step.simps map_worker.simps)
qed

lemma internal_run:
  assumes "list_all (\<lambda>a. internal a \<and> a \<noteq> Consume False) as" and "map_run zero pg as p = Some q"
    and "flow_inv zero pg p" "calm p" "launch pg p"
  shows "calm q \<and> launch pg q"
  using assms
proof (induction as arbitrary: p)
  case (Cons a as)
  then obtain r where r: "map_step zero pg a p = Some r" "map_run zero pg as r = Some q"
    by (auto split: option.splits)
  from Cons.prems have a: "internal a" "a \<noteq> Consume False" by simp_all
  show ?case
    using Cons.IH [OF _ r(2) flow_inv_step [OF Cons.prems(3) r(1)] calm_step [OF Cons.prems(3,4) r(1) a]
        launch_step [OF Cons.prems(5,3,4) r(1) a]] Cons.prems(1) by simp
qed simp

lemma internal_length:
  assumes "list_all internal as" and "map_run zero pg as p = Some q" and "map_inv zero pg p"
    and "sq_src pg n = None"
  shows "length as + pool_measure n (sq_workers pg) q \<le> pool_measure n (sq_workers pg) p"
  using assms
proof (induction as arbitrary: p)
  case (Cons a as)
  then obtain r where r: "map_step zero pg a p = Some r" "map_run zero pg as r = Some q"
    by (auto split: option.splits)
  from Cons.prems have "pool_measure n (sq_workers pg) r < pool_measure n (sq_workers pg) p"
    by (intro internal_measure [OF _ r(1)]) simp_all
  with Cons.IH [OF _ r(2) map_inv_step [OF Cons.prems(3) r(1)]] Cons.prems show ?case by simp
qed simp

lemma start_measure: "pool_measure n k (new_pool par CDefer) = 20 * n + 7 * k + 23"
  by (simp add: pool_measure_def new_pool_def ranks_def cb_load_def load_def hook_load_def new_state_def)

lemma start_calm: "calm (new_pool par CDefer)" "launch pg (new_pool par CDefer)"
  by (simp_all add: calm_def launch_def spoiled_def handed_def pending_def new_pool_def before_range_def
      to_start_def new_state_def)

section \<open>Properties\<close>

text \<open>
  C13: whatever the schedule and the environment do, \<open>Map\<close> yields, in the order of the input, the callback's
  own results for the items they are paired with, and calls the callback at most once for an item.
  Until an early break, a cancellation from outside or an expired grace period the Nth element is
  the result of the Nth item.
\<close>

theorem map_ordered:
  assumes "map_run zero pg as (new_pool par CDefer) = Some p"
  shows "sorted_wrt (<) (map fst (pl_out p))
    \<and> (\<forall>n<length (pl_out p). \<exists>x out. sq_src pg (fst (pl_out p ! n)) = Some x
        \<and> sq_fn pg (fst (pl_out p ! n)) x out \<and> snd (pl_out p ! n) = map_result zero (sq_pcs pg) out)
    \<and> (\<not> spoiled p \<longrightarrow> map fst (pl_out p) = [0..<length (pl_out p)])
    \<and> distinct (pl_calls p)"
proof -
  have co: "core_inv zero pg p" using map_run_inv [OF assms] by (simp add: map_inv_core)
  then have o: "order_inv pg p" by (simp add: core_inv_def)
  have 1: "sorted_wrt (<) (map fst (pl_out p))"
    using o by (simp add: order_inv_def served_def yielded_def sorted_wrt_append)
  have 2: "\<exists>x out. sq_src pg (fst (pl_out p ! n)) = Some x
        \<and> sq_fn pg (fst (pl_out p ! n)) x out \<and> snd (pl_out p ! n) = map_result zero (sq_pcs pg) out"
    if "n < length (pl_out p)" for n
  proof -
    obtain c r where cr: "pl_out p ! n = (c, r)" by (cases "pl_out p ! n")
    then have "(c, r) \<in> set (pl_out p)" using that by (metis nth_mem)
    from core_slot(1) [OF co core_slot(3) [OF co this]] cr show ?thesis by simp
  qed
  have 3: "map fst (pl_out p) = [0..<length (pl_out p)]" if "\<not> spoiled p"
  proof -
    have e: "map fst (pl_out p) @ (in_slot p @ pl_chan p @ in_select p) = [0..<pl_pos p]"
      using o that by (simp add: order_inv_def served_def yielded_def)
    then have "length (pl_out p) \<le> pl_pos p"
      by (metis diff_zero le_add1 length_append length_map length_upt)
    moreover have "map fst (pl_out p) = take (length (pl_out p)) [0..<pl_pos p]"
      by (subst e [symmetric]) simp
    ultimately show ?thesis by (simp add: take_upt)
  qed
  from 1 2 3 core_slot(5) [OF co] show ?thesis by blast
qed

text \<open>A pool over \<open>n\<close> numbers whose callback adds one, and a complete run over one of them.\<close>

definition demo :: "nat \<Rightarrow> nat \<Rightarrow> (nat, nat \<times> goerr option) sq_prog" where
  "demo n k = \<lparr>sq_src = (\<lambda>i. if i < n then Some (10 * i) else None), sq_workers = k,
     sq_fn = (\<lambda>i x out. out = Return (x + 1, None)), sq_pcs = [], sq_name = '''',
     sq_handler = ErrorHandlerStop, sq_grace = 5\<rparr>"

definition demo_setup :: "(nat \<times> goerr option) action list" where
  "demo_setup = replicate 4 (Consume True)"

definition demo_item :: "nat \<Rightarrow> (nat \<times> goerr option) action list" where
  "demo_item x = [Worker 0, Worker 0, SelSend 0, CallEnds 0 (Return (x + 1, None))]"

definition demo_run :: "(nat \<times> goerr option) action list" where
  "demo_run = demo_setup @ demo_item 0 @ [Worker 0, Worker 0, Worker 0, Worker 0, Callback 0, Callback 0]
     @ replicate 6 (Consume True)"

lemma demo_run_result:
  "map_option (\<lambda>p. (pl_cons p, pl_out p, pl_final p, pl_parent p, pl_cancels p))
     (map_run 0 (demo 1 1) demo_run (new_pool None CDefer))
   = Some (CDone, [(0, 1, None)], None, None, [ErrStopped])"
  by code_simp


definition demo_end :: "(nat, nat, nat) pool" where
  "demo_end = the (map_run 0 (demo 1 1) demo_run (new_pool None CDefer))"

lemma demo_runs:
  "map_run 0 (demo 1 1) demo_run (new_pool None CDefer) = Some demo_end" "pl_cons demo_end = CDone"
  "pl_out demo_end = [(0, 1, None)]" "pl_final demo_end = None" "\<not> spoiled demo_end"
proof -
  obtain p where p: "map_run 0 (demo 1 1) demo_run (new_pool None CDefer) = Some p"
    using demo_run_result by (cases "map_run 0 (demo 1 1) demo_run (new_pool None CDefer)") auto
  then have e: "demo_end = p" by (simp add: demo_end_def)
  have i: "list_all (\<lambda>a. internal a \<and> a \<noteq> Consume False) demo_run" by code_simp
  have "calm p" using internal_run [OF i p flow.inv_init start_calm] by blast
  then show "map_run 0 (demo 1 1) demo_run (new_pool None CDefer) = Some demo_end" "pl_cons demo_end = CDone"
    "pl_out demo_end = [(0, 1, None)]" "pl_final demo_end = None" "\<not> spoiled demo_end"
    using p demo_run_result e by (simp_all add: calm_def)
qed

lemma map_ordered_witness:
  "map fst (pl_out demo_end) = [0..<1] \<and> snd (pl_out demo_end ! 0) = (1, None) \<and> distinct (pl_calls demo_end)"
  using map_ordered [OF demo_runs(1)] demo_runs(3,5) by simp

text \<open>
  The goroutines of \<open>Map\<close> do a bounded amount of work: without interference from outside no run of
  the consumer, the workers and the callbacks of the stopper over \<open>n\<close> items is longer than
  \<open>20 n + 7 k + 23\<close> steps, whatever the schedule, early breaks included.
\<close>

theorem map_terminates:
  assumes "list_all internal as" and "map_run zero pg as (new_pool par CDefer) = Some p"
    and "sq_src pg n = None"
  shows "length as \<le> 20 * n + 7 * sq_workers pg + 23"
proof -
  have "map_inv zero pg (new_pool par CDefer)" by (rule mapper.inv_init) blast
  from internal_length [OF assms(1,2) this assms(3)] show ?thesis by (simp add: start_measure)
qed

lemma demo_items: "sq_src (demo n k) n = None" "j < n \<Longrightarrow> sq_src (demo n k) j \<noteq> None"
  "\<exists>out. sq_fn (demo n k) c x out" "sq_workers (demo n k) = k"
  by (auto simp: demo_def)

lemma map_terminates_witness: "length demo_run \<le> 50"
  using map_terminates [OF _ demo_runs(1) demo_items(1)] by (simp add: demo_items(4)) code_simp

text \<open>At its end a run without interference has yielded everything.\<close>

lemma done_complete:
  assumes fl: "flow_inv zero pg p" and c: "calm p" and l: "launch pg p" and k: "0 < sq_workers pg"
    and d: "pl_cons p = CDone" and n: "sq_src pg n = None" "\<And>j. j < n \<Longrightarrow> sq_src pg j \<noteq> None"
  shows "map fst (pl_out p) = [0..<n]"
proof -
  have st: "stop_inv p" and co: "core_inv zero pg p" and cf: "consumer_flow pg p"
    using fl by (auto simp: flow_inv_def map_inv_core)
  have sp: "\<not> spoiled p" "\<not> pl_early p" using c by (auto simp: calm_def spoiled_def)
  with cf d have closed: "pl_closed p" and chan: "pl_chan p = []"
    by (auto simp: consumer_flow_def after_range_def)
  have gone: "pl_worker p i = WGone" for i
    using stop_inv_quiet [OF st, of i] closed sp by (auto simp: closing_def spoiled_def)
  have "pl_started p = sq_workers pg" using l d by (simp add: launch_def to_start_def)
  with k gone sp co have s: "sq_src pg (pl_pos p) = None" "\<forall>j<pl_pos p. sq_src pg j \<noteq> None"
    by (auto simp: core_inv_def source_inv_def)
  with n have pos: "pl_pos p = n" by (metis linorder_neqE_nat)
  have "in_select p = []" using gone by (simp add: in_select_def split: option.splits)
  moreover have "in_slot p = []" using d by (simp add: in_slot_def)
  moreover have "served p @ in_select p = [0..<pl_pos p]"
    using co sp by (simp add: core_inv_def order_inv_def)
  ultimately show ?thesis using chan pos by (simp add: served_def yielded_def)
qed

text \<open>
  C5: \<open>Map\<close> returns. Without interference and early break, over \<open>n\<close> items with at least one worker and
  a callback that always returns, panics or exits, every run either has returned with a result for
  every item, in order, or can go on; so with the bound of the length every maximal run returns.
\<close>

theorem map_returns:
  assumes "list_all (\<lambda>a. internal a \<and> a \<noteq> Consume False) as"
    and "map_run zero pg as (new_pool par CDefer) = Some p"
    and "0 < sq_workers pg" and "sq_src pg n = None" and "\<And>j. j < n \<Longrightarrow> sq_src pg j \<noteq> None"
    and "\<And>c x. sq_src pg c = Some x \<Longrightarrow> \<exists>out. sq_fn pg c x out"
  shows "length as \<le> 20 * n + 7 * sq_workers pg + 23
    \<and> ((pl_cons p = CDone \<and> map fst (pl_out p) = [0..<n])
       \<or> (\<exists>a q. internal a \<and> a \<noteq> Consume False \<and> map_step zero pg a p = Some q))"
proof (intro conjI)
  have i: "map_inv zero pg (new_pool par CDefer)" by (rule mapper.inv_init) blast
  have "list_all internal as" using assms(1) by (auto simp: list_all_iff)
  from internal_length [OF this assms(2) i assms(4)] show "length as \<le> 20 * n + 7 * sq_workers pg + 23"
    by (simp add: start_measure)
  have fl: "flow_inv zero pg p" by (rule map_run_flow [OF assms(2)])
  have cl: "calm p" "launch pg p"
    using internal_run [OF assms(1,2) flow.inv_init start_calm] by blast+
  then have "\<not> handed p ErrGracePeriodExpired" "pl_others p = 0" by (simp_all add: calm_def spoiled_def)
  with map_progress [OF fl _ _ assms(6)] done_complete [OF fl cl assms(3) _ assms(4,5)]
  show "(pl_cons p = CDone \<and> map fst (pl_out p) = [0..<n])
       \<or> (\<exists>a q. internal a \<and> a \<noteq> Consume False \<and> map_step zero pg a p = Some q)" by blast
qed

text \<open>
  Whatever the environment has done, the pool is never stuck before its end: as long as no cancel
  function has been handed out because of an expired grace period and no other task of the nested
  stopper is running, some step of the consumer, a worker or a callback is enabled.
\<close>

theorem map_never_stuck:
  assumes "map_run zero pg as (new_pool par CDefer) = Some p"
    and "\<not> handed p ErrGracePeriodExpired" and "pl_others p = 0" and "pl_cons p \<noteq> CDone"
    and "\<And>c x. sq_src pg c = Some x \<Longrightarrow> \<exists>out. sq_fn pg c x out"
  shows "\<exists>a q. internal a \<and> map_step zero pg a p = Some q"
  using map_progress [OF map_run_flow [OF assms(1)] assms(2,3,5,4)] by blast

lemma map_run_append: "map_run zero pg (as @ bs) p = Option.bind (map_run zero pg as p) (map_run zero pg bs)"
  by (induction as arbitrary: p) (auto split: option.splits)

text \<open>
  C24: \<open>Map\<close> with a callback that always ends returns after any interference: let the environment stop the nested stopper, add errors, cancel
  the outer context and let time pass. From then on the steps of the consumer, the workers and the
  callbacks are at most \<open>pool_measure\<close>, also when the loop body breaks off, and as long as no cancel
  function has been handed out because of an expired grace period and no other task of the nested stopper
  is running, some step is enabled until \<open>Map\<close> has returned.
\<close>

theorem map_recovers:
  assumes "map_run zero pg as (new_pool par CDefer) = Some p"
    and "map_run zero pg bs p = Some q" and "list_all internal bs" and "sq_src pg n = None"
    and "\<not> handed q ErrGracePeriodExpired" and "pl_others q = 0"
    and "\<And>c x. sq_src pg c = Some x \<Longrightarrow> \<exists>out. sq_fn pg c x out"
  shows "length bs \<le> pool_measure n (sq_workers pg) p
    \<and> (pl_cons q = CDone \<or> (\<exists>a r. internal a \<and> map_step zero pg a q = Some r))"
proof -
  have "map_inv zero pg p" using map_run_flow [OF assms(1)] by (simp add: flow_inv_def)
  from internal_length [OF assms(3,2) this assms(4)] have "length bs \<le> pool_measure n (sq_workers pg) p" by simp
  moreover have "map_run zero pg (as @ bs) (new_pool par CDefer) = Some q"
    using assms(1,2) by (simp add: map_run_append)
  from map_progress [OF map_run_flow [OF this] assms(5,6,7)]
  have "pl_cons q = CDone \<or> (\<exists>a r. internal a \<and> map_step zero pg a q = Some r)" by blast
  ultimately show ?thesis by blast
qed

text \<open>The stopper is stopped before anything else has run.\<close>

theorem map_recovers_witness:
  "\<exists>a r p. map_run 0 (demo 1 1) [EnvStop 5] (new_pool None CDefer) = Some p \<and> internal a
     \<and> map_step 0 (demo 1 1) a p = Some r"
proof -
  obtain p where p: "map_run 0 (demo 1 1) [EnvStop 5] (new_pool None CDefer) = Some p"
    and c: "pl_cons p = CDefer" "pl_others p = 0" "\<not> handed p ErrGracePeriodExpired"
    by (auto simp: pool_stop_def locked_def new_pool_def stop_locked_def soft_stop_locked_def hard_stop_locked_def
        close_stopping_def new_state_def handed_def pending_def with_cbs_def map_step_def)
  have "map_run 0 (demo 1 1) [] p = Some p" "list_all internal ([] :: (nat \<times> goerr option) action list)" by simp_all
  from map_recovers [OF p this demo_items(1) c(3,2) demo_items(3)] c(1) p show ?thesis by auto
qed

lemma map_returns_witness:
  "length demo_run \<le> 50 \<and> (pl_cons demo_end = CDone \<and> map fst (pl_out demo_end) = [0..<1]
     \<or> (\<exists>a q. internal a \<and> a \<noteq> Consume False \<and> map_step 0 (demo 1 1) a demo_end = Some q))"
proof -
  have "list_all (\<lambda>a. internal a \<and> a \<noteq> Consume False) demo_run" by code_simp
  from map_returns [OF this demo_runs(1) _ demo_items(1) demo_items(2) demo_items(3)] show ?thesis
    by (simp add: demo_items(4))
qed

lemma map_never_stuck_witness: "\<exists>a q. internal a \<and> map_step 0 (demo 1 1) a (new_pool None CDefer) = Some q"
proof -
  have "map_run 0 (demo 1 1) [] (new_pool None CDefer) = Some (new_pool None CDefer)" by simp
  from map_never_stuck [OF this _ _ _ demo_items(3)] show ?thesis
    by (simp add: new_pool_def handed_def pending_def)
qed

end
