(* ===== verification/Seq_Each.thy ===== *)
theory Seq_Each
  imports Seq_Flow
begin

text \<open>
  seq/each.go (\<open>ForEach\<close>, \<open>ForEach2\<close>) and the second half of seq/map.go (\<open>MapUnordered\<close>,
  \<open>MapUnordered2\<close>) over the pool of Seq_Pool. Their workers release \<open>nextMu\<close> before they call the
  callback, so taking an item is one step.
\<close>

section \<open>Definitions\<close>

text \<open>The head of both worker loops, and the end of a worker's task.\<close>

definition pull_step ::
  "('a, 'o) sq_prog \<Rightarrow> nat \<Rightarrow> ('a, 'r, 'm) pool \<Rightarrow> ('a, 'r, 'm) pool option" where
  "pull_step pg i p =
     (case pl_worker p i of
        WTop \<Rightarrow> Some (set_worker i (check_top p) p)
      | WLock \<Rightarrow>
          if pl_mu p = None then
            (case take_next pg p of
               (p1, cnt, None) \<Rightarrow> Some (set_worker i (WRet None) p1)
             | (p1, cnt, Some item) \<Rightarrow> Some (set_worker i (WCall cnt item) p1))
          else None
      | _ \<Rightarrow> finish_step pg i p)"

text \<open>\<open>ForEach\<close>: a callback's error is added to the stopper with the index of its item.\<close>

definition each_error :: "nat \<Rightarrow> goerr option \<Rightarrow> ('a, 'r, 'm) pool \<Rightarrow> ('a, 'r, 'm) pool" where
  "each_error cnt err p =
     (case err of
        None \<Rightarrow> p
      | Some e \<Rightarrow> pool_errors [Some (WrapError (''index '' @ nat_str cnt) e)] p)"

definition each_result :: "rt_frame list \<Rightarrow> goerr option outcome \<Rightarrow> goerr option" where
  "each_result pcs out = snd (call_e pcs (\<lambda>u. (u, out)) ())"

fun each_worker ::
  "('a, goerr option) sq_prog \<Rightarrow> goerr option action \<Rightarrow> ('a, 'r, 'm) pool \<Rightarrow> ('a, 'r, 'm) pool option" where
  "each_worker pg (Worker i) p = pull_step pg i p"
| "each_worker pg (CallEnds i out) p =
     (case pl_worker p i of
        WCall cnt item \<Rightarrow>
          if sq_fn pg cnt item out then
            Some (set_worker i WTop
              (each_error cnt (each_result (sq_pcs pg) out) (p\<lparr>pl_calls := pl_calls p @ [cnt]\<rparr>)))
          else None
      | _ \<Rightarrow> None)"
| "each_worker pg _ p = None"

text \<open>\<open>s.WaitCtx(ctx)\<close>: \<open>ctx\<close> is the context \<open>s\<close> was made from; with both ready the select may take either.\<close>

definition each_wait :: "bool \<Rightarrow> ('a, 'r, 'm) pool \<Rightarrow> ('a, 'r, 'm) pool option" where
  "each_wait b p =
     (case (pl_done p, pl_parent p) of
        (Some (_, c), None) \<Rightarrow> Some (p\<lparr>pl_final := pool_wait c p, pl_cons := CStopping\<rparr>)
      | (d, Some (e, _)) \<Rightarrow>
          (case d of
             Some (_, c) \<Rightarrow>
               Some (p\<lparr>pl_final := (if b then pool_wait c p
                    else errors_join (map Some (errors_of (pl_st p)) @ [Some e])), pl_cons := CStopping\<rparr>)
           | None \<Rightarrow> Some (p\<lparr>pl_final := errors_join (map Some (errors_of (pl_st p)) @ [Some e]),
               pl_cons := CStopping\<rparr>))
      | (None, None) \<Rightarrow> None)"

definition each_consume ::
  "('a, 'o) sq_prog \<Rightarrow> bool \<Rightarrow> ('a, 'r, 'm) pool \<Rightarrow> ('a, 'r, 'm) pool option" where
  "each_consume pg b p = (case pl_cons p of CRange \<Rightarrow> each_wait b p | _ \<Rightarrow> setup_step pg b p)"

text \<open>\<open>ForEach\<close> defers nothing on \<open>s\<close>: it begins by starting the workers.\<close>

definition each_start :: "('a, 'o) sq_prog \<Rightarrow> sid option \<Rightarrow> ('a, 'r, 'm) pool" where
  "each_start pg par = new_pool par (CStart (sq_workers pg))"

definition each_step ::
  "('a, goerr option) sq_prog \<Rightarrow> goerr option action \<Rightarrow> ('a, 'r, 'm) pool \<Rightarrow> ('a, 'r, 'm) pool option" where
  "each_step pg a p =
     (case a of
        Consume b \<Rightarrow> each_consume pg b p
      | Worker i \<Rightarrow> each_worker pg a p
      | SelSend i \<Rightarrow> each_worker pg a p
      | SelBreak i \<Rightarrow> each_worker pg a p
      | SelDone i \<Rightarrow> each_worker pg a p
      | CallEnds i out \<Rightarrow> each_worker pg a p
      | _ \<Rightarrow> env_step pg a p)"

fun each_run ::
  "('a, goerr option) sq_prog \<Rightarrow> goerr option action list \<Rightarrow> ('a, 'r, 'm) pool \<Rightarrow> ('a, 'r, 'm) pool option" where
  "each_run pg [] p = Some p"
| "each_run pg (a # as) p = (case each_step pg a p of None \<Rightarrow> None | Some q \<Rightarrow> each_run pg as q)"

definition each2_prog ::
  "(nat \<Rightarrow> ('k \<times> 'v) option) \<Rightarrow> nat \<Rightarrow> (nat \<Rightarrow> 'k \<Rightarrow> 'v \<Rightarrow> goerr option outcome \<Rightarrow> bool)
     \<Rightarrow> rt_frame list \<Rightarrow> string \<Rightarrow> err_handler \<Rightarrow> int \<Rightarrow> ('k \<times> 'v, goerr option) sq_prog" where
  "each2_prog items n fn pcs name h g =
     \<lparr>sq_src = items, sq_workers = n, sq_fn = (\<lambda>i (k, v). fn i k v), sq_pcs = pcs, sq_name = name,
      sq_handler = h, sq_grace = g\<rparr>"

text \<open>
  \<open>MapUnordered\<close>: the results themselves go through the channel. A send on the closed channel panics;
  a canceled context only drops the result, the head of the loop then returns the error.
\<close>

fun unord_worker ::
  "'r \<Rightarrow> ('a, 'r \<times> goerr option) sq_prog \<Rightarrow> ('r \<times> goerr option) action
     \<Rightarrow> ('a, 'r, nat \<times> 'r \<times> goerr option) pool \<Rightarrow> ('a, 'r, nat \<times> 'r \<times> goerr option) pool option" where
  "unord_worker zero pg (Worker i) p = (case pl_worker p i of WSend _ _ \<Rightarrow> None | _ \<Rightarrow> pull_step pg i p)"
| "unord_worker zero pg (CallEnds i out) p =
     (case pl_worker p i of
        WCall cnt item \<Rightarrow>
          if sq_fn pg cnt item out then
            Some (set_worker i (WSend cnt (map_result zero (sq_pcs pg) out)) (p\<lparr>pl_calls := pl_calls p @ [cnt]\<rparr>))
          else None
      | _ \<Rightarrow> None)"
| "unord_worker zero pg (SelSend i) p =
     (case pl_worker p i of
        WSend cnt r \<Rightarrow>
          if pl_closed p then
            Some (set_worker i (WRet (Some (recover_e (sq_pcs pg) None
              (PanicOther ''send on closed channel'')))) p)
          else if length (pl_chan p) < sq_workers pg then
            Some (set_worker i WTop (p\<lparr>pl_chan := pl_chan p @ [(cnt, r)]\<rparr>))
          else None
      | _ \<Rightarrow> None)"
| "unord_worker zero pg (SelBreak i) p =
     (case pl_worker p i of
        WSend cnt r \<Rightarrow> if pl_early p then Some (set_worker i (WRet None) p) else None
      | _ \<Rightarrow> None)"
| "unord_worker zero pg (SelDone i) p =
     (case pl_worker p i of
        WSend cnt r \<Rightarrow> if pl_done p \<noteq> None then Some (set_worker i WTop p) else None
      | _ \<Rightarrow> None)"
| "unord_worker zero pg _ p = None"

definition yield_unordered ::
  "bool \<Rightarrow> ('a, 'r, nat \<times> 'r \<times> goerr option) pool \<Rightarrow> ('a, 'r, nat \<times> 'r \<times> goerr option) pool option" where
  "yield_unordered b p =
     (case pl_cons p of
        CRange \<Rightarrow>
          (case pl_chan p of
             m # ms \<Rightarrow> Some (p\<lparr>pl_chan := ms, pl_out := pl_out p @ [m], pl_cons := (if b then CRange else CBreak)\<rparr>)
           | [] \<Rightarrow> if pl_closed p then Some (p\<lparr>pl_cons := CFinal\<rparr>) else None)
      | CFinal \<Rightarrow> final_step p
      | _ \<Rightarrow> None)"

definition unord_consume ::
  "('a, 'o) sq_prog \<Rightarrow> bool \<Rightarrow> ('a, 'r, nat \<times> 'r \<times> goerr option) pool
     \<Rightarrow> ('a, 'r, nat \<times> 'r \<times> goerr option) pool option" where
  "unord_consume pg b p =
     (case pl_cons p of
        CRange \<Rightarrow> yield_unordered b p
      | CFinal \<Rightarrow> yield_unordered b p
      | _ \<Rightarrow> setup_step pg b p)"

definition unord_step ::
  "'r \<Rightarrow> ('a, 'r \<times> goerr option) sq_prog \<Rightarrow> ('r \<times> goerr option) action
     \<Rightarrow> ('a, 'r, nat \<times> 'r \<times> goerr option) pool \<Rightarrow> ('a, 'r, nat \<times> 'r \<times> goerr option) pool option" where
  "unord_step zero pg a p =
     (case a of
        Consume b \<Rightarrow> unord_consume pg b p
      | Worker i \<Rightarrow> unord_worker zero pg a p
      | SelSend i \<Rightarrow> unord_worker zero pg a p
      | SelBreak i \<Rightarrow> unord_worker zero pg a p
      | SelDone i \<Rightarrow> unord_worker zero pg a p
      | CallEnds i out \<Rightarrow> unord_worker zero pg a p
      | _ \<Rightarrow> env_step pg a p)"

fun unord_run ::
  "'r \<Rightarrow> ('a, 'r \<times> goerr option) sq_prog \<Rightarrow> ('r \<times> goerr option) action list
     \<Rightarrow> ('a, 'r, nat \<times> 'r \<times> goerr option) pool \<Rightarrow> ('a, 'r, nat \<times> 'r \<times> goerr option) pool option" where
  "unord_run zero pg [] p = Some p"
| "unord_run zero pg (a # as) p =
     (case unord_step zero pg a p of None \<Rightarrow> None | Some q \<Rightarrow> unord_run zero pg as q)"

definition unord2_run ::
  "'r \<Rightarrow> ('k \<times> 'v, 'r \<times> goerr option) sq_prog \<Rightarrow> ('r \<times> goerr option) action list
     \<Rightarrow> ('k \<times> 'v, 'r, nat \<times> 'r \<times> goerr option) pool \<Rightarrow> ('k \<times> 'v, 'r, nat \<times> 'r \<times> goerr option) pool option" where
  "unord2_run zero pg as p = unord_run zero pg as p"

section \<open>The tally of calls\<close>

text \<open>
  Every item that has been taken is in the hands of exactly one worker, or its call has ended; nobody
  holds \<open>nextMu\<close> between steps.
\<close>

definition tally_inv :: "('a, 'o) sq_prog \<Rightarrow> ('a, 'r, 'm) pool \<Rightarrow> bool" where
  "tally_inv pg p \<longleftrightarrow>
     pl_mu p = None \<and> pl_pos p \<le> pl_idx p \<and> (pl_pos p < pl_idx p \<longrightarrow> sq_src pg (pl_pos p) = None)
     \<and> (\<forall>j<pl_pos p. sq_src pg j \<noteq> None)
     \<and> (\<forall>i<pl_started p. finished_phase (pl_worker p i) \<longrightarrow> spoiled p \<or> sq_src pg (pl_pos p) = None)
     \<and> (\<forall>i c x. pl_worker p i = WCall c x \<longrightarrow> sq_src pg c = Some x \<and> c < pl_pos p \<and> c \<notin> set (pl_calls p))
     \<and> (\<forall>i j c x y. pl_worker p i = WCall c x \<and> pl_worker p j = WCall c y \<longrightarrow> i = j)
     \<and> (\<forall>c<pl_pos p. c \<in> set (pl_calls p) \<or> (\<exists>i x. pl_worker p i = WCall c x))
     \<and> distinct (pl_calls p) \<and> set (pl_calls p) \<subseteq> {..<pl_pos p}"

definition not_calling :: "('a, 'r) phase \<Rightarrow> bool" where
  "not_calling w \<longleftrightarrow> (\<forall>c x. w \<noteq> WCall c x)"

lemma not_calling_simps [simp]:
  "not_calling WTop" "not_calling WLock" "not_calling (WRet e)" "not_calling WStop" "not_calling WRelease"
  "not_calling WGone" "\<not> not_calling (WCall c x)" "not_calling (WSend c r)"
  by (auto simp: not_calling_def)

lemma finished_not_calling: "finished_phase w \<Longrightarrow> not_calling w"
  by (cases w) auto

lemma finished_send [simp]: "\<not> finished_phase (WSend c r)"
  by (simp add: finished_phase_def)

text \<open>One worker changes its phase, with no call before or after, or nothing changes at all.\<close>

lemma tally_move:
  assumes inv: "tally_inv pg p"
    and f: "pl_mu q = pl_mu p" "pl_pos q = pl_pos p" "pl_idx q = pl_idx p" "pl_calls q = pl_calls p"
    and w: "\<And>i. pl_worker q i = pl_worker p i \<or> not_calling (pl_worker p i) \<and> not_calling (pl_worker q i)"
    and sp: "spoiled p \<Longrightarrow> spoiled q"
    and fin: "\<And>i. i < pl_started q \<Longrightarrow> finished_phase (pl_worker q i) \<Longrightarrow>
      i < pl_started p \<and> finished_phase (pl_worker p i) \<or> spoiled q \<or> sq_src pg (pl_pos p) = None"
  shows "tally_inv pg q"
proof -
  have call: "pl_worker q i = WCall c x \<longleftrightarrow> pl_worker p i = WCall c x" for i c x
    using w [of i] by (auto simp: not_calling_def)
  have "\<forall>i<pl_started q. finished_phase (pl_worker q i) \<longrightarrow> spoiled q \<or> sq_src pg (pl_pos p) = None"
  proof (intro allI impI)
    fix i assume i: "i < pl_started q" "finished_phase (pl_worker q i)"
    have "\<forall>i<pl_started p. finished_phase (pl_worker p i) \<longrightarrow> spoiled p \<or> sq_src pg (pl_pos p) = None"
      using inv by (simp add: tally_inv_def)
    with fin [OF i] sp show "spoiled q \<or> sq_src pg (pl_pos p) = None" by auto
  qed
  with inv show ?thesis unfolding tally_inv_def f call by simp
qed

lemma tally_idx:
  "tally_inv pg p \<Longrightarrow> sq_src pg (pl_pos p) = None \<Longrightarrow> tally_inv pg (p\<lparr>pl_idx := Suc (pl_idx p)\<rparr>)"
  by (simp add: tally_inv_def spoiled_def)

lemma tally_take:
  assumes inv: "tally_inv pg p" and w: "pl_worker p i = WLock" and x: "sq_src pg (pl_pos p) = Some x"
  shows "tally_inv pg (set_worker i (WCall (pl_idx p) x)
    (p\<lparr>pl_idx := Suc (pl_idx p), pl_pos := Suc (pl_pos p)\<rparr>))"
proof -
  let ?q = "set_worker i (WCall (pl_idx p) x) (p\<lparr>pl_idx := Suc (pl_idx p), pl_pos := Suc (pl_pos p)\<rparr>)"
  have ip: "pl_idx p = pl_pos p" using inv x by (auto simp: tally_inv_def dest: le_neq_implies_less)
  have call: "pl_worker ?q j = WCall c y \<longleftrightarrow> (if j = i then c = pl_pos p \<and> y = x else pl_worker p j = WCall c y)" for j c y
    by (auto simp: ip)
  have new: "pl_pos p \<notin> set (pl_calls p)" using inv by (auto simp: tally_inv_def)
  have sp: "spoiled ?q = spoiled p" by (simp add: spoiled_def)
  have fin: "finished_phase (pl_worker ?q j) \<Longrightarrow> finished_phase (pl_worker p j)" for j by (auto split: if_splits)
  have old: "pl_worker p j = WCall c y \<Longrightarrow> sq_src pg c = Some y \<and> c < pl_pos p \<and> c \<notin> set (pl_calls p)" for j c y
    using inv by (simp add: tally_inv_def)
  have free: "pl_worker p j \<noteq> WCall (pl_pos p) y" for j y using old by blast
  show ?thesis
    unfolding tally_inv_def
  proof (intro conjI)
    show "\<forall>j<pl_started ?q. finished_phase (pl_worker ?q j) \<longrightarrow> spoiled ?q \<or> sq_src pg (pl_pos ?q) = None"
      using inv fin x unfolding sp tally_inv_def by fastforce
    show "\<forall>j c y. pl_worker ?q j = WCall c y \<longrightarrow> sq_src pg c = Some y \<and> c < pl_pos ?q \<and> c \<notin> set (pl_calls ?q)"
      unfolding call using old x new by (auto simp: less_Suc_eq)
    show "\<forall>j k c y z. pl_worker ?q j = WCall c y \<and> pl_worker ?q k = WCall c z \<longrightarrow> j = k"
      using inv free unfolding call tally_inv_def by metis
    show "\<forall>c<pl_pos ?q. c \<in> set (pl_calls ?q) \<or> (\<exists>j y. pl_worker ?q j = WCall c y)"
    proof (intro allI impI)
      fix c assume "c < pl_pos ?q"
      then consider "c = pl_pos p" | "c < pl_pos p" by (auto simp: less_Suc_eq)
      then show "c \<in> set (pl_calls ?q) \<or> (\<exists>j y. pl_worker ?q j = WCall c y)"
      proof cases
        case 1
        then show ?thesis unfolding call by metis
      next
        case 2
        with inv consider "c \<in> set (pl_calls p)" | j y where "pl_worker p j = WCall c y"
          unfolding tally_inv_def by blast
        then show ?thesis
        proof cases
          case (2 j y)
          with w have "j \<noteq> i" by auto
          with 2 show ?thesis unfolding call by metis
        qed simp
      qed
    qed
  qed (use inv x in \<open>auto simp: tally_inv_def ip less_Suc_eq\<close>)
qed

lemma tally_call:
  assumes inv: "tally_inv pg p" and w: "pl_worker p i = WCall c x" and y: "not_calling y" "\<not> finished_phase y"
  shows "tally_inv pg (set_worker i y (p\<lparr>pl_calls := pl_calls p @ [c]\<rparr>))"
proof -
  let ?q = "set_worker i y (p\<lparr>pl_calls := pl_calls p @ [c]\<rparr>)"
  have call: "pl_worker ?q j = WCall d z \<longleftrightarrow> j \<noteq> i \<and> pl_worker p j = WCall d z" for j d z
    using y(1) by auto
  have c: "c < pl_pos p" "c \<notin> set (pl_calls p)" using inv w by (auto simp: tally_inv_def)
  have one: "pl_worker p j = WCall c z \<Longrightarrow> j = i" for j z using inv w unfolding tally_inv_def by blast
  have sp: "spoiled ?q = spoiled p" by (simp add: spoiled_def handed_def pending_def)
  have fin: "finished_phase (pl_worker ?q j) \<Longrightarrow> finished_phase (pl_worker p j)" for j
    using y(2) by (auto split: if_splits)
  show ?thesis
    unfolding tally_inv_def
  proof (intro conjI)
    show "\<forall>j<pl_started ?q. finished_phase (pl_worker ?q j) \<longrightarrow> spoiled ?q \<or> sq_src pg (pl_pos ?q) = None"
      using inv fin unfolding sp tally_inv_def by simp
    show "\<forall>j d z. pl_worker ?q j = WCall d z \<longrightarrow> sq_src pg d = Some z \<and> d < pl_pos ?q \<and> d \<notin> set (pl_calls ?q)"
      unfolding call using inv one by (auto simp: tally_inv_def)
    show "\<forall>j k d y z. pl_worker ?q j = WCall d y \<and> pl_worker ?q k = WCall d z \<longrightarrow> j = k"
      using inv unfolding call tally_inv_def by blast
    show "\<forall>d<pl_pos ?q. d \<in> set (pl_calls ?q) \<or> (\<exists>j z. pl_worker ?q j = WCall d z)"
    proof (intro allI impI)
      fix d assume "d < pl_pos ?q"
      then have "d \<in> set (pl_calls p) \<or> (\<exists>j z. pl_worker p j = WCall d z)" using inv by (simp add: tally_inv_def)
      with w show "d \<in> set (pl_calls ?q) \<or> (\<exists>j z. pl_worker ?q j = WCall d z)" unfolding call by force
    qed
  qed (use inv c in \<open>auto simp: tally_inv_def\<close>)
qed


section \<open>Frames of the common steps\<close>

lemma tally_stop_only:
  assumes "tally_inv pg p" and "stop_only p q"
  shows "tally_inv pg q"
  by (rule tally_move [OF assms(1)])
    (use assms(2) later_spoiled in \<open>auto simp: stop_only_def same_core_def\<close>)

lemma finish_core: "finish_step pg i p = Some q \<Longrightarrow> same_core p q"
  by (auto simp: finish_step_def stop_only_def same_core_def pool_errors_def
      split: phase.splits option.splits err_handler.splits dest!: stop_only_pool(3) stop_only_apply)

lemma tally_finish:
  assumes inv: "tally_inv pg p" and st: "stop_inv p" and e: "finish_step pg i p = Some q"
  shows "tally_inv pg q"
proof -
  obtain x where x: "finished_phase x" "pl_worker q = (pl_worker p)(i := x)" "pl_started q = pl_started p" "later p q"
    using finish_frame [OF e] by blast
  have w: "finished_phase (pl_worker p i)"
    using e by (auto simp: finish_step_def finished_phase_def split: phase.splits)
  show ?thesis
    by (rule tally_move [OF inv])
      (use finish_core [OF e] x w finished_not_calling later_spoiled [OF x(4)] in \<open>auto simp: same_core_def split: if_splits\<close>)
qed

lemma quiet_spoiled:
  assumes "stop_inv p" and "pl_worker p i \<noteq> WGone" and "pl_done p \<noteq> None \<or> pl_closed p"
  shows "spoiled p"
  using stop_inv_quiet [OF assms(1,2)] assms(3) by (auto simp: spoiled_def closing_def)

lemma tally_pull:
  assumes inv: "tally_inv pg p" and st: "stop_inv p" and e: "pull_step pg i p = Some q"
  shows "tally_inv pg q \<and> stop_inv q"
proof (cases "pl_worker p i")
  case WTop
  with e have q: "q = set_worker i (check_top p) p" by (simp add: pull_step_def)
  have c: "not_calling (check_top p)" "check_top p \<noteq> WGone" "finished_phase (check_top p) \<Longrightarrow> spoiled p"
    using quiet_spoiled [OF st, of i] WTop by (auto simp: check_top_def split: option.splits)
  have "tally_inv pg q"
    by (rule tally_move [OF inv]) (use q c WTop in \<open>auto split: if_splits\<close>)
  moreover have "stop_inv q"
    unfolding q by (rule stop_inv_worker [OF st]) (use WTop c in \<open>simp_all add: same_stop_def\<close>)
  ultimately show ?thesis by simp
next
  case WLock
  show ?thesis
  proof (cases "sq_src pg (pl_pos p)")
    case None
    with e WLock have q: "q = set_worker i (WRet None) (p\<lparr>pl_idx := Suc (pl_idx p)\<rparr>)"
      by (simp add: pull_step_def take_next_def Let_def split: if_splits)
    have "tally_inv pg q"
      by (rule tally_move [OF tally_idx [OF inv None]])
        (use q WLock None in \<open>auto simp: spoiled_def split: if_splits\<close>)
    moreover have "stop_inv q"
      unfolding q by (rule stop_inv_worker [OF st]) (use WLock in \<open>simp_all add: same_stop_def\<close>)
    ultimately show ?thesis by simp
  next
    case (Some x)
    with e WLock have q: "q = set_worker i (WCall (pl_idx p) x) (p\<lparr>pl_idx := Suc (pl_idx p), pl_pos := Suc (pl_pos p)\<rparr>)"
      by (simp add: pull_step_def take_next_def Let_def split: if_splits)
    have "stop_inv q"
      unfolding q by (rule stop_inv_worker [OF st]) (use WLock in \<open>simp_all add: same_stop_def\<close>)
    with tally_take [OF inv WLock Some] q show ?thesis by simp
  qed
qed (use e tally_finish [OF inv st] finish_step_inv [OF st] in \<open>auto simp: pull_step_def\<close>)

lemma setup_frame:
  assumes st: "stop_inv p" and e: "setup_step pg b p = Some q"
  shows "same_core p q \<and> later p q \<and> (pl_closed p \<longrightarrow> pl_closed q)
    \<and> (\<forall>i. pl_worker q i = pl_worker p i \<or> pl_worker p i = WGone \<and> pl_worker q i = WTop)
    \<and> (\<forall>i<pl_started q. i < pl_started p \<or> pl_worker q i = WTop)"
proof -
  have so: ?thesis if "stop_only (p\<lparr>pl_cons := c\<rparr>) q" "pl_closed q = pl_closed p" for c
    using that by (auto simp: stop_only_def same_core_def later_def)
  have gone: "pl_worker p (pl_started p) = WGone" using st by (simp add: stop_inv_def)
  show ?thesis
  proof (cases "pl_cons p")
    case CDefer
    with e show ?thesis
      by (auto simp: setup_step_def close_results_def pool_errors_def same_core_def split: prod.splits bool.splits if_splits)
  next
    case (CStart k)
    show ?thesis
    proof (cases k)
      case 0
      with e CStart show ?thesis by (auto simp: setup_step_def same_core_def)
    next
      case (Suc m)
      let ?p = "p\<lparr>pl_cons := CStart m\<rparr>"
      from e CStart Suc have sw: "start_worker b ?p = Some q" by (simp add: setup_step_def)
      show ?thesis
      proof (cases "is_stopping (pl_st ?p) \<or> \<not> b")
        case True
        with sw have "q = pool_errors [Some ErrStopped] ?p" by (simp add: start_worker_def)
        then show ?thesis
          by (auto simp: pool_errors_def same_core_def)
      next
        case False
        with sw obtain p1 r where a: "pool_apply 1 ?p = Some (p1, r)"
            "q = (if r then p1\<lparr>pl_worker := (pl_worker p1)(pl_started p1 := WTop), pl_started := Suc (pl_started p1)\<rparr>
                  else pool_errors [Some ErrStopped] p1)"
          by (auto simp: start_worker_def split: option.splits prod.splits bool.splits)
        have c: "pl_closed p1 = pl_closed p" using a(1) by (auto simp: pool_apply_def split: sum.splits)
        from stop_only_apply [OF a(1)] a(2) gone c show ?thesis
          by (auto simp: stop_only_def same_core_def later_def handed_def pending_def pool_errors_def less_Suc_eq)
      qed
    qed
  next
    case CIdle
    with e have s: "pool_stop_idle (sq_grace pg) (p\<lparr>pl_cons := CRange\<rparr>) = Some q" by (simp add: setup_step_def)
    then have "pl_closed q = pl_closed p" by (auto simp: pool_stop_idle_def locked_def split: sum.splits)
    with so [OF stop_only_pool(4) [OF s]] show ?thesis by simp
  next
    case CStopping
    with e have s: "pool_stop (sq_grace pg) (p\<lparr>pl_cons := CLock\<rparr>) = Some q" by (simp add: setup_step_def)
    then have "pl_closed q = pl_closed p" by (auto simp: pool_stop_def locked_def split: sum.splits)
    with so [OF stop_only_pool(3) [OF s]] show ?thesis by simp
  qed (use e in \<open>auto simp: setup_step_def same_core_def split: if_splits\<close>)
qed

lemma tally_setup:
  assumes inv: "tally_inv pg p" and st: "stop_inv p" and e: "setup_step pg b p = Some q"
  shows "tally_inv pg q"
proof -
  note f = setup_frame [OF st e]
  have w: "pl_worker q i = pl_worker p i \<or> pl_worker p i = WGone \<and> pl_worker q i = WTop"
    and s: "i < pl_started q \<Longrightarrow> i < pl_started p \<or> pl_worker q i = WTop" for i
    using f by blast+
  show ?thesis
  proof (rule tally_move [OF inv])
    fix i
    show "pl_worker q i = pl_worker p i \<or> not_calling (pl_worker p i) \<and> not_calling (pl_worker q i)"
      using w [of i] by auto
    assume "i < pl_started q" "finished_phase (pl_worker q i)"
    with w [of i] s [of i]
    show "i < pl_started p \<and> finished_phase (pl_worker p i) \<or> spoiled q \<or> sq_src pg (pl_pos p) = None" by auto
  qed (use f later_spoiled in \<open>auto simp: same_core_def\<close>)
qed

lemma setup_started:
  assumes "setup_step pg b p = Some q" and "pl_started p + to_start pg (pl_cons p) \<le> sq_workers pg"
  shows "pl_started q + to_start pg (pl_cons q) \<le> sq_workers pg"
proof (cases "pl_cons p")
  case CDefer
  with assms show ?thesis
    by (auto simp: setup_step_def close_results_def pool_errors_def to_start_def split: prod.splits bool.splits)
next
  case (CStart k)
  show ?thesis
  proof (cases k)
    case 0
    with assms CStart show ?thesis by (auto simp: setup_step_def to_start_def)
  next
    case (Suc m)
    with assms CStart have "start_worker b (p\<lparr>pl_cons := CStart m\<rparr>) = Some q" by (simp add: setup_step_def)
    with start_worker_frame [OF this] assms CStart Suc show ?thesis by (simp add: to_start_def)
  qed
next
  case CIdle
  with assms(1) have s: "pool_stop_idle (sq_grace pg) (p\<lparr>pl_cons := CRange\<rparr>) = Some q" by (simp add: setup_step_def)
  from stop_only_pool(4) [OF this] assms(2) CIdle show ?thesis by (simp add: stop_only_def to_start_def)
next
  case CStopping
  with assms(1) have s: "pool_stop (sq_grace pg) (p\<lparr>pl_cons := CLock\<rparr>) = Some q" by (simp add: setup_step_def)
  from stop_only_pool(3) [OF this] assms(2) CStopping show ?thesis by (simp add: stop_only_def to_start_def)
qed (use assms in \<open>auto simp: setup_step_def to_start_def split: if_splits\<close>)


section \<open>\<open>ForEach\<close>\<close>

text \<open>Errors are never lost.\<close>

definition errs_grow :: "('a, 'r, 'm) pool \<Rightarrow> ('b, 's, 'n) pool \<Rightarrow> bool" where
  "errs_grow p q \<longleftrightarrow> set (errors_of (pl_st p)) \<subseteq> set (errors_of (pl_st q))"

lemma crit_step_errs: "crit_step s fs t cbs \<Longrightarrow> wf_state s \<Longrightarrow> set (mu_errs s) \<subseteq> set (mu_errs t)"
  using crit_step_grows [of s fs t cbs] wf_state_core by (force simp: stop_grows_def)

lemma pool_errs:
  assumes "wf_state (pl_st p)"
  shows "pool_stop g p = Some q \<Longrightarrow> errs_grow p q \<and> pl_done q = pl_done p"
    and "pool_stop_idle g p = Some q \<Longrightarrow> errs_grow p q \<and> pl_done q = pl_done p"
    and "pool_apply d p = Some (q, b) \<Longrightarrow> errs_grow p q \<and> pl_done q = pl_done p"
    and "errs_grow p (pool_errors es p) \<and> pl_done (pool_errors es p) = pl_done p"
  using assms
  by (auto simp: pool_stop_def pool_stop_idle_def pool_apply_def locked_def errs_grow_def errors_of_def
      pool_errors_def add_errors_eq split: sum.splits
      dest!: crit_step_errs [OF crit_step.stop] crit_step_errs [OF crit_step.stop_on_idle]
        crit_step_errs [OF crit_step.applied])

lemma errs_grow_refl [simp]: "pl_st q = pl_st p \<Longrightarrow> errs_grow p q"
  by (simp add: errs_grow_def)

lemma env_errs:
  assumes st: "stop_inv p" and e: "env_step pg a p = Some q"
  shows "errs_grow p q \<and> (pl_done p \<noteq> None \<longrightarrow> pl_done q \<noteq> None)"
proof -
  have wf: "wf_state (pl_st p)" using st by (simp add: stop_inv_def)
  have same: "errs_grow (r\<lparr>pl_others := k\<rparr>) q = errs_grow r q" "errs_grow q (r\<lparr>pl_others := k\<rparr>) = errs_grow q r"
    for k and r q :: "('a, 'c, 'd) pool" by (simp_all add: errs_grow_def)
  show ?thesis
  proof (cases a)
    case (Callback i)
    with e obtain cb cbs where "q = run_cb pg cb (p\<lparr>pl_cbs := (pl_cbs p)[i := cbs]\<rparr>)"
      by (auto split: if_splits list.splits)
    then show ?thesis
      by (cases cb) (auto simp: close_results_def pool_errors_def errs_grow_def errors_of_def add_errors_eq split: option.splits)
  next
    case (EnvStop g)
    with e pool_errs(1) [OF wf] show ?thesis by auto
  next
    case EnvTimer
    obtain t cbs where t: "grace_timer_locked (pl_st p) = (t, cbs)" by fastforce
    from e EnvTimer have "0 < pl_fired p" by (simp split: if_splits)
    with st have "mu_stopping (pl_st p)" by (simp add: stop_inv_def)
    from crit_step_errs [OF crit_step.grace [OF this t] wf] e EnvTimer t show ?thesis
      by (auto simp: locked_def errs_grow_def errors_of_def split: if_splits)
  next
    case (EnvTask b)
    show ?thesis
    proof (cases b)
      case True
      with e EnvTask obtain p1 r where "pool_apply 1 p = Some (p1, r)"
          "q = (if r then p1\<lparr>pl_others := Suc (pl_others p1)\<rparr> else p1)"
        by (auto split: option.splits)
      with pool_errs(3) [OF wf this(1)] show ?thesis by (auto simp: errs_grow_def)
    next
      case False
      with e EnvTask obtain r where "pool_apply (- 1) (p\<lparr>pl_others := pl_others p - 1\<rparr>) = Some (q, r)"
        by (auto split: if_splits)
      from pool_errs(3) [OF _ this] wf show ?thesis by (auto simp: errs_grow_def)
    qed
  qed (use e in \<open>auto simp: errs_grow_def errors_of_def pool_errors_def add_errors_eq add_deferred_def split: if_splits\<close>)
qed

lemma finish_errs:
  assumes st: "stop_inv p" and e: "finish_step pg i p = Some q"
  shows "errs_grow p q \<and> pl_done q = pl_done p"
proof (cases "pl_worker p i")
  case (WRet r)
  with e show ?thesis
    by (cases r; cases "sq_handler pg")
      (auto simp: finish_step_def errs_grow_def errors_of_def pool_errors_def add_errors_eq)
next
  case WStop
  with e have "pool_stop (sq_grace pg) (set_worker i WRelease p) = Some q" by (simp add: finish_step_def)
  from pool_errs(1) [OF _ this] st show ?thesis by (simp add: stop_inv_def errs_grow_def)
next
  case WRelease
  with e obtain b where "pool_apply (- 1) (set_worker i WGone p) = Some (q, b)" by (auto simp: finish_step_def)
  from pool_errs(3) [OF _ this] st show ?thesis by (simp add: stop_inv_def errs_grow_def)
qed (use e in \<open>auto simp: finish_step_def\<close>)

lemma setup_errs:
  assumes st: "stop_inv p" and e: "setup_step pg b p = Some q"
  shows "errs_grow p q \<and> pl_done q = pl_done p"
proof -
  have wf: "wf_state (pl_st p)" using st by (simp add: stop_inv_def)
  have c: "errs_grow (p\<lparr>pl_cons := c\<rparr>) q = errs_grow p q" for c by (simp add: errs_grow_def)
  show ?thesis
  proof (cases "pl_cons p")
    case CDefer
    with e show ?thesis
      by (auto simp: setup_step_def close_results_def pool_errors_def errs_grow_def errors_of_def add_errors_eq
          add_deferred_def split: prod.splits bool.splits if_splits)
  next
    case (CStart k)
    show ?thesis
    proof (cases k)
      case 0
      with e CStart show ?thesis by (auto simp: setup_step_def)
    next
      case (Suc m)
      let ?p = "p\<lparr>pl_cons := CStart m\<rparr>"
      from e CStart Suc have sw: "start_worker b ?p = Some q" by (simp add: setup_step_def)
      show ?thesis
      proof (cases "is_stopping (pl_st ?p) \<or> \<not> b")
        case True
        with sw have "q = pool_errors [Some ErrStopped] ?p" by (simp add: start_worker_def)
        with pool_errs(4) [of ?p] wf c show ?thesis by auto
      next
        case False
        with sw obtain p1 r where a: "pool_apply 1 ?p = Some (p1, r)"
            "q = (if r then p1\<lparr>pl_worker := (pl_worker p1)(pl_started p1 := WTop), pl_started := Suc (pl_started p1)\<rparr>
                  else pool_errors [Some ErrStopped] p1)"
          by (auto simp: start_worker_def split: option.splits prod.splits bool.splits)
        from pool_errs(3) [OF _ a(1)] wf a(2) show ?thesis
          by (auto simp: errs_grow_def errors_of_def pool_errors_def add_errors_eq)
      qed
    qed
  next
    case CIdle
    with e have "pool_stop_idle (sq_grace pg) (p\<lparr>pl_cons := CRange\<rparr>) = Some q" by (simp add: setup_step_def)
    from pool_errs(2) [OF _ this] wf c show ?thesis by simp
  next
    case CStopping
    with e have "pool_stop (sq_grace pg) (p\<lparr>pl_cons := CLock\<rparr>) = Some q" by (simp add: setup_step_def)
    from pool_errs(1) [OF _ this] wf c show ?thesis by simp
  qed (use e in \<open>auto simp: setup_step_def split: if_splits\<close>)
qed

lemma pool_wait_is:
  assumes "e \<in> set (errors_of (pl_st p))" and "\<And>es. e \<noteq> JoinError es"
  shows "errors_is_opt (pool_wait c p) e"
proof -
  have "errors_is_opt (Some e) e" by (simp add: errors_is_opt_def)
  then have "errors_is_opt (errors_join (map Some (errors_of (pl_st p)))) e"
    using assms by (auto simp: errors_is_join)
  then show ?thesis using assms(2) by (simp add: pool_wait_def Let_def errors_is_join)
qed

text \<open>What has become of the errors of the calls that have ended.\<close>

definition reported :: "('a, goerr option) sq_prog \<Rightarrow> (goerr \<Rightarrow> bool) \<Rightarrow> nat list \<Rightarrow> bool" where
  "reported pg R cs \<longleftrightarrow> (\<forall>c\<in>set cs. \<exists>x out. sq_src pg c = Some x \<and> sq_fn pg c x out
     \<and> (\<forall>e. each_result (sq_pcs pg) out = Some e \<longrightarrow> R (WrapError (''index '' @ nat_str c) e)))"

lemma reported_mono:
  "reported pg R cs \<Longrightarrow> (\<And>m e. R (WrapError m e) \<Longrightarrow> S (WrapError m e)) \<Longrightarrow> reported pg S cs"
  unfolding reported_def by metis

definition each_flow :: "('a, goerr option) sq_prog \<Rightarrow> ('a, 'r, 'm) pool \<Rightarrow> bool" where
  "each_flow pg p \<longleftrightarrow>
     pl_started p + to_start pg (pl_cons p) \<le> sq_workers pg
     \<and> reported pg (\<lambda>e. e \<in> set (errors_of (pl_st p))) (pl_calls p)
     \<and> (after_range (pl_cons p) \<and> \<not> spoiled p \<longrightarrow>
          pl_done p \<noteq> None \<and> reported pg (errors_is_opt (pl_final p)) (pl_calls p))"

definition each_inv :: "('a, goerr option) sq_prog \<Rightarrow> ('a, 'r, 'm) pool \<Rightarrow> bool" where
  "each_inv pg p \<longleftrightarrow> stop_inv p \<and> tally_inv pg p \<and> each_flow pg p"

lemma each_flow_move:
  assumes fl: "each_flow pg p" and e: "errs_grow p q" and d: "pl_done p \<noteq> None \<Longrightarrow> pl_done q \<noteq> None"
    and l: "spoiled p \<Longrightarrow> spoiled q" and f: "pl_calls q = pl_calls p" "pl_final q = pl_final p"
    and s: "pl_started q + to_start pg (pl_cons q) \<le> sq_workers pg"
    and c: "after_range (pl_cons q) \<Longrightarrow> after_range (pl_cons p) \<or> spoiled q"
  shows "each_flow pg q"
proof -
  have "reported pg (\<lambda>e. e \<in> set (errors_of (pl_st q))) (pl_calls q)"
    using fl e f by (auto simp: each_flow_def errs_grow_def intro: reported_mono)
  with fl d l f s c show ?thesis by (auto simp: each_flow_def)
qed

lemma final_kept:
  "finish_step pg i p = Some q \<Longrightarrow> pl_final q = pl_final p"
  "setup_step pg b p = Some q \<Longrightarrow> pl_final q = pl_final p"
  "env_step pg a p = Some q \<Longrightarrow> pl_final q = pl_final p"
proof -
  have l: "pl_final q = pl_final p" if "locked r p = Some q" for r and p q :: "('a, 'r, 'm) pool"
    using that by (auto simp: locked_def split: sum.splits)
  have a: "pl_final q = pl_final p" if "pool_apply d p = Some (q, b)" for d b and p q :: "('a, 'r, 'm) pool"
    using that by (auto simp: pool_apply_def split: sum.splits)
  show "finish_step pg i p = Some q \<Longrightarrow> pl_final q = pl_final p"
    by (auto simp: finish_step_def pool_errors_def pool_stop_def set_worker_def
        split: phase.splits option.splits err_handler.splits dest!: l a)
  show "setup_step pg b p = Some q \<Longrightarrow> pl_final q = pl_final p"
    by (auto simp: setup_step_def pool_errors_def pool_stop_def pool_stop_idle_def start_worker_def close_results_def
        split: consumer.splits option.splits nat.splits prod.splits bool.splits if_splits dest!: l a)
  have c: "pl_final (run_cb pg cb p) = pl_final p" for pg :: "('a, 'o) sq_prog" and cb and p :: "('a, 'r, 'm) pool"
    by (cases cb) (simp_all add: close_results_def pool_errors_def)
  show "env_step pg a p = Some q \<Longrightarrow> pl_final q = pl_final p"
    by (cases "(pg, a, p)" rule: env_step.cases)
      (auto simp: pool_errors_def pool_stop_def split: option.splits list.splits if_splits bool.splits
        simp: c dest!: l a)
qed


lemma each_flow_move0:
  assumes "each_flow pg p" and "errs_grow p q" and "pl_done p \<noteq> None \<Longrightarrow> pl_done q \<noteq> None" and "later p q"
    and "pl_calls q = pl_calls p" "pl_final q = pl_final p" "pl_started q = pl_started p" "pl_cons q = pl_cons p"
  shows "each_flow pg q"
  by (rule each_flow_move [OF assms(1-3)]) (use assms later_spoiled in \<open>auto simp: each_flow_def\<close>)

lemma each_inv_pull:
  assumes inv: "each_inv pg p" and e: "pull_step pg i p = Some q"
  shows "each_inv pg q"
proof -
  have st: "stop_inv p" and ta: "tally_inv pg p" and fl: "each_flow pg p" using inv by (simp_all add: each_inv_def)
  have "each_flow pg q"
  proof (cases "finish_step pg i p = Some q")
    case True
    then obtain x where x: "pl_started q = pl_started p" "pl_cons q = pl_cons p" "later p q"
      using finish_frame by blast
    show ?thesis
      by (rule each_flow_move0 [OF fl])
        (use x finish_errs [OF st True] finish_core [OF True] final_kept(1) [OF True] in \<open>simp_all add: same_core_def\<close>)
  next
    case False
    with e have "pl_st q = pl_st p" "pl_done q = pl_done p" "later p q" "pl_calls q = pl_calls p"
        "pl_final q = pl_final p" "pl_started q = pl_started p" "pl_cons q = pl_cons p"
      by (auto simp: pull_step_def take_next_def Let_def set_worker_def split: phase.splits option.splits if_splits)
    then show ?thesis by (intro each_flow_move0 [OF fl]) simp_all
  qed
  with tally_pull [OF ta st e] show ?thesis by (simp add: each_inv_def)
qed

lemma call_errs_fields [simp]:
  "pl_done (each_error c x p) = pl_done p" "pl_parent (each_error c x p) = pl_parent p"
  "pl_calls (each_error c x p) = pl_calls p" "pl_final (each_error c x p) = pl_final p"
  "pl_started (each_error c x p) = pl_started p" "pl_cons (each_error c x p) = pl_cons p"
  "spoiled (each_error c x p) = spoiled p"
  "set_worker i w (each_error c x p) = each_error c x (set_worker i w p)"
  by (auto simp: each_error_def pool_errors_def spoiled_def handed_def pending_def set_worker_def split: option.splits)

lemma each_error_errs:
  "errors_of (pl_st (each_error c x p)) = errors_of (pl_st p)
     @ (case x of None \<Rightarrow> [] | Some e \<Rightarrow> [WrapError (''index '' @ nat_str c) e])"
  by (auto simp: each_error_def pool_errors_def errors_of_def add_errors_eq split: option.splits)

lemma each_error_stop_only: "stop_only p (each_error c x p)"
  using stop_only_errors [of p] by (auto simp: each_error_def stop_only_def same_core_def split: option.splits)

lemma each_error_inv: "stop_inv p \<Longrightarrow> stop_inv (each_error c x p)"
  using env_step_inv [of p "undefined" "EnvErrors es" for es] by (auto simp: each_error_def split: option.splits)

lemma each_inv_call:
  assumes inv: "each_inv pg p" and w: "pl_worker p i = WCall c x" and out: "sq_fn pg c x out"
  shows "each_inv pg (set_worker i WTop (each_error c (each_result (sq_pcs pg) out) (p\<lparr>pl_calls := pl_calls p @ [c]\<rparr>)))"
    (is "each_inv pg ?q")
proof -
  let ?r = "p\<lparr>pl_calls := pl_calls p @ [c]\<rparr>"
  let ?e = "each_result (sq_pcs pg) out"
  have st: "stop_inv p" and ta: "tally_inv pg p" and fl: "each_flow pg p" using inv by (simp_all add: each_inv_def)
  have q: "?q = each_error c ?e (set_worker i WTop ?r)" by simp
  have "stop_inv (set_worker i WTop ?r)"
    by (rule stop_inv_worker [OF st]) (use w in \<open>simp_all add: same_stop_def\<close>)
  then have s: "stop_inv ?q" unfolding q by (rule each_error_inv)
  have t: "tally_inv pg ?q"
    unfolding q by (rule tally_stop_only [OF tally_call [OF ta w] each_error_stop_only]) simp_all
  have "spoiled ?r = spoiled p" by (simp add: spoiled_def handed_def pending_def)
  then have sp: "spoiled ?q = spoiled p" unfolding q by simp
  have src: "sq_src pg c = Some x" using ta w by (simp add: tally_inv_def)
  have "reported pg (\<lambda>e. e \<in> set (errors_of (pl_st ?q))) (pl_calls p)"
    using fl by (auto simp: each_flow_def each_error_errs intro: reported_mono)
  then have "reported pg (\<lambda>e. e \<in> set (errors_of (pl_st ?q))) (pl_calls ?q)"
    using src out unfolding reported_def by (auto simp: each_error_errs)
  moreover have "spoiled p" if "after_range (pl_cons p)"
    using quiet_spoiled [OF st, of i] that fl w by (auto simp: each_flow_def)
  ultimately have "each_flow pg ?q" using fl sp by (auto simp: each_flow_def)
  with s t show ?thesis by (simp add: each_inv_def)
qed

lemma setup_cons:
  assumes e: "setup_step pg b p = Some q"
  shows "pl_cons q \<noteq> CFinal \<and> (\<forall>k. pl_cons q \<noteq> CSlot k)
    \<and> (after_range (pl_cons q) \<longrightarrow> after_range (pl_cons p) \<or> pl_early q)"
proof (cases "pl_cons p")
  case CDefer
  with e show ?thesis
    by (auto simp: setup_step_def after_range_def close_results_def pool_errors_def split: prod.splits bool.splits if_splits)
next
  case (CStart k)
  then have "pl_cons q = CIdle \<or> pl_cons q = CStart (k - 1)"
    using e start_worker_frame [of b "p\<lparr>pl_cons := CStart (k - 1)\<rparr>" q] by (cases k) (auto simp: setup_step_def)
  then show ?thesis by (auto simp: after_range_def)
next
  case CIdle
  with e have "pool_stop_idle (sq_grace pg) (p\<lparr>pl_cons := CRange\<rparr>) = Some q" by (simp add: setup_step_def)
  from stop_only_pool(4) [OF this] show ?thesis by (simp add: stop_only_def after_range_def)
next
  case CStopping
  with e have "pool_stop (sq_grace pg) (p\<lparr>pl_cons := CLock\<rparr>) = Some q" by (simp add: setup_step_def)
  from stop_only_pool(3) [OF this] CStopping show ?thesis by (simp add: stop_only_def after_range_def)
qed (use e in \<open>auto simp: setup_step_def after_range_def split: if_splits\<close>)

lemma each_inv_setup:
  assumes inv: "each_inv pg p" and e: "setup_step pg b p = Some q"
  shows "each_inv pg q"
proof -
  have st: "stop_inv p" and ta: "tally_inv pg p" and fl: "each_flow pg p" using inv by (simp_all add: each_inv_def)
  note f = setup_frame [OF st e]
  have "after_range (pl_cons q) \<Longrightarrow> after_range (pl_cons p) \<or> spoiled q"
    using setup_cons [OF e] by (auto simp: spoiled_def)
  then have "each_flow pg q"
    by (intro each_flow_move [OF fl])
      (use f later_spoiled setup_errs [OF st e] final_kept(2) [OF e] setup_started [OF e] fl in
        \<open>auto simp: same_core_def each_flow_def\<close>)
  with tally_setup [OF ta st e] setup_step_inv [OF st e] show ?thesis by (simp add: each_inv_def)
qed

lemma each_inv_wait:
  assumes inv: "each_inv pg p" and e: "each_wait b p = Some q" and c: "pl_cons p = CRange"
  shows "each_inv pg q"
proof -
  have st: "stop_inv p" and ta: "tally_inv pg p" and fl: "each_flow pg p" using inv by (simp_all add: each_inv_def)
  obtain f where q: "q = p\<lparr>pl_final := f, pl_cons := CStopping\<rparr>"
      and fin: "\<not> spoiled p \<Longrightarrow> pl_done p \<noteq> None \<and> (\<exists>y. f = pool_wait y p)"
    using e by (auto simp: each_wait_def spoiled_def split: option.splits prod.splits)
  have sp: "spoiled q = spoiled p" "pl_calls q = pl_calls p" by (simp_all add: q spoiled_def handed_def pending_def)
  have "reported pg (errors_is_opt (pl_final q)) (pl_calls q)" if n: "\<not> spoiled q"
  proof -
    from n sp fin obtain y where y: "f = pool_wait y p" by auto
    have "errors_is_opt (pl_final q) (WrapError m x)" if "WrapError m x \<in> set (errors_of (pl_st p))" for m x
      using pool_wait_is [OF that] by (simp add: q y)
    then show ?thesis using fl unfolding sp each_flow_def by (auto intro: reported_mono)
  qed
  then have "each_flow pg q"
    using fl fin c sp by (auto simp: each_flow_def q to_start_def)
  moreover have "stop_inv q"
    by (rule stop_inv_same [OF st]) (use st in \<open>simp_all add: q same_stop_def n_active_def stop_inv_def\<close>)
  moreover have "tally_inv pg q"
    by (rule tally_move [OF ta]) (use sp in \<open>simp_all add: q\<close>)
  ultimately show ?thesis by (simp add: each_inv_def)
qed

lemma each_inv_step:
  assumes inv: "each_inv pg p" and e: "each_step pg a p = Some q"
  shows "each_inv pg q"
proof -
  have st: "stop_inv p" and ta: "tally_inv pg p" and fl: "each_flow pg p" using inv by (simp_all add: each_inv_def)
  have n: ?thesis if x: "env_step pg a p = Some q"
  proof -
    have so: "stop_only p q" by (rule env_step_frame [OF x])
    have "each_flow pg q"
      by (rule each_flow_move0 [OF fl])
        (use so env_errs [OF st x] final_kept(3) [OF x] in \<open>simp_all add: stop_only_def same_core_def\<close>)
    with env_step_inv [OF st x] tally_stop_only [OF ta so] show ?thesis by (simp add: each_inv_def)
  qed
  have c: ?thesis if "each_consume pg b p = Some q" for b
    using that each_inv_wait [OF inv, of b q] each_inv_setup [OF inv, of b q]
    by (cases "pl_cons p") (simp_all add: each_consume_def)
  have w: ?thesis if x: "each_worker pg a p = Some q"
  proof (cases a)
    case (CallEnds i out)
    with x obtain d y where "pl_worker p i = WCall d y" "sq_fn pg d y out"
        "q = set_worker i WTop (each_error d (each_result (sq_pcs pg) out) (p\<lparr>pl_calls := pl_calls p @ [d]\<rparr>))"
      by (auto split: phase.splits if_splits)
    with each_inv_call [OF inv this(1,2)] show ?thesis by simp
  qed (use x each_inv_pull [OF inv] in auto)
  show ?thesis using e n c w
    by (cases a) (simp_all add: each_step_def del: env_step.simps each_worker.simps)
qed

interpretation for_each: invariant_system
  "\<lambda>p. \<exists>par. p = each_start pg par" "\<lambda>p q. \<exists>a. each_step pg a p = Some q" "each_inv pg" for pg
proof unfold_locales
  fix p :: "('a, 'b, 'c) pool"
  assume "\<exists>par. p = each_start pg par"
  then obtain par where p: "p = new_pool par (CStart (sq_workers pg))" by (auto simp: each_start_def)
  have "stop_inv p"
    by (simp add: p stop_inv_def new_pool_def wf_new_state n_active_def handed_def pending_def closing_def)
  moreover have "tally_inv pg p" by (simp add: p tally_inv_def new_pool_def)
  moreover have "each_flow pg p" by (simp add: p each_flow_def new_pool_def reported_def after_range_def to_start_def)
  ultimately show "each_inv pg p" by (simp add: each_inv_def)
qed (blast intro: each_inv_step)

lemma each_run_inv:
  assumes "each_run pg as (each_start pg par) = Some p"
  shows "each_inv pg p"
proof -
  have "(\<lambda>p q. \<exists>a. each_step pg a p = Some q)\<^sup>*\<^sup>* r p" if "each_run pg as r = Some p" for r
    using that
  proof (induction as arbitrary: r)
    case (Cons a as)
    then obtain s where "each_step pg a r = Some s" "each_run pg as s = Some p" by (auto split: option.splits)
    with Cons.IH show ?case by (metis (mono_tags, lifting) converse_rtranclp_into_rtranclp)
  qed simp
  from for_each.inv_reachable [OF _ this [OF assms]] show ?thesis by blast
qed


lemma tally_all_gone:
  assumes ta: "tally_inv pg p" and gone: "\<And>i. pl_worker p i = WGone" and s: "\<not> spoiled p" "0 < pl_started p"
    and n: "sq_src pg n = None" "\<And>j. j < n \<Longrightarrow> sq_src pg j \<noteq> None"
  shows "set (pl_calls p) = {..<n}"
proof -
  have "sq_src pg (pl_pos p) = None" "\<forall>j<pl_pos p. sq_src pg j \<noteq> None"
    using ta s gone by (auto simp: tally_inv_def)
  with n have "pl_pos p = n" by (metis linorder_neqE_nat)
  then show ?thesis using ta gone by (auto simp: tally_inv_def)
qed

text \<open>
  In every run of \<open>ForEach\<close> the callback is called at most once for an item, only for items of the
  sequence, and at most \<open>numWorkers\<close> calls are in progress at any time.
\<close>

theorem each_bounded:
  assumes "each_run pg as (each_start pg par) = Some p"
  shows "distinct (pl_calls p) \<and> (\<forall>c\<in>set (pl_calls p). sq_src pg c \<noteq> None)
    \<and> (\<forall>i c x. pl_worker p i = WCall c x \<longrightarrow> c \<notin> set (pl_calls p))
    \<and> card {i. \<exists>c x. pl_worker p i = WCall c x} \<le> sq_workers pg"
proof -
  have inv: "stop_inv p" "tally_inv pg p" "each_flow pg p"
    using each_run_inv [OF assms] by (simp_all add: each_inv_def)
  have "\<forall>i\<ge>pl_started p. pl_worker p i = WGone" using inv(1) by (simp add: stop_inv_def)
  then have "{i. \<exists>c x. pl_worker p i = WCall c x} \<subseteq> {..<pl_started p}"
    by (auto intro: ccontr simp: not_less)
  then have "card {i. \<exists>c x. pl_worker p i = WCall c x} \<le> pl_started p" by (metis card_lessThan card_mono finite_lessThan)
  then show ?thesis using inv by (auto simp: tally_inv_def each_flow_def)
qed

text \<open>
  C17: \<open>ForEach\<close> over \<open>n\<close> items that has started at least one worker and returns without an outside cancellation
  or an expired grace period has called the callback exactly once for every item, and the error it returns holds, in the sense of \<open>errors.Is\<close>, the
  error or panic of every call, wrapped with the index of its item.
\<close>

theorem each_complete:
  assumes "each_run pg as (each_start pg par) = Some p" and "pl_cons p = CDone" and "\<not> spoiled p"
    and "0 < pl_started p" and "sq_src pg n = None" and "\<And>j. j < n \<Longrightarrow> sq_src pg j \<noteq> None"
  shows "distinct (pl_calls p) \<and> set (pl_calls p) = {..<n}
    \<and> (\<forall>c<n. \<exists>x out. sq_src pg c = Some x \<and> sq_fn pg c x out
        \<and> (\<forall>e. each_result (sq_pcs pg) out = Some e \<longrightarrow>
             errors_is_opt (pl_final p) (WrapError (''index '' @ nat_str c) e)))"
proof -
  have inv: "stop_inv p" "tally_inv pg p" "each_flow pg p"
    using each_run_inv [OF assms(1)] by (simp_all add: each_inv_def)
  then have d: "pl_done p \<noteq> None" and r: "reported pg (errors_is_opt (pl_final p)) (pl_calls p)"
    using assms(2,3) by (auto simp: each_flow_def after_range_def)
  have gone: "pl_worker p i = WGone" for i using quiet_spoiled [OF inv(1), of i] d assms(3) by blast
  have c: "set (pl_calls p) = {..<n}" by (rule tally_all_gone [OF inv(2) gone assms(3-6)])
  have "distinct (pl_calls p)" using inv(2) by (simp add: tally_inv_def)
  with c r show ?thesis by (auto simp: reported_def)
qed

section \<open>\<open>MapUnordered\<close>\<close>

text \<open>Every ended call's result is with its worker, in the channel, or has been yielded.\<close>

definition delivered :: "('a, 'r, nat \<times> 'r \<times> goerr option) pool \<Rightarrow> nat list" where
  "delivered p = map fst (pl_out p @ pl_chan p)"

definition genuine ::
  "'r \<Rightarrow> ('a, 'r \<times> goerr option) sq_prog \<Rightarrow> nat \<Rightarrow> 'r \<times> goerr option \<Rightarrow> bool" where
  "genuine zero pg c r \<longleftrightarrow>
     (\<exists>x out. sq_src pg c = Some x \<and> sq_fn pg c x out \<and> r = map_result zero (sq_pcs pg) out)"

definition relay_inv ::
  "'r \<Rightarrow> ('a, 'r \<times> goerr option) sq_prog \<Rightarrow> ('a, 'r, nat \<times> 'r \<times> goerr option) pool \<Rightarrow> bool" where
  "relay_inv zero pg p \<longleftrightarrow>
     distinct (delivered p) \<and> set (delivered p) \<subseteq> set (pl_calls p)
     \<and> (\<forall>(c, r)\<in>set (pl_out p @ pl_chan p). genuine zero pg c r)
     \<and> (\<forall>i c r. pl_worker p i = WSend c r \<longrightarrow>
          c \<in> set (pl_calls p) \<and> c \<notin> set (delivered p) \<and> genuine zero pg c r)
     \<and> (\<forall>i j c r s. pl_worker p i = WSend c r \<and> pl_worker p j = WSend c s \<longrightarrow> i = j)
     \<and> (\<not> spoiled p \<longrightarrow> (\<forall>c\<in>set (pl_calls p). c \<in> set (delivered p) \<or> (\<exists>i r. pl_worker p i = WSend c r)))"

definition relay_flow :: "('a, 'r, 'm) pool \<Rightarrow> bool" where
  "relay_flow p \<longleftrightarrow>
     (pl_cons p = CFinal \<longrightarrow> pl_closed p)
     \<and> (after_range (pl_cons p) \<longrightarrow> pl_early p \<or> pl_closed p)
     \<and> (pl_cons p = CFinal \<or> after_range (pl_cons p) \<longrightarrow> spoiled p \<or> pl_chan p = [])
     \<and> (\<forall>k. pl_cons p \<noteq> CSlot k)"

definition unord_inv ::
  "'r \<Rightarrow> ('a, 'r \<times> goerr option) sq_prog \<Rightarrow> ('a, 'r, nat \<times> 'r \<times> goerr option) pool \<Rightarrow> bool" where
  "unord_inv zero pg p \<longleftrightarrow> stop_inv p \<and> tally_inv pg p \<and> relay_inv zero pg p \<and> relay_flow p"

lemma relay_move:
  assumes inv: "relay_inv zero pg p" and f: "pl_out q @ pl_chan q = pl_out p @ pl_chan p" "pl_calls q = pl_calls p"
    and w: "\<And>i c r. pl_worker q i = WSend c r \<longleftrightarrow> pl_worker p i = WSend c r" and sp: "spoiled p \<Longrightarrow> spoiled q"
  shows "relay_inv zero pg q"
proof -
  have d: "delivered q = delivered p" by (simp only: delivered_def f(1))
  show ?thesis using inv sp unfolding relay_inv_def d w f by blast
qed

text \<open>A worker gives up its result.\<close>

lemma relay_drop:
  assumes inv: "relay_inv zero pg p" and x: "\<And>c r. x \<noteq> WSend c r" and sp: "spoiled p"
  shows "relay_inv zero pg (set_worker i x p)"
proof -
  have d: "delivered (set_worker i x p) = delivered p" by (simp add: delivered_def)
  have s: "pl_worker (set_worker i x p) j = WSend b y \<longleftrightarrow> j \<noteq> i \<and> pl_worker p j = WSend b y" for j b y
    using x by simp
  have f: "pl_out (set_worker i x p) = pl_out p" "pl_chan (set_worker i x p) = pl_chan p"
      "pl_calls (set_worker i x p) = pl_calls p" "spoiled (set_worker i x p) = spoiled p" by simp_all
  show ?thesis using inv sp unfolding relay_inv_def d s f by blast
qed

lemma relay_send:
  assumes inv: "relay_inv zero pg p" and w: "pl_worker p i = WSend c r"
  shows "relay_inv zero pg (set_worker i WTop (p\<lparr>pl_chan := pl_chan p @ [(c, r)]\<rparr>))" (is "relay_inv zero pg ?q")
proof -
  have d: "delivered ?q = delivered p @ [c]" by (simp add: delivered_def)
  have s: "pl_worker ?q j = WSend b y \<longleftrightarrow> j \<noteq> i \<and> pl_worker p j = WSend b y" for j b y by simp
  have f: "pl_calls ?q = pl_calls p" "pl_out ?q @ pl_chan ?q = (pl_out p @ pl_chan p) @ [(c, r)]"
      "spoiled ?q = spoiled p" by (simp_all add: spoiled_def)
  have c: "c \<in> set (pl_calls p)" "c \<notin> set (delivered p)" "genuine zero pg c r"
    using inv w unfolding relay_inv_def by blast+
  have one: "pl_worker p j = WSend c y \<Longrightarrow> j = i" for j y using inv w unfolding relay_inv_def by blast
  have all: "\<forall>b\<in>set (pl_calls p). b \<in> set (delivered p @ [c]) \<or> (\<exists>j y. j \<noteq> i \<and> pl_worker p j = WSend b y)"
    if "\<not> spoiled p"
  proof
    fix b assume "b \<in> set (pl_calls p)"
    with inv that consider "b \<in> set (delivered p)" | j y where "pl_worker p j = WSend b y"
      unfolding relay_inv_def by blast
    then show "b \<in> set (delivered p @ [c]) \<or> (\<exists>j y. j \<noteq> i \<and> pl_worker p j = WSend b y)"
      using w by cases (auto, metis phase.inject(3))
  qed
  show ?thesis
    unfolding relay_inv_def d s f
  proof (intro conjI impI)
    show "\<forall>j b y. j \<noteq> i \<and> pl_worker p j = WSend b y \<longrightarrow>
        b \<in> set (pl_calls p) \<and> b \<notin> set (delivered p @ [c]) \<and> genuine zero pg b y"
    proof (intro allI impI)
      fix j b y assume j: "j \<noteq> i \<and> pl_worker p j = WSend b y"
      then have "b \<noteq> c" using one by blast
      moreover have "b \<in> set (pl_calls p) \<and> b \<notin> set (delivered p) \<and> genuine zero pg b y"
        using inv j unfolding relay_inv_def by blast
      ultimately show "b \<in> set (pl_calls p) \<and> b \<notin> set (delivered p @ [c]) \<and> genuine zero pg b y" by simp
    qed
    show "\<forall>j k b y z. (j \<noteq> i \<and> pl_worker p j = WSend b y) \<and> (k \<noteq> i \<and> pl_worker p k = WSend b z) \<longrightarrow> j = k"
      using inv unfolding relay_inv_def by blast
  qed (use inv c all in \<open>auto simp: relay_inv_def\<close>)
qed

lemma relay_call:
  assumes inv: "relay_inv zero pg p" and ta: "tally_inv pg p" and w: "pl_worker p i = WCall c x" and out: "sq_fn pg c x out"
  shows "relay_inv zero pg (set_worker i (WSend c (map_result zero (sq_pcs pg) out)) (p\<lparr>pl_calls := pl_calls p @ [c]\<rparr>))"
    (is "relay_inv zero pg ?q")
proof -
  let ?r = "map_result zero (sq_pcs pg) out"
  have d: "delivered ?q = delivered p" by (simp add: delivered_def)
  have s: "pl_worker ?q j = WSend b y \<longleftrightarrow> (if j = i then b = c \<and> y = ?r else pl_worker p j = WSend b y)" for j b y
    by auto
  have f: "pl_calls ?q = pl_calls p @ [c]" "pl_out ?q @ pl_chan ?q = pl_out p @ pl_chan p"
      "spoiled ?q = spoiled p" by (simp_all add: spoiled_def handed_def pending_def)
  have c: "sq_src pg c = Some x" "c \<notin> set (pl_calls p)" using ta w by (auto simp: tally_inv_def)
  then have n: "c \<notin> set (delivered p)" "genuine zero pg c ?r"
    using inv out by (auto simp: relay_inv_def genuine_def)
  have old: "pl_worker p j = WSend b y \<Longrightarrow> b \<in> set (pl_calls p) \<and> b \<notin> set (delivered p) \<and> genuine zero pg b y" for j b y
    using inv unfolding relay_inv_def by blast
  have free: "pl_worker p j \<noteq> WSend c y" for j y using old c(2) by blast
  show ?thesis
    unfolding relay_inv_def d f
  proof (intro conjI impI)
    show "\<forall>j b y. pl_worker ?q j = WSend b y \<longrightarrow>
        b \<in> set (pl_calls p @ [c]) \<and> b \<notin> set (delivered p) \<and> genuine zero pg b y"
      unfolding s using old n by auto
    show "\<forall>j k b y z. pl_worker ?q j = WSend b y \<and> pl_worker ?q k = WSend b z \<longrightarrow> j = k"
      using inv free unfolding s relay_inv_def by (metis (full_types))
    show "\<forall>b\<in>set (pl_calls p @ [c]). b \<in> set (delivered p) \<or> (\<exists>j y. pl_worker ?q j = WSend b y)" if "\<not> spoiled p"
    proof
      fix b assume "b \<in> set (pl_calls p @ [c])"
      then consider "b = c" | "b \<in> set (pl_calls p)" by auto
      then show "b \<in> set (delivered p) \<or> (\<exists>j y. pl_worker ?q j = WSend b y)"
      proof cases
        case 1
        then show ?thesis unfolding s by metis
      next
        case 2
        with inv that consider "b \<in> set (delivered p)" | j y where "pl_worker p j = WSend b y"
          unfolding relay_inv_def by blast
        then show ?thesis
        proof cases
          case (2 j y)
          with w have "j \<noteq> i" by auto
          with 2 show ?thesis unfolding s by metis
        qed simp
      qed
    qed
  qed (use inv in \<open>auto simp: relay_inv_def\<close>)
qed


lemma pull_frame:
  assumes e: "pull_step pg i p = Some q"
  shows "pl_out q = pl_out p \<and> pl_chan q = pl_chan p \<and> pl_calls q = pl_calls p \<and> pl_cons q = pl_cons p
    \<and> pl_early q = pl_early p \<and> pl_closed q = pl_closed p \<and> later p q
    \<and> (\<forall>j c r. pl_worker q j = WSend c r \<longleftrightarrow> pl_worker p j = WSend c r)"
proof (cases "finish_step pg i p = Some q")
  case True
  then have w: "finished_phase (pl_worker p i)"
    by (auto simp: finish_step_def finished_phase_def split: phase.splits)
  from finish_frame [OF True] obtain x where "finished_phase x" "pl_worker q = (pl_worker p)(i := x)"
      "pl_cons q = pl_cons p" "pl_early q = pl_early p" "pl_closed q = pl_closed p" "later p q" by blast
  with w finish_core [OF True] show ?thesis by (auto simp: same_core_def finished_phase_def)
next
  case False
  with e have "pl_worker p i = WTop \<or> pl_worker p i = WLock" by (auto simp: pull_step_def split: phase.splits)
  with e False show ?thesis
    by (auto simp: pull_step_def take_next_def check_top_def Let_def set_worker_def split: option.splits if_splits)
qed

lemma relay_flow_move:
  assumes "relay_flow p" and "pl_cons q = pl_cons p" "pl_chan q = pl_chan p" "pl_closed p \<Longrightarrow> pl_closed q"
    and "later p q"
  shows "relay_flow q"
  using assms later_spoiled [OF assms(5)] unfolding relay_flow_def later_def by metis

lemma unord_inv_stop_only:
  assumes inv: "unord_inv zero pg p" and so: "stop_only p q" and st: "stop_inv q" and c: "pl_closed p \<Longrightarrow> pl_closed q"
  shows "unord_inv zero pg q"
proof -
  have "relay_inv zero pg q"
    by (rule relay_move [of zero pg p]) (use inv so later_spoiled in \<open>auto simp: unord_inv_def stop_only_def same_core_def\<close>)
  moreover have "relay_flow q"
    by (rule relay_flow_move [of p]) (use inv so c in \<open>auto simp: unord_inv_def stop_only_def same_core_def\<close>)
  ultimately show ?thesis using inv st tally_stop_only [OF _ so, of pg] by (simp add: unord_inv_def)
qed

lemma unord_inv_worker:
  assumes inv: "unord_inv zero pg p" and e: "unord_worker zero pg a p = Some q"
  shows "unord_inv zero pg q"
proof -
  have st: "stop_inv p" and ta: "tally_inv pg p" and re: "relay_inv zero pg p" and fl: "relay_flow p"
    using inv by (simp_all add: unord_inv_def)
  have lv: "unord_inv zero pg (set_worker i x p)"
    if "pl_worker p i = WSend c r" "not_calling x" "x \<noteq> WGone" "\<And>c r. x \<noteq> WSend c r" "spoiled p" for i x c r
  proof -
    have "stop_inv (set_worker i x p)"
      by (rule stop_inv_worker [OF st]) (use that in \<open>simp_all add: same_stop_def\<close>)
    moreover have "tally_inv pg (set_worker i x p)"
      by (rule tally_move [OF ta]) (use that in auto)
    moreover have "relay_flow (set_worker i x p)"
      by (rule relay_flow_move [OF fl]) (simp_all add: set_worker_def)
    ultimately show ?thesis using relay_drop [OF re that(4,5)] by (simp add: unord_inv_def)
  qed
  show ?thesis
  proof (cases a)
    case (Worker i)
    with e have p: "pull_step pg i p = Some q" by (auto split: phase.splits)
    note f = pull_frame [OF p]
    have "relay_inv zero pg q" by (rule relay_move [OF re]) (use f later_spoiled in auto)
    moreover have "relay_flow q" by (rule relay_flow_move [OF fl]) (use f in auto)
    ultimately show ?thesis using tally_pull [OF ta st p] by (simp add: unord_inv_def)
  next
    case (CallEnds i out)
    with e obtain c x where w: "pl_worker p i = WCall c x" "sq_fn pg c x out"
        and q: "q = set_worker i (WSend c (map_result zero (sq_pcs pg) out)) (p\<lparr>pl_calls := pl_calls p @ [c]\<rparr>)"
      by (auto split: phase.splits if_splits)
    have "stop_inv q"
      unfolding q by (rule stop_inv_worker [OF st]) (use w in \<open>simp_all add: same_stop_def\<close>)
    moreover have "relay_flow q" unfolding q by (rule relay_flow_move [OF fl]) (simp_all add: set_worker_def)
    ultimately show ?thesis
      using relay_call [OF re ta w] tally_call [OF ta w(1)] q by (simp add: unord_inv_def)
  next
    case (SelSend i)
    with e obtain c r where w: "pl_worker p i = WSend c r" by (auto split: phase.splits)
    show ?thesis
    proof (cases "pl_closed p")
      case True
      with e SelSend w quiet_spoiled [OF st, of i] lv [OF w] show ?thesis by auto
    next
      case False
      with e SelSend w have q: "q = set_worker i WTop (p\<lparr>pl_chan := pl_chan p @ [(c, r)]\<rparr>)" by (simp split: if_splits)
      have "stop_inv q"
        unfolding q by (rule stop_inv_worker [OF st]) (use w in \<open>simp_all add: same_stop_def\<close>)
      moreover have "tally_inv pg q"
        unfolding q by (rule tally_move [OF ta]) (use w in \<open>auto simp: spoiled_def split: if_splits\<close>)
      moreover have "relay_flow q" using fl False by (auto simp: relay_flow_def q spoiled_def)
      ultimately show ?thesis using relay_send [OF re w] q by (simp add: unord_inv_def)
    qed
  next
    case (SelBreak i)
    with e obtain c r where w: "pl_worker p i = WSend c r" "pl_early p" "q = set_worker i (WRet None) p"
      by (auto split: phase.splits if_splits)
    with lv [OF w(1), of "WRet None"] show ?thesis by (simp add: spoiled_def)
  next
    case (SelDone i)
    with e obtain c r where w: "pl_worker p i = WSend c r" "pl_done p \<noteq> None" "q = set_worker i WTop p"
      by (auto split: phase.splits if_splits)
    with lv [OF w(1), of WTop] quiet_spoiled [OF st, of i] show ?thesis by simp
  qed (use e in auto)
qed

lemma unord_inv_consume:
  assumes inv: "unord_inv zero pg p" and e: "unord_consume pg b p = Some q"
  shows "unord_inv zero pg q"
proof (cases "pl_cons p \<in> {CRange, CFinal}")
  case True
  have st: "stop_inv p" and ta: "tally_inv pg p" and re: "relay_inv zero pg p" and fl: "relay_flow p"
    using inv by (simp_all add: unord_inv_def)
  from True e have y: "yield_unordered b p = Some q" by (auto simp: unord_consume_def)
  then have f: "pl_out q @ pl_chan q = pl_out p @ pl_chan p" "pl_calls q = pl_calls p" "pl_worker q = pl_worker p"
      "pl_started q = pl_started p" "same_stop p q" "pl_others q = pl_others p" "spoiled q = spoiled p"
      "pl_mu q = pl_mu p" "pl_pos q = pl_pos p" "pl_idx q = pl_idx p"
    by (auto simp: yield_unordered_def final_step_def same_stop_def spoiled_def handed_def pending_def
        split: consumer.splits list.splits option.splits if_splits)
  have "stop_inv q"
    using f n_active_cong [of q p] st by (intro stop_inv_same [OF st]) (simp_all add: stop_inv_def)
  moreover have "tally_inv pg q" by (rule tally_move [OF ta]) (use f in simp_all)
  moreover have "relay_inv zero pg q" by (rule relay_move [OF re]) (use f in simp_all)
  moreover have "relay_flow q"
    using y fl f(7) by (auto simp: yield_unordered_def final_step_def relay_flow_def after_range_def
        split: consumer.splits list.splits option.splits if_splits)
  ultimately show ?thesis by (simp add: unord_inv_def)
next
  case False
  have st: "stop_inv p" and ta: "tally_inv pg p" and re: "relay_inv zero pg p" and fl: "relay_flow p"
    using inv by (simp_all add: unord_inv_def)
  from False e have s: "setup_step pg b p = Some q" by (cases "pl_cons p") (simp_all add: unord_consume_def)
  note f = setup_frame [OF st s]
  have "relay_inv zero pg q"
  proof (rule relay_move [OF re])
    fix i c r
    have "pl_worker q i = pl_worker p i \<or> pl_worker p i = WGone \<and> pl_worker q i = WTop" using f by blast
    then show "pl_worker q i = WSend c r \<longleftrightarrow> pl_worker p i = WSend c r" by auto
  qed (use f later_spoiled in \<open>auto simp: same_core_def\<close>)
  moreover have "relay_flow q"
    using setup_cons [OF s] f fl later_spoiled [of p q] unfolding relay_flow_def same_core_def later_def spoiled_def
    by metis
  ultimately show ?thesis using setup_step_inv [OF st s] tally_setup [OF ta st s] by (simp add: unord_inv_def)
qed

lemma unord_inv_step:
  assumes inv: "unord_inv zero pg p" and e: "unord_step zero pg a p = Some q"
  shows "unord_inv zero pg q"
proof -
  have st: "stop_inv p" using inv by (simp add: unord_inv_def)
  have n: ?thesis if x: "env_step pg a p = Some q"
    by (rule unord_inv_stop_only [OF inv env_step_frame [OF x] env_step_inv [OF st x] env_closed [OF x]])
  show ?thesis using e n unord_inv_consume [OF inv] unord_inv_worker [OF inv]
    by (cases a) (simp_all add: unord_step_def del: env_step.simps unord_worker.simps)
qed

interpretation unordered: invariant_system
  "\<lambda>p. \<exists>par. p = new_pool par CDefer" "\<lambda>p q. \<exists>a. unord_step zero pg a p = Some q" "unord_inv zero pg" for zero pg
proof unfold_locales
  fix p :: "('a, 'b, nat \<times> 'b \<times> goerr option) pool"
  assume "\<exists>par. p = new_pool par CDefer"
  then obtain par where p: "p = new_pool par CDefer" by blast
  have "stop_inv p"
    by (simp add: p stop_inv_def new_pool_def wf_new_state n_active_def handed_def pending_def closing_def)
  moreover have "tally_inv pg p" by (simp add: p tally_inv_def new_pool_def)
  moreover have "relay_inv zero pg p" "relay_flow p"
    by (simp_all add: p relay_inv_def relay_flow_def delivered_def new_pool_def after_range_def)
  ultimately show "unord_inv zero pg p" by (simp add: unord_inv_def)
qed (blast intro: unord_inv_step)

lemma unord_run_inv:
  assumes "unord_run zero pg as (new_pool par CDefer) = Some p"
  shows "unord_inv zero pg p"
proof -
  have "(\<lambda>p q. \<exists>a. unord_step zero pg a p = Some q)\<^sup>*\<^sup>* r p" if "unord_run zero pg as r = Some p" for r
    using that
  proof (induction as arbitrary: r)
    case (Cons a as)
    then obtain s where "unord_step zero pg a r = Some s" "unord_run zero pg as s = Some p" by (auto split: option.splits)
    with Cons.IH show ?case by (metis (mono_tags, lifting) converse_rtranclp_into_rtranclp)
  qed simp
  from unordered.inv_reachable [OF _ this [OF assms]] show ?thesis by blast
qed



section \<open>Complete runs\<close>

text \<open>
  \<open>ForEach\<close> over two items, the second of which fails, and \<open>MapUnordered\<close> over two items with two
  workers, the second of which is faster.
\<close>

definition each_demo :: "(nat, goerr option) sq_prog" where
  "each_demo = \<lparr>sq_src = (\<lambda>i. if i < 2 then Some i else None), sq_workers = 1,
     sq_fn = (\<lambda>i x out. out = Return (if i = 1 then Some (FmtError ''bad'') else None)), sq_pcs = [], sq_name = '''',
     sq_handler = ErrorHandlerRecord, sq_grace = 5\<rparr>"

definition each_demo_run :: "goerr option action list" where
  "each_demo_run = [Consume True, Consume True, Consume True, Worker 0, Worker 0, CallEnds 0 (Return None),
     Worker 0, Worker 0, CallEnds 0 (Return (Some (FmtError ''bad''))), Worker 0, Worker 0, Worker 0, Worker 0,
     Callback 0, Consume True, Consume True, Consume True]"

definition unord_demo :: "(nat, nat \<times> goerr option) sq_prog" where
  "unord_demo = \<lparr>sq_src = (\<lambda>i. if i < 2 then Some i else None), sq_workers = 2,
     sq_fn = (\<lambda>i x out. out = Return (x + 7, None)), sq_pcs = [], sq_name = '''',
     sq_handler = ErrorHandlerRecord, sq_grace = 5\<rparr>"

definition unord_demo_run :: "(nat \<times> goerr option) action list" where
  "unord_demo_run = replicate 5 (Consume True) @ [Worker 0, Worker 0, Worker 1, Worker 1,
     CallEnds 1 (Return (8, None)), SelSend 1, CallEnds 0 (Return (7, None)), SelSend 0,
     Worker 0, Worker 0, Worker 0, Worker 0, Worker 1, Worker 1, Worker 1, Worker 1, Callback 0, Callback 0]
     @ replicate 6 (Consume True)"

lemma each_demo_result:
  "map_option (\<lambda>p :: (nat, unit, unit) pool. (pl_cons p, pl_calls p, pl_early p, pl_parent p, pl_cancels p, concat (pl_cbs p), pl_started p))
     (each_run each_demo each_demo_run (each_start each_demo None))
   = Some (CDone, [0, 1], False, None, [ErrStopped], [], 1)"
  by code_simp

lemma unord_demo_result:
  "map_option (\<lambda>p. (pl_cons p, pl_out p, pl_early p, pl_parent p, pl_cancels p, concat (pl_cbs p), pl_started p))
     (unord_run 0 unord_demo unord_demo_run (new_pool None CDefer))
   = Some (CDone, [(1, 8, None), (0, 7, None)], False, None, [ErrStopped], [], 2)"
  by code_simp

lemma each_bounded_witness:
  "\<exists>p :: (nat, unit, unit) pool. each_run each_demo each_demo_run (each_start each_demo None) = Some p
     \<and> distinct (pl_calls p) \<and> card {i. \<exists>c x. pl_worker p i = WCall c x} \<le> 1"
proof -
  obtain p :: "(nat, unit, unit) pool" where p: "each_run each_demo each_demo_run (each_start each_demo None) = Some p"
    using each_demo_result by auto
  from each_bounded [OF p] p show ?thesis by (auto simp: each_demo_def)
qed

lemma each_complete_witness:
  "\<exists>p :: (nat, unit, unit) pool. each_run each_demo each_demo_run (each_start each_demo None) = Some p
     \<and> set (pl_calls p) = {..<2} \<and> errors_is_opt (pl_final p) (WrapError ''index 1'' (FmtError ''bad''))"
proof -
  obtain p :: "(nat, unit, unit) pool" where p: "each_run each_demo each_demo_run (each_start each_demo None) = Some p"
    using each_demo_result by auto
  have f: "pl_cons p = CDone" "pl_early p = False" "pl_parent p = None" "pl_cancels p = [ErrStopped]"
      "concat (pl_cbs p) = []" "pl_started p = 1"
    using each_demo_result p by simp_all
  have "\<not> spoiled p" using f by (auto simp: spoiled_def handed_def pending_def)
  from each_complete [OF p f(1) this, of 2] f(6)
  have c: "set (pl_calls p) = {..<2}" "\<forall>c<2. \<exists>x out. sq_src each_demo c = Some x \<and> sq_fn each_demo c x out
        \<and> (\<forall>e. each_result (sq_pcs each_demo) out = Some e \<longrightarrow>
             errors_is_opt (pl_final p) (WrapError (''index '' @ nat_str c) e))"
    by (simp_all add: each_demo_def)
  have r: "each_result (sq_pcs each_demo) (Return (Some (FmtError ''bad''))) = Some (FmtError ''bad'')"
    "''index '' @ nat_str 1 = ''index 1''" by code_simp+
  have "errors_is_opt (pl_final p) (WrapError (''index '' @ nat_str 1) (FmtError ''bad''))"
    using c(2) [rule_format, of 1] r(1) by (simp add: each_demo_def)
  with p c(1) r(2) show ?thesis by auto
qed


end
