(* ===== verification/Seq_Live.thy ===== *)
theory Seq_Live
  imports Seq_Each Seq_Measure Terminating
begin

text \<open>
  Liveness of \<open>ForEach\<close> and \<open>MapUnordered\<close>: as long as the nested stopper runs no tasks of others, some
  internal action is enabled until the function has returned, and every internal action makes the
  measure of Seq_Measure smaller. Unlike \<open>Map\<close>, they hold no mutex while they wait, so this includes
  runs in which the grace period expires.
\<close>

section \<open>What both have in common\<close>

definition no_select :: "('a, 'r, 'm) pool \<Rightarrow> bool" where
  "no_select p \<longleftrightarrow> (\<forall>i c x. pl_worker p i \<noteq> WSelect c x)"

lemma no_select_move:
  "no_select p \<Longrightarrow> (\<And>i c x. pl_worker q i = WSelect c x \<Longrightarrow> pl_worker p i = WSelect c x) \<Longrightarrow> no_select q"
  unfolding no_select_def by blast

lemma stopper_flow_kept:
  "stopper_flow d g p \<Longrightarrow> stop_inv p \<Longrightarrow> sectioned p q \<Longrightarrow> pl_cons q = pl_cons p \<Longrightarrow> stopper_flow d g q"
  by (rule stopper_flow_section) auto

lemma pull_cases:
  assumes "pull_step pg i p = Some q"
  obtains (finish) "finish_step pg i p = Some q"
    | (top) "pl_worker p i = WTop" "q = set_worker i (check_top p) p"
    | (over) "pl_worker p i = WLock" "sq_src pg (pl_pos p) = None"
        "q = set_worker i (WRet None) (p\<lparr>pl_idx := Suc (pl_idx p)\<rparr>)"
    | (take) x where "pl_worker p i = WLock" "sq_src pg (pl_pos p) = Some x"
        "q = set_worker i (WCall (pl_idx p) x) (p\<lparr>pl_idx := Suc (pl_idx p), pl_pos := Suc (pl_pos p)\<rparr>)"
proof (cases "pl_worker p i")
  case WTop
  with assms top show thesis by (simp add: pull_step_def)
next
  case WLock
  with assms over take show thesis
    by (cases "sq_src pg (pl_pos p)") (auto simp: pull_step_def take_next_def Let_def split: if_splits)
qed (use assms finish in \<open>auto simp: pull_step_def\<close>)

lemma pull_live:
  assumes st: "stop_inv p" and fl: "stopper_flow d g p" and ns: "no_select p" and e: "pull_step pg i p = Some q"
  shows "stopper_flow d g q \<and> no_select q \<and> pl_started q = pl_started p \<and> pl_others q = pl_others p
    \<and> (\<forall>j c r. pl_worker q j = WSend c r \<longrightarrow> pl_worker p j = WSend c r)"
  using e
proof (cases rule: pull_cases)
  case finish
  from finish_frame [OF this] obtain x where x: "finished_phase x" "pl_worker q = (pl_worker p)(i := x)"
      "pl_cons q = pl_cons p" "pl_started q = pl_started p" by blast
  have "stopper_flow d g q" using stopper_flow_kept [OF fl st sectioned_finish [OF finish] x(3)] .
  moreover have "no_select q"
    by (rule no_select_move [OF ns]) (use x(1,2) in \<open>auto simp: finished_phase_def split: if_splits\<close>)
  moreover have "pl_others q = pl_others p"
    using finish by (auto simp: finish_step_def pool_errors_def pool_stop_def set_worker_def locked_def pool_apply_def
        split: phase.splits option.splits err_handler.splits sum.splits)
  ultimately show ?thesis using x by (auto simp: finished_phase_def split: if_splits)
next
  case top
  have "stopper_flow d g q"
    by (rule stopper_flow_kept [OF fl st sectioned_same]) (simp_all add: top same_stop_def)
  moreover have "no_select q"
    using ns by (auto simp: top no_select_def check_top_def split: option.splits)
  ultimately show ?thesis by (auto simp: top check_top_def set_worker_def split: option.splits if_splits)
next
  case over
  have "stopper_flow d g q"
    by (rule stopper_flow_kept [OF fl st sectioned_same]) (simp_all add: over same_stop_def)
  with ns show ?thesis by (simp add: over no_select_def set_worker_def)
next
  case (take x)
  have "stopper_flow d g q"
    by (rule stopper_flow_kept [OF fl st sectioned_same]) (simp_all add: take same_stop_def)
  with ns show ?thesis by (simp add: take no_select_def set_worker_def)
qed

lemma setup_live:
  assumes st: "stop_inv p" and fl: "stopper_flow d g p" and ns: "no_select p" and e: "setup_step pg b p = Some q"
    and early: "d \<Longrightarrow> pl_cons p = CDefer \<Longrightarrow> g \<or> mu_count (pl_st p) = 0"
  shows "stopper_flow d g q \<and> no_select q \<and> pl_others q = pl_others p"
proof -
  have w: "pl_worker q i = pl_worker p i \<or> pl_worker p i = WGone \<and> pl_worker q i = WTop" for i
    using setup_frame [OF st e] by blast
  have "no_select q"
  proof (rule no_select_move [OF ns])
    fix i c x assume "pl_worker q i = WSelect c x"
    with w [of i] show "pl_worker p i = WSelect c x" by auto
  qed
  moreover have "pl_others q = pl_others p"
    using e by (auto simp: setup_step_def pool_errors_def pool_stop_def pool_stop_idle_def start_worker_def
        close_results_def locked_def pool_apply_def
        split: consumer.splits option.splits nat.splits prod.splits bool.splits if_splits sum.splits)
  ultimately show ?thesis using stopper_flow_setup [OF fl st e early] by simp
qed

text \<open>Another task of the nested stopper, started or ended by somebody else.\<close>

fun other_task :: "'o action \<Rightarrow> bool" where
  "other_task (EnvTask b) = True"
| "other_task _ = False"

lemma env_live:
  assumes st: "stop_inv p" and fl: "stopper_flow d g p" and ns: "no_select p" and e: "env_step pg a p = Some q"
  shows "stopper_flow d g q \<and> no_select q \<and> pl_started q = pl_started p \<and> pl_cons q = pl_cons p
    \<and> pl_worker q = pl_worker p \<and> (\<not> other_task a \<longrightarrow> pl_others q = pl_others p)"
proof -
  have so: "stop_only p q" by (rule env_step_frame [OF e])
  have run: "pl_others (run_cb pg cb r) = pl_others r" for cb r
    by (cases cb) (simp_all add: close_results_def pool_errors_def)
  have "pl_others q = pl_others p" if "\<not> other_task a"
    using e that by (cases "(pg, a, p)" rule: env_step.cases)
      (auto simp: pool_stop_def locked_def pool_errors_def run split: if_splits list.splits sum.splits prod.splits)
  with so ns stopper_flow_env [OF fl st e] show ?thesis by (simp add: stop_only_def no_select_def)
qed

lemma all_gone_cancel:
  assumes st: "stop_inv p" and fl: "stopper_flow d g p" and o: "pl_others p = 0"
    and c: "\<not> before_range (pl_cons p)" and gone: "\<forall>i. pl_worker p i = WGone"
  shows "mu_cancel (pl_st p) = None"
proof -
  have "n_active p = 0" using gone by (simp add: n_active_def)
  then have "mu_count (pl_st p) = 0" "wf_state (pl_st p)" using st o by (simp_all add: stop_inv_def)
  moreover have "mu_stopping (pl_st p) \<or> mu_stopOnIdle (pl_st p) \<noteq> None" using fl c by (simp add: stopper_flow_def)
  ultimately show ?thesis by (auto simp: wf_state_def)
qed

lemma env_callback_enabled: "cb \<in> pending p \<Longrightarrow> \<exists>i. env_step pg (Callback i) p \<noteq> None"
proof -
  assume "cb \<in> pending p"
  then obtain cbs where "cbs \<in> set (pl_cbs p)" "cb \<in> set cbs" by (auto simp: pending_def)
  then obtain i where "i < length (pl_cbs p)" "pl_cbs p ! i = cbs" "cbs \<noteq> []"
    by (metis in_set_conv_nth empty_iff empty_set)
  then show ?thesis by (intro exI [of _ i]) (auto split: list.splits)
qed

lemma pull_enabled:
  assumes st: "stop_inv p" and mu: "pl_mu p = None" and ns: "no_select p"
    and w: "pl_worker p i \<noteq> WGone" "not_calling (pl_worker p i)" "\<And>c r. pl_worker p i \<noteq> WSend c r"
  shows "pull_step pg i p \<noteq> None"
proof (cases "finished_phase (pl_worker p i)")
  case True
  with finish_step_total [OF st this w(1), of pg] show ?thesis
    by (cases "pl_worker p i") (auto simp: pull_step_def)
next
  case False
  with w ns have "pl_worker p i = WTop \<or> pl_worker p i = WLock"
    by (cases "pl_worker p i") (auto simp: no_select_def)
  with mu show ?thesis by (auto simp: pull_step_def take_next_def Let_def split: option.splits)
qed

section \<open>The measure\<close>

lemma measure_move:
  assumes "i < pl_started p" "q = set_worker i x r" "pl_worker r = pl_worker p" "pl_started r = pl_started p"
    and "pl_cons r = pl_cons p" "cb_load r = cb_load p"
    and "20 * (n - pl_pos r) + 3 * length (pl_chan r) + d = 20 * (n - pl_pos p) + 3 * length (pl_chan p) + e"
  shows "pool_measure n k q + rank (pl_worker p i) + d = pool_measure n k p + rank x + e"
  using assms ranks_set [of i r x] by (simp add: pool_measure_def ranks_def)

lemma worker_started: "stop_inv p \<Longrightarrow> pl_worker p i \<noteq> WGone \<Longrightarrow> i < pl_started p"
  unfolding stop_inv_def by (meson not_le)

lemma pull_measure:
  assumes st: "stop_inv p" and ta: "tally_inv pg p" and e: "pull_step pg i p = Some q" and n: "sq_src pg n = None"
  shows "pool_measure n k q < pool_measure n k p"
  using e
proof (cases rule: pull_cases)
  case finish
  then show ?thesis by (rule finish_measure [OF st])
next
  case top
  have "rank (check_top p) < 6" by (auto simp: check_top_def split: option.splits)
  with measure_set [OF worker_started [OF st], of i n k "check_top p"] top show ?thesis by simp
next
  case over
  from measure_move [OF worker_started [OF st] over(3), of n 0 0 k] over(1) show ?thesis by (simp add: cb_load_def)
next
  case (take x)
  have "pl_pos p \<le> n" using ta n unfolding tally_inv_def by (meson not_le)
  with take(2) n have "pl_pos p < n" by (cases "pl_pos p = n") auto
  then have "20 * (n - Suc (pl_pos p)) + 20 = 20 * (n - pl_pos p)" by simp
  with measure_move [OF worker_started [OF st] take(3), of n 20 0 k] take(1) show ?thesis by (simp add: cb_load_def)
qed

section \<open>ForEach\<close>

definition each_live :: "('a, goerr option) sq_prog \<Rightarrow> ('a, 'r, 'm) pool \<Rightarrow> bool" where
  "each_live pg p \<longleftrightarrow> each_inv pg p \<and> stopper_flow False False p \<and> no_select p \<and> pl_others p = 0
     \<and> (\<forall>i c r. pl_worker p i \<noteq> WSend c r) \<and> pl_cons p \<noteq> CFinal \<and> (\<forall>k. pl_cons p \<noteq> CSlot k)"

lemma each_call_eq:
  assumes "each_worker pg (CallEnds i out) p = Some q"
  obtains c x where "pl_worker p i = WCall c x" "sq_fn pg c x out"
    "q = set_worker i WTop (each_error c (each_result (sq_pcs pg) out) (p\<lparr>pl_calls := pl_calls p @ [c]\<rparr>))"
  using assms by (auto split: phase.splits if_splits)

lemma each_live_step:
  assumes inv: "each_live pg p" and e: "each_step pg a p = Some q" and a: "\<not> other_task a"
  shows "each_live pg q"
proof -
  have ei: "each_inv pg p" and st: "stop_inv p" and fl: "stopper_flow False False p" and ns: "no_select p"
    and o: "pl_others p = 0" and wc: "\<forall>i c r. pl_worker p i \<noteq> WSend c r" "pl_cons p \<noteq> CFinal" "\<forall>k. pl_cons p \<noteq> CSlot k"
    using inv by (simp_all add: each_live_def each_inv_def)
  have ei': "each_inv pg q" by (rule each_inv_step [OF ei e])
  have pull: ?thesis if "pull_step pg i p = Some q" for i
    using pull_live [OF st fl ns that] pull_frame [OF that] ei' o wc by (auto simp: each_live_def)
  have env: ?thesis if "env_step pg a p = Some q"
    using env_live [OF st fl ns that] a ei' o wc by (simp add: each_live_def)
  have call: ?thesis if cl: "each_worker pg (CallEnds i out) p = Some q" for i out
    using cl
  proof (rule each_call_eq)
    fix c x
    let ?e = "each_result (sq_pcs pg) out" and ?r = "p\<lparr>pl_calls := pl_calls p @ [c]\<rparr>"
    assume q: "q = set_worker i WTop (each_error c ?e ?r)"
    have f: "pl_cons q = pl_cons p" "pl_others q = pl_others p"
        "pl_worker q = (pl_worker p)(i := WTop)"
      by (simp_all add: q each_error_def pool_errors_def set_worker_def split: option.splits)
    have "sectioned p ?r" by (rule sectioned_same) (simp add: same_stop_def)
    then have "sectioned p (each_error c ?e ?r)"
      using sectioned_errors [of p ?r] by (cases ?e) (simp_all add: each_error_def same_stop_def)
    then have "sectioned p q"
      by (rule sectioned_after)
        (simp add: q same_stop_def each_error_def pool_errors_def set_worker_def split: option.splits)
    from stopper_flow_kept [OF fl st this f(1)] ei' o wc ns f show ?thesis
      by (auto simp: each_live_def no_select_def)
  qed
  have cons: ?thesis if "each_consume pg b p = Some q" for b
  proof (cases "pl_cons p = CRange")
    case True
    with that have w: "each_wait b p = Some q" by (simp add: each_consume_def)
    then obtain f where q: "q = p\<lparr>pl_final := f, pl_cons := CStopping\<rparr>"
      by (auto simp: each_wait_def split: option.splits prod.splits)
    have "stopper_flow False False q"
      by (rule stopper_flow_section [OF fl st sectioned_same]) (use True in \<open>auto simp: q same_stop_def before_range_def\<close>)
    with ei' o wc ns show ?thesis by (simp add: each_live_def q no_select_def)
  next
    case False
    with that have s: "setup_step pg b p = Some q" by (cases "pl_cons p") (simp_all add: each_consume_def)
    have "pl_worker q i \<noteq> WSend c r" for i c r
    proof -
      have "pl_worker q i = pl_worker p i \<or> pl_worker q i = WTop" using setup_frame [OF st s] by blast
      moreover have "pl_worker p i \<noteq> WSend c r" using wc(1) by blast
      ultimately show ?thesis by auto
    qed
    moreover have "stopper_flow False False q \<and> no_select q \<and> pl_others q = pl_others p"
      by (rule setup_live [OF st fl ns s]) simp
    ultimately show ?thesis using setup_cons [OF s] ei' o by (simp add: each_live_def)
  qed
  show ?thesis using e pull env call cons
    by (cases a) (auto simp: each_step_def simp del: env_step.simps split: phase.splits)
qed

lemma each_live_run:
  assumes "each_run pg as p = Some q" and "list_all (\<lambda>a. \<not> other_task a) as" and "each_live pg p"
  shows "each_live pg q"
  using assms
proof (induction as arbitrary: p)
  case (Cons a as)
  then obtain r where "each_step pg a p = Some r" "each_run pg as r = Some q" by (auto split: option.splits)
  with Cons each_live_step show ?case by (metis list.pred_inject(2))
qed simp

lemma each_live_start: "each_live pg (each_start pg par)"
proof -
  have "each_inv pg (each_start pg par)" by (rule for_each.inv_init) blast
  then show ?thesis
    by (simp add: each_live_def each_start_def new_pool_def stopper_flow_def before_range_def no_select_def)
qed

lemma each_progress:
  assumes inv: "each_live pg p" and cons: "pl_cons p \<noteq> CDone"
    and total: "\<And>c x. sq_src pg c = Some x \<Longrightarrow> \<exists>out. sq_fn pg c x out"
  shows "\<exists>a q. internal a \<and> each_step pg a p = Some q"
proof -
  have st: "stop_inv p" and ta: "tally_inv pg p" and fl: "stopper_flow False False p" and ns: "no_select p"
    and o: "pl_others p = 0" and wc: "\<forall>i c r. pl_worker p i \<noteq> WSend c r" "pl_cons p \<noteq> CFinal" "\<forall>k. pl_cons p \<noteq> CSlot k"
    using inv by (simp_all add: each_live_def each_inv_def)
  have wf: "wf_state (pl_st p)" and mu: "pl_mu p = None" using st ta by (simp_all add: stop_inv_def tally_inv_def)
  have cons1: ?thesis if "each_consume pg True p \<noteq> None"
    using that by (intro exI [of _ "Consume True"]) (auto simp: each_step_def)
  have cb: ?thesis if "cb \<in> pending p" for cb
    using env_callback_enabled [OF that, of pg]
    by (elim exE, intro exI [of _ "Callback i" for i]) (auto simp: each_step_def simp del: env_step.simps)
  show ?thesis
  proof (cases "pl_cons p = CRange")
    case range: True
    show ?thesis
    proof (cases "pl_done p = None \<and> pl_parent p = None")
      case False
      with range show ?thesis by (intro cons1) (auto simp: each_consume_def each_wait_def split: option.splits)
    next
      case quiet: True
      show ?thesis
      proof (cases "\<forall>i. pl_worker p i = WGone")
        case True
        have "mu_cancel (pl_st p) = None"
          by (rule all_gone_cancel [OF st fl o _ True]) (simp add: range before_range_def)
        with fl quiet obtain c e where "CbCancel c e \<in> pending p" by (auto simp: stopper_flow_def)
        then show ?thesis by (rule cb)
      next
        case False
        then obtain i where i: "pl_worker p i \<noteq> WGone" by blast
        show ?thesis
        proof (cases "not_calling (pl_worker p i)")
          case True
          from pull_enabled [OF st mu ns i True, of pg] wc(1) show ?thesis
            by (intro exI [of _ "Worker i"]) (auto simp: each_step_def)
        next
          case False
          then obtain c x where w: "pl_worker p i = WCall c x" by (auto simp: not_calling_def)
          then have "sq_src pg c = Some x" using ta by (simp add: tally_inv_def)
          with total obtain out where "sq_fn pg c x out" by blast
          with w show ?thesis by (intro exI [of _ "CallEnds i out"]) (auto simp: each_step_def)
        qed
      qed
    qed
  next
    case False
    show ?thesis
    proof (cases "pl_cons p = CLock")
      case True
      with mu show ?thesis by (intro cons1) (simp add: each_consume_def setup_step_def)
    next
      case nl: False
      with False cons wc have "pl_cons p \<in> {CDefer, CIdle, CBreak, CStopping} \<or> (\<exists>k. pl_cons p = CStart k)"
        by (cases "pl_cons p") auto
      from setup_step_total [OF wf this, of pg True] False show ?thesis
        by (intro cons1) (cases "pl_cons p"; auto simp: each_consume_def)
    qed
  qed
qed

lemma each_measure:
  assumes inv: "stop_inv p \<and> tally_inv pg p" and e: "each_step pg a p = Some q" and a: "internal a"
    and n: "sq_src pg n = None"
  shows "pool_measure n (sq_workers pg) q < pool_measure n (sq_workers pg) p"
proof -
  have st: "stop_inv p" and ta: "tally_inv pg p" using inv by simp_all
  have w: ?thesis if "pull_step pg i p = Some q" for i by (rule pull_measure [OF st ta that n])
  have k: ?thesis if "env_step pg (Callback i) p = Some q" for i using that by (rule callback_measure)
  have cl: ?thesis if c: "each_worker pg (CallEnds i out) p = Some q" for i out
    using c
  proof (rule each_call_eq)
    fix c x
    let ?r = "each_error c (each_result (sq_pcs pg) out) (p\<lparr>pl_calls := pl_calls p @ [c]\<rparr>)"
    assume x: "pl_worker p i = WCall c x" and q: "q = set_worker i WTop ?r"
    have f: "pl_worker ?r = pl_worker p" "pl_started ?r = pl_started p" "pl_cons ?r = pl_cons p" "cb_load ?r = cb_load p"
        "pl_pos ?r = pl_pos p" "pl_chan ?r = pl_chan p"
      by (simp_all add: each_error_def pool_errors_def cb_load_def add_errors_eq load_def hook_load_def split: option.splits)
    from measure_move [OF worker_started [OF st] q f(1-4), of n 0 0 "sq_workers pg"] x f(5,6) show ?thesis by simp
  qed
  have c: ?thesis if m: "each_consume pg b p = Some q" for b
  proof (cases "pl_cons p = CRange")
    case True
    with m have "each_wait b p = Some q" by (simp add: each_consume_def)
    then obtain f where "q = p\<lparr>pl_final := f, pl_cons := CStopping\<rparr>"
      by (auto simp: each_wait_def split: option.splits prod.splits)
    with True show ?thesis by (simp add: pool_measure_def ranks_def cb_load_def)
  next
    case False
    with m have "setup_step pg b p = Some q" by (cases "pl_cons p") (simp_all add: each_consume_def)
    then show ?thesis by (rule setup_measure [OF st])
  qed
  show ?thesis using e a w k cl c
    by (cases a) (auto simp: each_step_def simp del: env_step.simps split: phase.splits)
qed

lemma internal_own: "list_all internal as \<Longrightarrow> list_all (\<lambda>a. \<not> other_task a) as"
proof (induction as)
  case (Cons a as)
  then show ?case by (cases a) auto
qed simp

section \<open>MapUnordered\<close>

text \<open>
  Its deferred \<open>close(results)\<close> always comes: nobody else keeps the nested stopper busy when it is
  registered, so it is never lost to an expired grace period.
\<close>

definition unord_live :: "'r \<Rightarrow> ('a, 'r \<times> goerr option) sq_prog \<Rightarrow> ('a, 'r, nat \<times> 'r \<times> goerr option) pool \<Rightarrow> bool" where
  "unord_live zero pg p \<longleftrightarrow> unord_inv zero pg p \<and> stopper_flow True False p \<and> no_select p \<and> pl_others p = 0
     \<and> pl_started p + to_start pg (pl_cons p) \<le> sq_workers pg \<and> (pl_cons p = CDefer \<longrightarrow> pl_started p = 0)"

lemma setup_defer: "setup_step pg b p = Some q \<Longrightarrow> pl_cons q \<noteq> CDefer"
proof (cases "pl_cons p")
  case (CStart k)
  assume "setup_step pg b p = Some q"
  with CStart start_worker_frame [of b "p\<lparr>pl_cons := CStart (k - 1)\<rparr>" q] show ?thesis
    by (cases k) (auto simp: setup_step_def)
next
  case CDefer
  assume "setup_step pg b p = Some q"
  with CDefer show ?thesis
    by (auto simp: setup_step_def close_results_def pool_errors_def split: prod.splits bool.splits if_splits)
next
  case CIdle
  assume "setup_step pg b p = Some q"
  with CIdle have "pool_stop_idle (sq_grace pg) (p\<lparr>pl_cons := CRange\<rparr>) = Some q" by (simp add: setup_step_def)
  from stop_only_pool(4) [OF this] show ?thesis by (simp add: stop_only_def)
next
  case CStopping
  assume "setup_step pg b p = Some q"
  with CStopping have "pool_stop (sq_grace pg) (p\<lparr>pl_cons := CLock\<rparr>) = Some q" by (simp add: setup_step_def)
  from stop_only_pool(3) [OF this] show ?thesis by (simp add: stop_only_def)
qed (auto simp: setup_step_def split: if_splits)

lemma unord_cases:
  assumes "unord_worker zero pg a p = Some q"
  obtains (pull) i where "pull_step pg i p = Some q"
    | (call) i c x out where "pl_worker p i = WCall c x" "sq_fn pg c x out"
        "q = set_worker i (WSend c (map_result zero (sq_pcs pg) out)) (p\<lparr>pl_calls := pl_calls p @ [c]\<rparr>)"
    | (drop) i c r x where "pl_worker p i = WSend c r" "q = set_worker i x p" "x = WTop \<or> (\<exists>e. x = WRet e)"
    | (send) i c r where "pl_worker p i = WSend c r" "q = set_worker i WTop (p\<lparr>pl_chan := pl_chan p @ [(c, r)]\<rparr>)"
proof (cases a)
  case (Worker i)
  with assms pull show thesis by (auto split: phase.splits)
next
  case (CallEnds i out)
  with assms call show thesis by (auto split: phase.splits if_splits)
next
  case (SelSend i)
  with assms send drop show thesis by (auto split: phase.splits if_splits)
next
  case (SelBreak i)
  with assms drop show thesis by (auto split: phase.splits if_splits)
next
  case (SelDone i)
  with assms drop show thesis by (auto split: phase.splits if_splits)
qed (use assms in auto)

lemma unord_live_worker:
  assumes inv: "unord_live zero pg p" and e: "unord_worker zero pg a p = Some q" and ui: "unord_inv zero pg q"
  shows "unord_live zero pg q"
proof -
  have st: "stop_inv p" and fl: "stopper_flow True False p" and ns: "no_select p"
    using inv by (simp_all add: unord_live_def unord_inv_def)
  have quiet: ?thesis if "same_stop p q" "pl_cons q = pl_cons p" "pl_others q = pl_others p"
      "pl_started q = pl_started p" "no_select q"
    using that inv ui stopper_flow_kept [OF fl st sectioned_same [OF that(1)] that(2)] by (simp add: unord_live_def)
  from e show ?thesis
  proof (cases rule: unord_cases)
    case (pull i)
    with pull_live [OF st fl ns pull] pull_frame [OF pull] inv ui show ?thesis by (simp add: unord_live_def)
  next
    case (call i c x out)
    with ns show ?thesis by (intro quiet) (auto simp: same_stop_def set_worker_def no_select_def)
  next
    case (drop i c r x)
    with ns show ?thesis by (intro quiet) (auto simp: same_stop_def set_worker_def no_select_def)
  next
    case (send i c r)
    with ns show ?thesis by (intro quiet) (auto simp: same_stop_def set_worker_def no_select_def)
  qed
qed

lemma unord_live_step:
  assumes inv: "unord_live zero pg p" and e: "unord_step zero pg a p = Some q" and a: "\<not> other_task a"
  shows "unord_live zero pg q"
proof -
  have st: "stop_inv p" and fl: "stopper_flow True False p" and ns: "no_select p" and o: "pl_others p = 0"
    and s0: "pl_cons p = CDefer \<Longrightarrow> pl_started p = 0"
    using inv by (simp_all add: unord_live_def unord_inv_def)
  have ui: "unord_inv zero pg q"
    using inv unord_inv_step [OF _ e] by (simp add: unord_live_def)
  have env: ?thesis if "env_step pg a p = Some q"
    using env_live [OF st fl ns that] a inv ui by (simp add: unord_live_def)
  have cons: ?thesis if m: "unord_consume pg b p = Some q" for b
  proof (cases "pl_cons p \<in> {CRange, CFinal}")
    case True
    with m have y: "yield_unordered b p = Some q" by (auto simp: unord_consume_def)
    then have f: "same_stop p q" "pl_others q = pl_others p" "pl_started q = pl_started p" "no_select q"
        "pl_cons q \<in> {CRange, CBreak, CFinal, CStopping}"
      using ns by (auto simp: yield_unordered_def final_step_def same_stop_def no_select_def
          split: consumer.splits list.splits option.splits if_splits)
    have "stopper_flow True False q"
      by (rule stopper_flow_section [OF fl st sectioned_same [OF f(1)]]) (use True in \<open>auto simp: before_range_def\<close>)
    with f inv ui True show ?thesis by (auto simp: unord_live_def to_start_def)
  next
    case False
    with m have s: "setup_step pg b p = Some q" by (cases "pl_cons p") (simp_all add: unord_consume_def)
    have "mu_count (pl_st p) = 0" if "pl_cons p = CDefer"
      using st o s0 [OF that] by (simp add: stop_inv_def n_active_def)
    then have "stopper_flow True False q \<and> no_select q \<and> pl_others q = pl_others p"
      by (intro setup_live [OF st fl ns s]) blast
    moreover have "pl_started q + to_start pg (pl_cons q) \<le> sq_workers pg"
      using inv by (intro setup_started [OF s]) (simp add: unord_live_def)
    ultimately show ?thesis using setup_defer [OF s] ui o by (simp add: unord_live_def)
  qed
  show ?thesis using e env cons unord_live_worker [OF inv _ ui]
    by (cases a) (simp_all add: unord_step_def del: env_step.simps unord_worker.simps)
qed

lemma unord_live_run:
  assumes "unord_run zero pg as p = Some q" and "list_all (\<lambda>a. \<not> other_task a) as" and "unord_live zero pg p"
  shows "unord_live zero pg q"
  using assms
proof (induction as arbitrary: p)
  case (Cons a as)
  then obtain r where "unord_step zero pg a p = Some r" "unord_run zero pg as r = Some q" by (auto split: option.splits)
  with Cons unord_live_step show ?case by (metis list.pred_inject(2))
qed simp

lemma unord_live_start: "unord_live zero pg (new_pool par CDefer)"
proof -
  have "unord_inv zero pg (new_pool par CDefer)" by (rule unordered.inv_init) blast
  then show ?thesis
    by (simp add: unord_live_def new_pool_def stopper_flow_def before_range_def no_select_def to_start_def)
qed

lemma unord_progress:
  assumes inv: "unord_live zero pg p" and cons: "pl_cons p \<noteq> CDone"
    and total: "\<And>c x. sq_src pg c = Some x \<Longrightarrow> \<exists>out. sq_fn pg c x out"
  shows "\<exists>a q. internal a \<and> unord_step zero pg a p = Some q"
proof -
  have st: "stop_inv p" and ta: "tally_inv pg p" and fl: "stopper_flow True False p" and ns: "no_select p"
    and o: "pl_others p = 0" and rf: "relay_flow p"
    using inv by (simp_all add: unord_live_def unord_inv_def)
  have wf: "wf_state (pl_st p)" and mu: "pl_mu p = None" using st ta by (simp_all add: stop_inv_def tally_inv_def)
  have cons1: ?thesis if "unord_consume pg True p \<noteq> None"
    using that by (intro exI [of _ "Consume True"]) (auto simp: unord_step_def)
  have cb: ?thesis if "cb \<in> pending p" for cb
    using env_callback_enabled [OF that, of pg]
    by (elim exE, intro exI [of _ "Callback i" for i]) (auto simp: unord_step_def simp del: env_step.simps)
  have setup1: ?thesis if "pl_cons p \<in> {CDefer, CIdle, CBreak, CStopping} \<or> (\<exists>k. pl_cons p = CStart k)"
    using setup_step_total [OF wf that, of pg True] that
    by (intro cons1) (cases "pl_cons p"; auto simp: unord_consume_def)
  have worker: ?thesis if i: "pl_worker p i \<noteq> WGone" and ch: "pl_chan p = []" "\<not> pl_closed p" for i
  proof (cases "pl_worker p i")
    case (WCall c x)
    then have "sq_src pg c = Some x" using ta by (simp add: tally_inv_def)
    with total obtain out where "sq_fn pg c x out" by blast
    with WCall show ?thesis by (intro exI [of _ "CallEnds i out"]) (auto simp: unord_step_def)
  next
    case (WSend c r)
    have "i < sq_workers pg" using worker_started [OF st i] inv by (simp add: unord_live_def)
    with WSend ch show ?thesis by (intro exI [of _ "SelSend i"]) (auto simp: unord_step_def)
  next
    case (WSelect c x)
    with ns show ?thesis by (simp add: no_select_def)
  qed (use i pull_enabled [OF st mu ns, of i pg] in
      \<open>intro exI [of _ "Worker i"], auto simp: unord_step_def\<close>)+
  show ?thesis
  proof (cases "pl_cons p")
    case CRange
    show ?thesis
    proof (cases "pl_chan p = [] \<and> \<not> pl_closed p")
      case False
      with CRange show ?thesis
        by (intro cons1) (auto simp: unord_consume_def yield_unordered_def split: list.splits)
    next
      case opn: True
      show ?thesis
      proof (cases "\<forall>i. pl_worker p i = WGone")
        case True
        have "mu_cancel (pl_st p) = None"
          by (rule all_gone_cancel [OF st fl o _ True]) (simp add: CRange before_range_def)
        with fl CRange have "closing p" by (simp add: stopper_flow_def)
        with opn have "CbUser close_fid \<in> pending p" by (simp add: closing_def)
        then show ?thesis by (rule cb)
      next
        case False
        with worker opn show ?thesis by blast
      qed
    qed
  next
    case CFinal
    then have "closing p" using rf by (simp add: relay_flow_def closing_def)
    then have "mu_cancel (pl_st p) = None" using st by (auto simp: stop_inv_def)
    with fl consider "pl_done p \<noteq> None" | c e where "CbCancel c e \<in> pending p" by (auto simp: stopper_flow_def)
    then show ?thesis
    proof cases
      case 1
      with CFinal show ?thesis
        by (intro cons1) (auto simp: unord_consume_def yield_unordered_def final_step_def)
    next
      case 2
      then show ?thesis by (rule cb)
    qed
  next
    case CLock
    with mu show ?thesis by (intro cons1) (simp add: unord_consume_def setup_step_def)
  next
    case (CSlot k)
    with rf show ?thesis by (simp add: relay_flow_def)
  qed (use cons setup1 in auto)
qed

lemma unord_measure:
  assumes inv: "unord_inv zero pg p" and e: "unord_step zero pg a p = Some q" and a: "internal a"
    and n: "sq_src pg n = None"
  shows "pool_measure n (sq_workers pg) q < pool_measure n (sq_workers pg) p"
proof -
  have st: "stop_inv p" and ta: "tally_inv pg p" using inv by (simp_all add: unord_inv_def)
  have k: ?thesis if "env_step pg (Callback i) p = Some q" for i using that by (rule callback_measure)
  have w: ?thesis if "unord_worker zero pg a p = Some q"
    using that
  proof (cases rule: unord_cases)
    case (pull i)
    then show ?thesis by (rule pull_measure [OF st ta _ n])
  next
    case (call i c x out)
    from measure_move [OF worker_started [OF st] call(3), of n 0 0 "sq_workers pg"] call(1) show ?thesis
      by (simp add: cb_load_def)
  next
    case (drop i c r x)
    with measure_set [OF worker_started [OF st], of i n "sq_workers pg" x] show ?thesis by auto
  next
    case (send i c r)
    from measure_move [OF worker_started [OF st] send(2), of n 0 3 "sq_workers pg"] send(1) show ?thesis
      by (simp add: cb_load_def)
  qed
  have c: ?thesis if m: "unord_consume pg b p = Some q" for b
  proof (cases "pl_cons p \<in> {CRange, CFinal}")
    case True
    with m have y: "yield_unordered b p = Some q" by (auto simp: unord_consume_def)
    have f: "cb_load q = cb_load p" "ranks q = ranks p" "pl_pos q = pl_pos p"
      using y by (auto simp: yield_unordered_def final_step_def cb_load_def ranks_def
          split: consumer.splits option.splits list.splits if_splits)
    have "3 * length (pl_chan q) + cons_rank k (pl_cons q) < 3 * length (pl_chan p) + cons_rank k (pl_cons p)" for k
      using y by (auto simp: yield_unordered_def final_step_def split: consumer.splits option.splits list.splits if_splits)
    from this [of "sq_workers pg"] f show ?thesis by (simp add: pool_measure_def)
  next
    case False
    with m have "setup_step pg b p = Some q" by (cases "pl_cons p") (simp_all add: unord_consume_def)
    then show ?thesis by (rule setup_measure [OF st])
  qed
  show ?thesis using e a w k c by (cases a) (simp_all add: unord_step_def del: env_step.simps unord_worker.simps)
qed

section \<open>Both return\<close>

definition sane_prog :: "('a, 'o) sq_prog \<Rightarrow> nat \<Rightarrow> bool" where
  "sane_prog pg n \<longleftrightarrow> sq_src pg n = None \<and> (\<forall>c x. sq_src pg c = Some x \<longrightarrow> (\<exists>out. sq_fn pg c x out))"

lemma internal_not_other: "internal a \<Longrightarrow> \<not> other_task a"
  by (cases a) auto

lemma each_run_exec: "each_run pg as p = exec (each_step pg) as p"
  by (induction as arbitrary: p) (auto split: option.splits)

lemma unord_run_exec: "unord_run zero pg as p = exec (unord_step zero pg) as p"
  by (induction as arbitrary: p) (auto split: option.splits)

interpretation each_end: terminating_system
  "labelled (each_step pg) internal" "\<lambda>p. each_live pg p \<and> sane_prog pg n"
  "pool_measure n (sq_workers pg)" "\<lambda>p. pl_cons p = CDone" for pg n
proof unfold_locales
  fix p q :: "('a, 'b, 'c) pool"
  assume i: "each_live pg p \<and> sane_prog pg n" and "labelled (each_step pg) internal p q"
  then obtain a where a: "internal a" "each_step pg a p = Some q" by (auto simp: labelled_def)
  show "each_live pg q \<and> sane_prog pg n" using i each_live_step [OF _ a(2) internal_not_other [OF a(1)]] by simp
  show "pool_measure n (sq_workers pg) q < pool_measure n (sq_workers pg) p"
    using i by (intro each_measure [OF _ a(2,1)]) (simp_all add: each_live_def each_inv_def sane_prog_def)
next
  fix p :: "('a, 'b, 'c) pool"
  assume "each_live pg p \<and> sane_prog pg n" "pl_cons p \<noteq> CDone"
  then show "\<exists>q. labelled (each_step pg) internal p q"
    using each_progress [of pg p] by (auto simp: sane_prog_def labelled_def)
qed

interpretation unord_end: terminating_system
  "labelled (unord_step zero pg) internal" "\<lambda>p. unord_live zero pg p \<and> sane_prog pg n"
  "pool_measure n (sq_workers pg)" "\<lambda>p. pl_cons p = CDone" for zero pg n
proof unfold_locales
  fix p q :: "('b, 'a, nat \<times> 'a \<times> goerr option) pool"
  assume i: "unord_live zero pg p \<and> sane_prog pg n" and "labelled (unord_step zero pg) internal p q"
  then obtain a where a: "internal a" "unord_step zero pg a p = Some q" by (auto simp: labelled_def)
  show "unord_live zero pg q \<and> sane_prog pg n" using i unord_live_step [OF _ a(2) internal_not_other [OF a(1)]] by simp
  show "pool_measure n (sq_workers pg) q < pool_measure n (sq_workers pg) p"
    using i by (intro unord_measure [OF _ a(2,1)]) (simp_all add: unord_live_def sane_prog_def)
next
  fix p :: "('b, 'a, nat \<times> 'a \<times> goerr option) pool"
  assume "unord_live zero pg p \<and> sane_prog pg n" "pl_cons p \<noteq> CDone"
  then show "\<exists>q. labelled (unord_step zero pg) internal p q"
    using unord_progress [of zero pg p] by (auto simp: sane_prog_def labelled_def)
qed

text \<open>
  C16: \<open>ForEach\<close> returns. Let the environment do what it likes except run tasks of its own on the nested
  stopper: stop it, let the grace period expire, cancel the outer context, add errors. From then on,
  with callbacks that always end, every step of the workers, the consumer and the stopper's callbacks
  brings the return closer by a measure read off the configuration, until \<open>ForEach\<close> has returned some step
  is enabled, and such steps lead to the return.
\<close>

theorem each_returns:
  assumes "each_run pg as (each_start pg par) = Some p" and "list_all (\<lambda>a. \<not> other_task a) as"
    and "each_run pg bs p = Some q" and "list_all internal bs" and "sq_src pg n = None"
    and "\<And>c x. sq_src pg c = Some x \<Longrightarrow> \<exists>out. sq_fn pg c x out"
  shows "length bs \<le> pool_measure n (sq_workers pg) p
    \<and> (pl_cons q = CDone \<or> (\<exists>a r. internal a \<and> each_step pg a q = Some r))
    \<and> (\<exists>cs r. list_all internal cs \<and> each_run pg cs q = Some r \<and> pl_cons r = CDone)"
proof -
  have s: "sane_prog pg n" using assms(5,6) by (auto simp: sane_prog_def)
  have p: "each_live pg p" by (rule each_live_run [OF assms(1,2) each_live_start])
  have q: "each_live pg q" by (rule each_live_run [OF assms(3) internal_own [OF assms(4)] p])
  have "length bs \<le> pool_measure n (sq_workers pg) p"
    using each_end.own_bounded [OF exec_labelled [OF assms(3) [unfolded each_run_exec] assms(4)], of n] p s by simp
  moreover have "pl_cons q = CDone \<or> (\<exists>a r. internal a \<and> each_step pg a q = Some r)"
    using each_end.own_progress [of pg q n] q s by (auto simp: labelled_def)
  moreover obtain r where r: "(labelled (each_step pg) internal)\<^sup>*\<^sup>* q r" "pl_cons r = CDone"
    using each_end.own_ends [of pg q n] q s by auto
  then have "\<exists>cs r. list_all internal cs \<and> each_run pg cs q = Some r \<and> pl_cons r = CDone"
    using labelled_exec [OF r(1)] r(2) by (auto simp: each_run_exec)
  ultimately show ?thesis by blast
qed

lemma each_returns_witness:
  "length each_demo_run \<le> pool_measure 2 1 (each_start each_demo None :: (nat, unit, unit) pool)"
proof -
  obtain q :: "(nat, unit, unit) pool" where q: "each_run each_demo each_demo_run (each_start each_demo None) = Some q"
    using each_demo_result by auto
  have a: "each_run each_demo [] (each_start each_demo None) = Some (each_start each_demo None :: (nat, unit, unit) pool)"
    by simp
  have i: "list_all internal each_demo_run" by code_simp
  have n: "sq_src each_demo 2 = None" and t: "\<exists>out. sq_fn each_demo c x out" and k: "sq_workers each_demo = 1" for c x
    by (simp_all add: each_demo_def)
  have "list_all (\<lambda>a. \<not> other_task a) ([] :: goerr option action list)" by simp
  from each_returns [OF a this q i n t] show ?thesis by (simp add: k)
qed

text \<open>
  C22: \<open>MapUnordered\<close> returns, under the same conditions: also when the grace period expires while
  workers are about to send. Its workers hold no mutex while they send, so the deadlock of \<open>Map\<close> cannot
  happen.
\<close>

theorem unordered_returns:
  assumes "unord_run zero pg as (new_pool par CDefer) = Some p" and "list_all (\<lambda>a. \<not> other_task a) as"
    and "unord_run zero pg bs p = Some q" and "list_all internal bs" and "sq_src pg n = None"
    and "\<And>c x. sq_src pg c = Some x \<Longrightarrow> \<exists>out. sq_fn pg c x out"
  shows "length bs \<le> pool_measure n (sq_workers pg) p
    \<and> (pl_cons q = CDone \<or> (\<exists>a r. internal a \<and> unord_step zero pg a q = Some r))
    \<and> (\<exists>cs r. list_all internal cs \<and> unord_run zero pg cs q = Some r \<and> pl_cons r = CDone)"
proof -
  have s: "sane_prog pg n" using assms(5,6) by (auto simp: sane_prog_def)
  have p: "unord_live zero pg p" by (rule unord_live_run [OF assms(1,2) unord_live_start])
  have q: "unord_live zero pg q" by (rule unord_live_run [OF assms(3) internal_own [OF assms(4)] p])
  have "length bs \<le> pool_measure n (sq_workers pg) p"
    using unord_end.own_bounded [OF exec_labelled [OF assms(3) [unfolded unord_run_exec] assms(4)], of n] p s by simp
  moreover have "pl_cons q = CDone \<or> (\<exists>a r. internal a \<and> unord_step zero pg a q = Some r)"
    using unord_end.own_progress [of zero pg q n] q s by (auto simp: labelled_def)
  moreover obtain r where r: "(labelled (unord_step zero pg) internal)\<^sup>*\<^sup>* q r" "pl_cons r = CDone"
    using unord_end.own_ends [of zero pg q n] q s by auto
  then have "\<exists>cs r. list_all internal cs \<and> unord_run zero pg cs q = Some r \<and> pl_cons r = CDone"
    using labelled_exec [OF r(1)] r(2) by (auto simp: unord_run_exec)
  ultimately show ?thesis by blast
qed

text \<open>The grace period expires while worker 0 has a result to send; the send on the closed channel panics.\<close>

definition expired_run :: "(nat \<times> goerr option) action list" where
  "expired_run = replicate 5 (Consume True) @ [Worker 0, Worker 0, CallEnds 0 (Return (7, None)), EnvStop 0]"

definition expired_rest :: "(nat \<times> goerr option) action list" where
  "expired_rest = [Callback 0, Callback 0, SelSend 0, Worker 0, Worker 0, Worker 1, Worker 1, Worker 1]
     @ replicate 4 (Consume True)"

lemma expired_result:
  "map_option (\<lambda>p. map_option pl_cons (unord_run 0 unord_demo expired_rest p))
     (unord_run 0 unord_demo expired_run (new_pool None CDefer)) = Some (Some CDone)"
  by code_simp

lemma unordered_returns_witness:
  "\<exists>p q. unord_run 0 unord_demo expired_run (new_pool None CDefer) = Some p
     \<and> unord_run 0 unord_demo expired_rest p = Some q \<and> pl_cons q = CDone
     \<and> length expired_rest \<le> pool_measure 2 2 p"
proof -
  obtain p where p: "unord_run 0 unord_demo expired_run (new_pool None CDefer) = Some p"
    using expired_result by auto
  obtain q where q: "unord_run 0 unord_demo expired_rest p = Some q" "pl_cons q = CDone"
    using expired_result p by auto
  have i: "list_all (\<lambda>a. \<not> other_task a) expired_run" "list_all internal expired_rest" by code_simp+
  have n: "sq_src unord_demo 2 = None" and t: "\<exists>out. sq_fn unord_demo c x out" and k: "sq_workers unord_demo = 2" for c x
    by (simp_all add: unord_demo_def)
  from unordered_returns [OF p i(1) q(1) i(2) n t] p q k show ?thesis by auto
qed

section \<open>Without workers\<close>

text \<open>
  With \<open>numWorkers = 0\<close> the loop that starts the workers does nothing, and \<open>StopOnIdle\<close> stops the idle
  stopper at once: \<open>ForEach\<close> never looks at the sequence.
\<close>

definition untouched :: "('a, 'r, 'm) pool \<Rightarrow> bool" where
  "untouched p \<longleftrightarrow> pl_idx p = 0 \<and> pl_pos p = 0 \<and> pl_calls p = []"

lemma untouched_core: "same_core p q \<Longrightarrow> untouched p \<Longrightarrow> untouched q"
  by (simp add: untouched_def same_core_def)

lemma untouched_step:
  assumes inv: "each_inv pg p" and e: "each_step pg a p = Some q" and k: "sq_workers pg = 0" and u: "untouched p"
  shows "untouched q"
proof -
  have st: "stop_inv p" and "pl_started p = 0" using inv k by (simp_all add: each_inv_def each_flow_def)
  then have gone: "pl_worker p i = WGone" for i by (simp add: stop_inv_def)
  have c: ?thesis if "each_consume pg b p = Some q" for b
  proof (cases "pl_cons p = CRange")
    case True
    with that u show ?thesis by (auto simp: each_consume_def each_wait_def untouched_def split: option.splits if_splits)
  next
    case False
    then have "setup_step pg b p = Some q" using that by (cases "pl_cons p") (simp_all add: each_consume_def)
    with setup_frame [OF st] untouched_core u show ?thesis by blast
  qed
  have v: ?thesis if "env_step pg a p = Some q"
    using env_step_frame [OF that] untouched_core u by (auto simp: stop_only_def)
  have w: "each_worker pg a p = None"
    using gone by (cases a) (simp_all add: pull_step_def finish_step_def)
  show ?thesis using e c v w by (cases a) (simp_all add: each_step_def del: env_step.simps each_worker.simps)
qed

lemma each_no_workers:
  assumes "each_run pg as (each_start pg par) = Some p" and "sq_workers pg = 0"
  shows "pl_pos p = 0 \<and> pl_calls p = []"
proof -
  have "each_inv pg p \<and> untouched p \<Longrightarrow> each_run pg as p = Some q \<Longrightarrow> untouched q" for p q
  proof (induction as arbitrary: p)
    case (Cons a as)
    then obtain r where r: "each_step pg a p = Some r" "each_run pg as r = Some q" by (auto split: option.splits)
    with untouched_step [OF _ r(1) assms(2)] for_each.inv_step Cons show ?case by blast
  qed simp
  moreover have "each_inv pg (each_start pg par)" by (rule for_each.inv_init) blast
  moreover have "untouched (each_start pg par)" by (simp add: untouched_def each_start_def new_pool_def)
  ultimately have "untouched p" using assms(1) by blast
  then show ?thesis by (simp add: untouched_def)
qed

text \<open>So it reports success for a sequence with an item that would have failed.\<close>

definition no_worker_prog :: "(nat, goerr option) sq_prog" where
  "no_worker_prog = each_demo\<lparr>sq_workers := 0\<rparr>"

lemma no_workers_succeed:
  "map_option (\<lambda>p :: (nat, unit, unit) pool. (pl_cons p, pl_final p, pl_calls p))
     (each_run no_worker_prog ([Consume True, Consume True, Callback 0, Consume True, Consume True, Consume True])
       (each_start no_worker_prog None)) = Some (CDone, None, [])"
  by code_simp

end
