(* ===== verification/Seq_Panic.thy ===== *)
theory Seq_Panic
  imports Seq_Claims Seq_Each
begin

text \<open>
  Two ways in which \<open>nextMu\<close> stays locked for ever. The first is an input sequence that panics. \<open>next\<close> of \<open>iter.Pull\<close> hands a panic of the sequence to its caller, which is
  a worker between \<open>nextMu.Lock()\<close> and \<open>nextMu.Unlock()\<close>; the unlock is not deferred, so the mutex stays
  locked when the panic handler of the worker's task turns the panic into the task's error. The
  iterators' own deferred function locks \<open>nextMu\<close> again to call \<open>stop\<close>, and so they never return. This
  is the model of the other Seq theories with one action more; \<open>pan n\<close> is what the sequence
  panics with when it is asked for its item number \<open>n\<close>. The second needs no panic of user code: a worker of
  \<open>Map\<close> in its select when the deferred function closes \<open>results\<close>.
\<close>

section \<open>Definitions\<close>

definition pull_panic ::
  "(nat \<Rightarrow> panic_value option) \<Rightarrow> ('a, 'o) sq_prog \<Rightarrow> nat \<Rightarrow> ('a, 'r, 'm) pool \<Rightarrow> ('a, 'r, 'm) pool option" where
  "pull_panic pan pg i p =
     (case pl_worker p i of
        WLock \<Rightarrow>
          if pl_mu p = None then
            (case pan (pl_pos p) of
               None \<Rightarrow> None
             | Some v \<Rightarrow> Some (set_worker i (WRet (Some (recover_e (sq_pcs pg) None v)))
                 (p\<lparr>pl_idx := Suc (pl_idx p), pl_mu := Some i\<rparr>)))
          else None
      | _ \<Rightarrow> None)"

definition panic_step ::
  "(nat \<Rightarrow> panic_value option) \<Rightarrow> ('a, 'o) sq_prog
     \<Rightarrow> ('o action \<Rightarrow> ('a, 'r, 'm) pool \<Rightarrow> ('a, 'r, 'm) pool option)
     \<Rightarrow> 'o action \<Rightarrow> ('a, 'r, 'm) pool \<Rightarrow> ('a, 'r, 'm) pool option" where
  "panic_step pan pg step a p =
     (case a of
        Worker i \<Rightarrow> (case pull_panic pan pg i p of Some q \<Rightarrow> Some q | None \<Rightarrow> step a p)
      | _ \<Rightarrow> step a p)"

fun panic_run ::
  "(nat \<Rightarrow> panic_value option) \<Rightarrow> ('a, 'o) sq_prog
     \<Rightarrow> ('o action \<Rightarrow> ('a, 'r, 'm) pool \<Rightarrow> ('a, 'r, 'm) pool option)
     \<Rightarrow> 'o action list \<Rightarrow> ('a, 'r, 'm) pool \<Rightarrow> ('a, 'r, 'm) pool option" where
  "panic_run pan pg step [] p = Some p"
| "panic_run pan pg step (a # as) p =
     (case panic_step pan pg step a p of None \<Rightarrow> None | Some q \<Rightarrow> panic_run pan pg step as q)"

text \<open>An input that does not panic: nothing has changed.\<close>

lemma panic_step_calm: "panic_step (\<lambda>_. None) pg step a p = step a p"
  by (cases a) (auto simp: panic_step_def pull_panic_def split: phase.splits)

section \<open>The mutex stays locked\<close>

text \<open>In \<open>Map\<close> a worker that is selecting would unlock the mutex, so there must be none (\<open>ns\<close>).\<close>

definition jammed :: "bool \<Rightarrow> nat \<Rightarrow> ('a, 'r, 'm) pool \<Rightarrow> bool" where
  "jammed ns i p \<longleftrightarrow> pl_mu p = Some i \<and> pl_cons p \<noteq> CDone
     \<and> (ns \<longrightarrow> (\<forall>j c x. pl_worker p j \<noteq> WSelect c x))"

lemma jammed_stop_only: "stop_only p q \<Longrightarrow> jammed ns i p \<Longrightarrow> jammed ns i q"
  by (simp add: jammed_def stop_only_def same_core_def)

lemma jammed_worker: "jammed ns i p \<Longrightarrow> (\<And>c x. w \<noteq> WSelect c x) \<Longrightarrow> jammed ns i (set_worker j w p)"
  by (simp add: jammed_def set_worker_def)

lemma jammed_finish:
  assumes "finish_step pg j p = Some q" and "jammed ns i p"
  shows "jammed ns i q"
proof -
  have e: "jammed ns i (pool_errors es p)" for es by (rule jammed_stop_only [OF stop_only_errors assms(2)])
  have w: "jammed ns i (set_worker j v p)" "jammed ns i (set_worker j v (pool_errors es p))"
    if "v \<in> {WStop, WRelease, WGone}" for v es
    using that by (auto intro: jammed_worker [OF assms(2)] jammed_worker [OF e])
  show ?thesis
    using assms(1) w
    by (auto simp: finish_step_def pool_stop_def split: phase.splits option.splits err_handler.splits
        intro: jammed_stop_only [OF stop_only_apply] jammed_stop_only [OF stop_only_locked])
qed

lemma jammed_setup:
  assumes "setup_step pg b p = Some q" and "jammed ns i p"
  shows "jammed ns i q"
proof -
  have j: "jammed ns i (p\<lparr>pl_cons := c\<rparr>)" "jammed ns i (p\<lparr>pl_early := True, pl_cons := c\<rparr>)"
    "jammed ns i (p\<lparr>pl_st := s, pl_cons := c\<rparr>)" if "c \<noteq> CDone" for c s
    using assms(2) that by (simp_all add: jammed_def)
  have start: "jammed ns i q" if "start_worker b p1 = Some q" "jammed ns i p1" for p1
    using that by (auto simp: start_worker_def jammed_def stop_only_def same_core_def pool_errors_def
        split: if_splits option.splits bool.splits dest!: stop_only_apply)
  have lk: "jammed ns i q" if "locked r p1 = Some q" "jammed ns i p1" for r p1
    by (rule jammed_stop_only [OF stop_only_locked [OF that(1)] that(2)])
  show ?thesis
  proof (cases "pl_cons p")
    case CDefer
    with assms(1) j show ?thesis
      by (auto simp: setup_step_def split: prod.splits bool.splits intro: jammed_stop_only [OF close_results_frame])
  next
    case (CStart n)
    with assms(1) j start show ?thesis by (cases n) (auto simp: setup_step_def)
  next
    case CLock
    with assms show ?thesis by (simp add: setup_step_def jammed_def)
  qed (use assms(1) j lk in \<open>auto simp: setup_step_def pool_stop_def pool_stop_idle_def\<close>)
qed

lemma jammed_yield:
  "yield_ordered b p = Some q \<Longrightarrow> jammed ns i p \<Longrightarrow> jammed ns i q"
  "yield_unordered b p' = Some q' \<Longrightarrow> jammed ns i p' \<Longrightarrow> jammed ns i q'"
  by (auto simp: yield_ordered_def yield_unordered_def final_step_def jammed_def
      split: consumer.splits list.splits if_splits option.splits)

lemma jammed_top: "jammed ns i p \<Longrightarrow> jammed ns i (set_worker j (check_top p) p)"
  by (rule jammed_worker) (auto simp: check_top_def split: option.splits)

lemma jammed_pull:
  assumes "pull_step pg j p = Some q" and "jammed ns i p"
  shows "jammed ns i q"
proof (cases "pl_worker p j")
  case WTop
  with assms jammed_top show ?thesis by (auto simp: pull_step_def)
next
  case WLock
  with assms show ?thesis by (simp add: pull_step_def jammed_def)
qed (use assms jammed_finish in \<open>auto simp: pull_step_def\<close>)

lemma jammed_env: "env_step pg a p = Some q \<Longrightarrow> jammed ns i p \<Longrightarrow> jammed ns i q"
  by (rule jammed_stop_only [OF env_step_frame])

lemma jammed_each:
  assumes "each_step pg a p = Some q" and "jammed ns i p"
  shows "jammed ns i q"
proof (cases a)
  case (Consume b)
  show ?thesis
  proof (cases "pl_cons p = CRange")
    case True
    with assms Consume show ?thesis
      by (auto simp: each_step_def each_consume_def each_wait_def jammed_def split: option.splits prod.splits)
  next
    case False
    then have "each_consume pg b p = setup_step pg b p" by (cases "pl_cons p") (simp_all add: each_consume_def)
    with assms Consume jammed_setup show ?thesis by (auto simp: each_step_def)
  qed
next
  case (Worker j)
  with assms jammed_pull show ?thesis by (auto simp: each_step_def)
next
  case (CallEnds j out)
  have "jammed ns i (p\<lparr>pl_calls := cs\<rparr>)" for cs using assms(2) by (simp add: jammed_def)
  then have "jammed ns i (each_error c x (set_worker j WTop (p\<lparr>pl_calls := cs\<rparr>)))" for c x cs
    by (intro jammed_stop_only [OF each_error_stop_only] jammed_worker) auto
  with CallEnds assms(1) show ?thesis by (auto simp: each_step_def split: phase.splits if_splits)
qed (use assms jammed_env in \<open>auto simp: each_step_def simp del: env_step.simps\<close>)

lemma jammed_map:
  assumes "map_step zero pg a p = Some q" and "jammed True i p"
  shows "jammed True i q"
proof (cases a)
  case (Consume b)
  show ?thesis
  proof (cases "pl_cons p \<in> {CRange, CFinal} \<or> (\<exists>c. pl_cons p = CSlot c)")
    case True
    then have "yield_ordered b p = Some q" using assms(1) Consume by (simp add: map_step_def map_consume_eq)
    then show ?thesis using assms(2) by (rule jammed_yield)
  next
    case False
    with assms Consume jammed_setup show ?thesis by (auto simp: map_step_def map_consume_eq)
  qed
next
  case (Worker j)
  show ?thesis
  proof (cases "pl_worker p j")
    case WTop
    with Worker assms jammed_top show ?thesis by (auto simp: map_step_def)
  next
    case WLock
    with Worker assms show ?thesis by (simp add: map_step_def jammed_def)
  qed (use Worker assms jammed_finish in \<open>auto simp: map_step_def\<close>)
next
  case (CallEnds j out)
  have "jammed True i (p\<lparr>pl_slots := ss, pl_calls := cs\<rparr>)" for ss cs using assms(2) by (simp add: jammed_def)
  with CallEnds assms(1) show ?thesis
    by (auto simp: map_step_def split: phase.splits if_splits intro!: jammed_worker)
next
  case (SelSend j)
  with assms show ?thesis by (auto simp: map_step_def jammed_def split: phase.splits)
next
  case (SelBreak j)
  with assms show ?thesis by (auto simp: map_step_def jammed_def split: phase.splits)
next
  case (SelDone j)
  with assms show ?thesis by (auto simp: map_step_def jammed_def split: phase.splits)
qed (use assms jammed_env in \<open>auto simp: map_step_def simp del: env_step.simps\<close>)

lemma jammed_unord:
  assumes "unord_step zero pg a p = Some q" and "jammed ns i p"
  shows "jammed ns i q"
proof (cases a)
  case (Consume b)
  show ?thesis
  proof (cases "pl_cons p = CRange \<or> pl_cons p = CFinal")
    case True
    then have "yield_unordered b p = Some q" using assms(1) Consume by (auto simp: unord_step_def unord_consume_def)
    then show ?thesis using assms(2) by (rule jammed_yield)
  next
    case False
    then have "unord_consume pg b p = setup_step pg b p" by (cases "pl_cons p") (simp_all add: unord_consume_def)
    with assms Consume jammed_setup show ?thesis by (auto simp: unord_step_def)
  qed
next
  case (Worker j)
  with assms jammed_pull show ?thesis by (auto simp: unord_step_def split: phase.splits)
next
  case (CallEnds j out)
  have "jammed ns i (p\<lparr>pl_calls := cs\<rparr>)" for cs using assms(2) by (simp add: jammed_def)
  with CallEnds assms(1) show ?thesis
    by (auto simp: unord_step_def split: phase.splits if_splits intro!: jammed_worker)
next
  case (SelSend j)
  have "jammed ns i (p\<lparr>pl_chan := ms\<rparr>)" for ms using assms(2) by (simp add: jammed_def)
  with SelSend assms show ?thesis
    by (auto simp: unord_step_def split: phase.splits if_splits intro!: jammed_worker)
next
  case (SelBreak j)
  with assms show ?thesis by (auto simp: unord_step_def split: phase.splits if_splits intro!: jammed_worker)
next
  case (SelDone j)
  with assms show ?thesis by (auto simp: unord_step_def split: phase.splits if_splits intro!: jammed_worker)
qed (use assms jammed_env in \<open>auto simp: unord_step_def simp del: env_step.simps\<close>)

section \<open>Nothing unlocks it again\<close>

lemma jammed_run:
  assumes "\<And>a p q. step a p = Some q \<Longrightarrow> jammed ns i p \<Longrightarrow> jammed ns i q"
    and "panic_run pan pg step as p = Some q" and "jammed ns i p"
  shows "jammed ns i q"
  using assms(2,3)
proof (induction as arbitrary: p)
  case (Cons a as)
  then obtain r where r: "panic_step pan pg step a p = Some r" "panic_run pan pg step as r = Some q"
    by (auto split: option.splits)
  have "pull_panic pan pg j p = None" for j
    using Cons.prems(2) by (simp add: pull_panic_def jammed_def split: phase.splits)
  then have "step a p = Some r" using r(1) by (auto simp: panic_step_def split: action.splits)
  from Cons.IH [OF r(2) assms(1) [OF this Cons.prems(2)]] show ?case .
qed simp

lemma panic_jams:
  assumes "pull_panic pan pg i p = Some q" and "pl_cons p \<noteq> CDone" and "ns \<longrightarrow> (\<forall>j c x. pl_worker p j \<noteq> WSelect c x)"
  shows "jammed ns i q"
  using assms by (auto simp: pull_panic_def jammed_def set_worker_def split: phase.splits if_splits option.splits)

section \<open>Property\<close>

text \<open>
  C21: a panic of the input sequence deadlocks the iterators. Once a worker of \<open>ForEach\<close> or \<open>MapUnordered\<close>
  has asked a panicking sequence for its next item, before the call has returned, \<open>nextMu\<close> is held by that
  worker in every continuation of the run, whatever the workers, the stopper and the environment do,
  and the call never returns, because its deferred function waits for \<open>nextMu\<close>. The same holds for
  the first panic in a run of \<open>Map\<close>.
\<close>

theorem input_panic_deadlocks:
  "(pull_panic pan pg i p = Some q \<and> pl_cons p \<noteq> CDone \<and> panic_run pan pg (each_step pg) bs q = Some r \<longrightarrow>
      pl_mu r = Some i \<and> pl_cons r \<noteq> CDone)
   \<and> (pull_panic pan pu i pp = Some qq \<and> pl_cons pp \<noteq> CDone
      \<and> panic_run pan pu (unord_step zero pu) cs qq = Some rr \<longrightarrow> pl_mu rr = Some i \<and> pl_cons rr \<noteq> CDone)
   \<and> (map_run zero pu as (new_pool par CDefer) = Some p' \<and> pull_panic pan pu i p' = Some q'
      \<and> pl_cons p' \<noteq> CDone \<and> panic_run pan pu (map_step zero pu) ds q' = Some r' \<longrightarrow>
      pl_mu r' = Some i \<and> pl_cons r' \<noteq> CDone)"
proof (intro conjI impI; elim conjE)
  assume a: "pull_panic pan pg i p = Some q" "pl_cons p \<noteq> CDone" "panic_run pan pg (each_step pg) bs q = Some r"
  have "jammed False i r" by (rule jammed_run [OF jammed_each a(3) panic_jams [OF a(1,2)]]) simp_all
  then show "pl_mu r = Some i" "pl_cons r \<noteq> CDone" by (simp_all add: jammed_def)
next
  assume a: "pull_panic pan pu i pp = Some qq" "pl_cons pp \<noteq> CDone"
    "panic_run pan pu (unord_step zero pu) cs qq = Some rr"
  have "jammed False i rr" by (rule jammed_run [OF jammed_unord a(3) panic_jams [OF a(1,2)]]) simp_all
  then show "pl_mu rr = Some i" "pl_cons rr \<noteq> CDone" by (simp_all add: jammed_def)
next
  assume a: "map_run zero pu as (new_pool par CDefer) = Some p'" "pull_panic pan pu i p' = Some q'"
    "pl_cons p' \<noteq> CDone" "panic_run pan pu (map_step zero pu) ds q' = Some r'"
  have "pl_mu p' = None" using a(2) by (auto simp: pull_panic_def split: phase.splits if_splits)
  then have "True \<longrightarrow> (\<forall>j c x. pl_worker p' j \<noteq> WSelect c x)"
    using core_select(1) [of zero pu p'] map_run_inv [OF a(1)] by (fastforce simp: map_inv_core)
  from jammed_run [OF jammed_map a(4) panic_jams [OF a(2,3) this]]
  have "jammed True i r'" by simp
  then show "pl_mu r' = Some i" "pl_cons r' \<noteq> CDone" by (simp_all add: jammed_def)
qed

text \<open>
  \<open>ForEach\<close> over a sequence that panics at once: the worker's task ends with the recovered panic, the
  stopper becomes idle and is canceled, \<open>WaitCtx\<close> answers, and the deferred function blocks.
\<close>

definition panic_demo :: "nat \<Rightarrow> panic_value option" where
  "panic_demo n = (if n = 0 then Some (PanicOther ''read'') else None)"

lemma panic_demo_run:
  "map_option (\<lambda>r :: (nat, unit, unit) pool. (pl_cons r, pl_worker r 0, pl_final r \<noteq> None))
     (Option.bind (each_run each_demo [Consume True, Consume True, Consume True, Worker 0] (each_start each_demo None))
       (\<lambda>p. if pl_cons p = CDone then None else Option.bind (pull_panic panic_demo each_demo 0 p)
         (panic_run panic_demo each_demo (each_step each_demo)
           [Worker 0, Worker 0, Callback 0, Consume True, Consume True])))
   = Some (CLock, WGone, True)"
  by code_simp

theorem input_panic_deadlocks_witness:
  "\<exists>p q r :: (nat, unit, unit) pool. pull_panic panic_demo each_demo 0 p = Some q
     \<and> panic_run panic_demo each_demo (each_step each_demo)
         [Worker 0, Worker 0, Callback 0, Consume True, Consume True] q = Some r
     \<and> pl_final r \<noteq> None \<and> pl_mu r = Some 0 \<and> pl_cons r \<noteq> CDone"
proof -
  obtain p q r :: "(nat, unit, unit) pool" where d: "pl_cons p \<noteq> CDone" "pull_panic panic_demo each_demo 0 p = Some q"
    "panic_run panic_demo each_demo (each_step each_demo)
       [Worker 0, Worker 0, Callback 0, Consume True, Consume True] q = Some r" "pl_final r \<noteq> None"
    using panic_demo_run by (auto simp: bind_eq_Some_conv simp del: panic_run.simps split: if_splits)
  from conjunct1 [OF input_panic_deadlocks [where zero = "0 :: nat" and par = None]] d show ?thesis by blast
qed

section \<open>A send on the closed channel\<close>

lemma jammed_map_run:
  "map_run zero pg as p = Some q \<Longrightarrow> jammed True i p \<Longrightarrow> jammed True i q"
proof (induction as arbitrary: p)
  case (Cons a as)
  then show ?case by (auto split: option.splits dest: jammed_map)
qed simp

lemma closed_send_jams:
  assumes "map_inv zero pg p" and "pl_worker p i = WSelect c x" and "pl_cons p \<noteq> CDone" and "pl_closed p"
  obtains q where "map_step zero pg (SelSend i) p = Some q" and "jammed True i q"
proof -
  let ?q = "set_worker i (WRet (Some (recover_e (sq_pcs pg) None (PanicOther ''send on closed channel'')))) p"
  have q: "map_step zero pg (SelSend i) p = Some ?q" using assms(2,4) by (simp add: map_step_def)
  have mu: "pl_mu p = Some j" if "pl_worker p j = WSelect d y" for j d y
    using core_select(1) [of zero pg p j d y] assms(1) that by (simp add: map_inv_core)
  have "pl_worker ?q j \<noteq> WSelect d y" for j d y
    using mu [OF assms(2)] mu [of j d y] by (cases "j = i") auto
  then have "jammed True i ?q" using mu [OF assms(2)] assms(3) by (simp add: jammed_def)
  with q show thesis by (rule that)
qed

text \<open>
  C20: \<open>Map\<close> deadlocks when its context's grace period expires while a worker is in its select, for example
  blocked on the full \<open>results\<close> channel. Take any moment of a run, before \<open>Map\<close> has returned, at which a worker
  is selecting and the deferred function that closes \<open>results\<close> is the next callback to run. Then it runs because
  the grace period has expired, it runs without waiting for anything, and the select's send then panics; after that
  \<open>nextMu\<close> is held by this worker in every continuation of the run, whatever the workers, the stopper and the
  environment do, and \<open>Map\<close> never returns, because its own deferred function waits for \<open>nextMu\<close>.
\<close>

theorem map_deadlock:
  assumes "map_run zero pg as (new_pool par CDefer) = Some p"
    and "pl_worker p i = WSelect c x" and "pl_cons p \<noteq> CDone"
    and "k < length (pl_cbs p)" and "pl_cbs p ! k = CbUser close_fid # cbs"
  shows "handed p ErrGracePeriodExpired
    \<and> (\<exists>p1 q. map_step zero pg (Callback k) p = Some p1 \<and> map_step zero pg (SelSend i) p1 = Some q
        \<and> (\<forall>bs r. map_run zero pg bs q = Some r \<longrightarrow> pl_mu r = Some i \<and> pl_cons r \<noteq> CDone))"
proof
  have inv: "map_inv zero pg p" by (rule map_run_inv [OF assms(1)])
  have "CbUser close_fid # cbs \<in> set (pl_cbs p)" using nth_mem [OF assms(4)] unfolding assms(5) .
  then have "CbUser close_fid \<in> pending p" unfolding pending_def by (rule UN_I) (rule list.set_intros(1))
  then have "closing p" by (simp add: closing_def)
  then show "handed p ErrGracePeriodExpired"
    using stop_inv_quiet [of p i] inv assms(2) by (auto simp: map_inv_def)
  let ?p1 = "close_results pg (p\<lparr>pl_cbs := (pl_cbs p)[k := cbs]\<rparr>)"
  have s: "env_step pg (Callback k) p = Some ?p1" using assms(4,5) by simp
  then have e: "map_step zero pg (Callback k) p = Some ?p1" by (simp add: map_step_def del: env_step.simps)
  have "pl_closed ?p1" by (simp add: close_results_def pool_errors_def)
  moreover have "pl_worker ?p1 i = WSelect c x" "pl_cons ?p1 \<noteq> CDone"
    using env_step_frame [OF s] assms(2,3) by (simp_all add: stop_only_def)
  ultimately obtain q where q: "map_step zero pg (SelSend i) ?p1 = Some q" "jammed True i q"
    using closed_send_jams [OF map_inv_step [OF inv e]] by metis
  have "pl_mu r = Some i \<and> pl_cons r \<noteq> CDone" if "map_run zero pg bs q = Some r" for bs r
    using jammed_map_run [OF that q(2)] by (simp add: jammed_def)
  with e q(1) show "\<exists>p1 q. map_step zero pg (Callback k) p = Some p1 \<and> map_step zero pg (SelSend i) p1 = Some q
      \<and> (\<forall>bs r. map_run zero pg bs q = Some r \<longrightarrow> pl_mu r = Some i \<and> pl_cons r \<noteq> CDone)" by blast
qed

text \<open>
  One worker, two items: the result channel of the first fills \<open>results\<close>, the worker blocks with the
  second, the context is stopped and its grace period expires. The rest of the run brings the worker
  to its end and the consumer to the lock.
\<close>

definition block_run :: "(nat \<times> goerr option) action list" where
  "block_run = demo_setup @ demo_item 0 @ [Worker 0, Worker 0, EnvStop 5, EnvTick 5, EnvFire 0, EnvTimer]"

definition block_rest :: "(nat \<times> goerr option) action list" where
  "block_rest = [Callback 0, Worker 0, Worker 0, Worker 0] @ replicate 5 (Consume True)"

lemma block_run_result:
  "map_option (\<lambda>p. (pl_worker p 0, length (pl_chan p), pl_closed p, pl_cons p,
       map (map (\<lambda>cb. cb = CbUser close_fid)) (pl_cbs p)))
     (map_run 0 (demo 2 1) block_run (new_pool None CDefer))
   = Some (WSelect 1 10, 1, False, CRange, [[True, False]])"
  by code_simp

lemma block_rest_result:
  "map_option (\<lambda>p. (pl_cons p, pl_worker p 0))
     (map_run 0 (demo 2 1) (block_run @ [Callback 0, SelSend 0] @ block_rest) (new_pool None CDefer))
   = Some (CLock, WGone)"
  by code_simp

theorem map_deadlock_witness:
  "\<exists>p. map_run 0 (demo 2 1) (block_run @ [Callback 0, SelSend 0] @ block_rest) (new_pool None CDefer) = Some p
     \<and> pl_cons p = CLock \<and> pl_mu p = Some 0"
proof -
  obtain p where p: "map_run 0 (demo 2 1) block_run (new_pool None CDefer) = Some p"
    and w: "pl_worker p 0 = WSelect 1 10" "pl_cons p = CRange"
      "map (map (\<lambda>cb. cb = CbUser close_fid)) (pl_cbs p) = [[True, False]]"
    using block_run_result by auto
  from w(3) obtain cb where k: "0 < length (pl_cbs p)" "pl_cbs p ! 0 = CbUser close_fid # [cb]" by auto
  obtain r where r: "map_run 0 (demo 2 1) (block_run @ [Callback 0, SelSend 0] @ block_rest) (new_pool None CDefer) = Some r"
      "pl_cons r = CLock" using block_rest_result by auto
  have "pl_cons p \<noteq> CDone" using w(2) by simp
  from conjunct2 [OF map_deadlock [OF p w(1) this k]] obtain p1 q where
    e: "map_step 0 (demo 2 1) (Callback 0) p = Some p1" "map_step 0 (demo 2 1) (SelSend 0) p1 = Some q"
    and q: "map_run 0 (demo 2 1) bs q = Some r \<Longrightarrow> pl_mu r = Some 0" for bs r by blast
  have "map_run 0 (demo 2 1) block_rest q = Some r" using r(1) p e by (simp add: map_run_append)
  from q [OF this] r show ?thesis by blast
qed

end
