(* ===== verification/Spec2Isabelle.thy ===== *)
theory Spec2Isabelle
  imports Grace_Claims Cascade_Claims Wait_Claims Root_Claims Lifecycle Machine_Admit Adapt Task_Info Retry Limit Compat Seq_Claims Seq_Live Seq_Panic
begin

text \<open>
  A verification library for go-stopper, a Go package that starts, limits and gracefully stops groups of
  goroutines.

  \<^bold>\<open>The program.\<close> A stopper context (\<open>stopper.go\<close>, type \<open>impl\<close>) wraps a \<open>context.Context\<close> and a \<open>State\<close>
  (\<open>internal/state/state.go\<close>): a mutex-protected count of running tasks, deferred functions, stop hooks,
  collected errors, a grace timer and the cancel function. \<open>Call\<close> and \<open>Go\<close> take a unit of the count with
  \<open>Apply(1)\<close>, run a task below its middleware and give the unit back with \<open>Apply(-1)\<close>; \<open>Stop\<close> starts the
  soft stop, which hooks hand down to the child contexts; the context is canceled when it is stopping and
  its count is zero, or when its grace period expires. Contexts form a tree: a child's \<open>Apply\<close> also takes a
  unit of the parent. Around this core: options and their inheritance (\<open>options.go\<close>), adapters
  (\<open>adapt.go\<close>, \<open>signal.go\<close>), observability (\<open>task_info.go\<close>), middleware packages (\<open>retry\<close>, \<open>limit\<close>,
  \<open>linger\<close>), the v1 API (\<open>compat\<close>) and iterators over worker pools (\<open>seq\<close>).

  \<^bold>\<open>Prelude, Terminating, Go\_Errors, Safe.\<close> Shared vocabulary; the contracts \<open>invariant_system\<close> (a transition system with
  an invariant), \<open>layered_system\<close> (one whose steps are runs of a machine below) and \<open>counted_resource\<close> (a
  unit taken around a body); Go error values with \<open>errors.Is\<close> and
  \<open>errors.Join\<close>; panics as outcomes and the panic handlers of \<open>internal/safe\<close>. Terminating has the
  contract of a program that comes to its end, \<open>terminating_system\<close>; it is interpreted on the shutdown of
  the goroutine machine, with and without watchers, on \<open>ForEach\<close> and on \<open>MapUnordered\<close>.

  \<^bold>\<open>State, State\_Inv, State\_Runs.\<close> The record \<open>gostate\<close> has the fields of \<open>State\<close>; one definition per critical
  section (\<open>apply_locked\<close>, \<open>stop_locked\<close>, \<open>stop_on_idle_locked\<close>, \<open>soft_stop_locked\<close>, \<open>hard_stop_locked\<close>,
  \<open>update_grace_timer_locked\<close>, \<open>add_deferred\<close>, \<open>add_stop_hook_locked\<close>, \<open>add_errors\<close> and the readers). A
  critical section answers with the new state and the callbacks that the code runs after unlocking;
  panics are the left summand. \<open>wf_state\<close> is the well-formedness invariant. State\_Runs puts the critical
  sections in any order and proves the behaviour of each branch and the exactly-once contract of
  deferred functions.

  \<^bold>\<open>Machine and Machine\_*.\<close> Goroutines as stacks of frames over a heap of states; one step is one critical
  section, one channel check or one return. The accounting invariant (Machine\_Inv, Machine\_Step) says that
  every task count is the sum of what the goroutines owe; Machine\_Claims derives, for every
  interleaving, that nothing panics, that \<open>Len\<close> is exact, that running tasks keep their contexts from being
  canceled with \<open>ErrStopped\<close>, and that stopping is final. Machine\_Cancel follows each cancel function from
  the critical section that hands it out to its call, and the grace timer of each state.

  \<^bold>\<open>Shutdown: Machine\_Drain, Machine\_Shape, Machine\_Propagate, Machine\_Shutdown, Shutdown\_Claims.\<close> What a
  stop promises in the end. Machine\_Drain weighs stacks, hooks and deferred functions (\<open>conf_cost\<close>) and
  Machine\_Shape shows that a goroutine with frames left can always act, so finishing what has begun ends
  after at most \<open>conf_cost\<close> steps; Machine\_Propagate follows a stop from a context to its children, through
  registered hooks, hooks being registered and hooks being run; Machine\_Shutdown puts the
  invariants together (\<open>shutdown_inv\<close>), and Shutdown\_Claims states that a requested stop completes in the
  context and everything below it. \<^bold>\<open>Machine\_Grace, Grace\_Claims:\<close> a stop runs the deferred functions of a
  context before it calls the context's own cancel function, and the grace timer alone enforces the deadline.
  \<^bold>\<open>Cascade\_Claims:\<close> the cancel function of a stopping parent may come first, so a child's deferred functions can find
  their context canceled. \<^bold>\<open>Machine\_Watch\<close> adds
  the watchers that \<open>newContext\<close> registers with \<open>context.AfterFunc\<close>: the machine with the constructors still
  to register and the watchers still armed beside it, each of its steps a run of the machine below, so a
  context canceled from outside is stopped and shut down like one that was asked to stop.

  \<^bold>\<open>Abstract specifications: Lifecycle, Machine\_Admit, Root\_Claims.\<close> The life cycle of a context as a
  machine with three phases, ordered by time (\<open>linorder\<close>) and simulated by every critical section; the admission and the release of a
  task as one step each on a state and all its ancestors, refined by \<open>Apply(1)\<close> and \<open>Apply(-1)\<close>; and the
  sequential model of a root context in Stopper as runs of one goroutine of the machine.

  \<^bold>\<open>Options, Go\_Context, Stopper, Adapt, Task\_Info.\<close> Configurations and their merging along a chain of
  contexts; contexts as values with \<open>Value\<close>, \<open>Done\<close>, \<open>Err\<close>, \<open>From\<close> and \<open>Wait\<close>, and \<open>newContext\<close> as a step of
  the machine (Wait\_Claims aligns them with the machine's tree: \<open>Wait\<close> returns after a shutdown and reports
  what has been collected); \<open>taskInvoker\<close>, \<open>Call\<close> and \<open>Go\<close> as transformers of a world with one root state; the
  adapters; groups, task infos and their rendering.

  \<^bold>\<open>Retry, Limit, Linger, Compat.\<close> The middleware packages and the v1 API. The retry loop is a
  \<open>partial_function\<close>; \<open>retry_fuel\<close> bounds it, and \<open>loop_bounded\<close> shows that the number of attempts is
  enough fuel. The delays and the jitter of the backoff are computed with float32 rounding. Limit has the middleware as
  a function on one task and, with the same channel operations, as steps of interleaved tasks: the limit is kept
  when no outer middleware repeats its task, and the theorems on repeated calls show what happens otherwise.

  \<^bold>\<open>Seq\_Pool, Seq\_Inv, Seq\_Map, Seq\_Flow, Seq\_Progress, Seq\_Measure, Seq\_Claims.\<close> The worker pool of \<open>Map\<close>
  and \<open>Map2\<close> as a labelled transition function: the consumer, the workers, the callbacks of the stopper
  and an environment that may stop the context, let time pass, cancel the parent, add errors and start
  tasks at any moment. The invariant relates the input position, the items in flight, the channel and the
  output; Seq\_Progress shows that some internal action is enabled, Seq\_Measure that each makes a measure
  smaller, so that \<open>Map\<close> returns (at most \<open>20 n + 7 k + 23\<close> steps for \<open>n\<close> items and \<open>k\<close> workers).
  \<^bold>\<open>Seq\_Each\<close> has \<open>ForEach\<close>,
  \<open>MapUnordered\<close> and their pairwise variants over the same pool; \<^bold>\<open>Seq\_Live\<close> shows that they return under
  every environment that runs no tasks of its own on the nested stopper, and
  that \<open>ForEach\<close> without workers reports success on a sequence it has not looked at. \<^bold>\<open>Seq\_Panic\<close> adds input sequences
  that panic and shows that the iterators then never return, and that \<open>Map\<close> never returns when the grace period expires
  while a worker is sending.

  \<^bold>\<open>Bounds.\<close> Counts are integers: the code's \<open>int\<close> would need more than \<open>2 ^ 63\<close> running tasks to wrap.
  Times and durations are integers; the recorder's \<open>uint64\<close> counter is a natural number. Schedules are lists of actions of any length, and invariants hold for
  all of them; no theorem depends on a fuel that is not shown to suffice. \<open>conf_cost\<close> and \<open>pool_measure\<close> are
  functions of a configuration that every step of the program's own makes smaller. A theorem that a run
  exists (\<open>grace_enforced\<close>) says what a scheduler can do that lets the clock and one goroutine move.

  \<^bold>\<open>Parameters.\<close> User code (tasks, callbacks, middleware, invokers), the choice of a ready \<open>select\<close> case, the
  limiter of \<open>golang.org/x/time/rate\<close>, what happens while a goroutine blocks, the result of \<open>rand.Float32\<close> and the
  out-of-range conversion of a float are arguments of the definitions.

  \<^bold>\<open>Not modelled.\<close> \<open>runtime/trace\<close> regions beyond their order, the symbolisation of program counters, the
  syntax of JSON output (its values are modelled), the runtime's goroutine scheduler beyond arbitrary
  interleaving, the coroutine of \<open>iter.Pull\<close> (the input is a function from positions to items and to panics),
  the test helpers \<open>internal/tctx\<close> and the package comments.
  The worker pools are modelled for tasks without task middleware, and for a number of workers that is not
  negative (\<open>Map\<close> and \<open>MapUnordered\<close> panic in \<open>make\<close> on a negative one). In Machine\_Watch a watcher is
  registered and its cancel function stored in one step.
\<close>

end
